(* ===== verification/Prelude.thy ===== *)
theory Prelude
  imports Main "HOL-Library.Word"
begin

text \<open>
  Shared material of the development: the faults an operation can end in, sequencing of
  fallible operations, \<open>size_t\<close> and \<open>int32_t\<close> arithmetic at their widths,
  network byte order, and facts on list segments.  Every component theory imports this one.

  Two rule collections carry the component proofs: \<open>result_simps\<close> (case analysis on
  the outcome of a fallible operation) and \<open>size_simps\<close> (\<open>size_t\<close> arithmetic that
  does not wrap).
\<close>

named_theorems result_simps
named_theorems size_simps

section \<open>Faults and fallible operations\<close>

text \<open>
  What ends an operation other than its return: a failed \<open>assert\<close> (the build files do
  not define \<open>NDEBUG\<close>), \<open>std::length_error\<close> of a vector, an access outside the
  object (undefined behaviour), an access to a deleted object, a null pointer or an empty
  \<open>std::function\<close> called, glog's \<open>LOG(FATAL)\<close> (which aborts), \<open>std::runtime_error\<close>,
  \<open>std::bad_alloc\<close>, the overflow of a signed integer (undefined behaviour), the end of
  the stack, the end of a non-void function reached without a return (undefined behaviour), and
  a loop that is never left, where an operation built on it is given an outcome.
\<close>

datatype fault =
    Assert_Failed
  | Length_Error
  | Out_Of_Bounds
  | Use_After_Free
  | Null_Pointer
  | Bad_Function_Call
  | Fatal_Log
  | Runtime_Error
  | Bad_Alloc
  | Signed_Overflow
  | Stack_Overflow
  | No_Return
  | Never_Returns

type_synonym 'a result = "fault + 'a"

definition and_then :: "'e + 'a \<Rightarrow> ('a \<Rightarrow> 'e + 'b) \<Rightarrow> 'e + 'b" where
  "and_then m f = (case m of Inl e \<Rightarrow> Inl e | Inr x \<Rightarrow> f x)"

lemma and_then_Inr [simp]: "and_then (Inr x) f = f x"
  by (simp add: and_then_def)

lemma and_then_Inl [simp]: "and_then (Inl e) f = Inl e"
  by (simp add: and_then_def)

lemma and_then_eq_Inr [result_simps]:
  "and_then m f = Inr y \<longleftrightarrow> (\<exists>x. m = Inr x \<and> f x = Inr y)"
  by (cases m) auto

lemma and_then_eq_Inl [result_simps]:
  "and_then m f = Inl e \<longleftrightarrow> m = Inl e \<or> (\<exists>x. m = Inr x \<and> f x = Inl e)"
  by (cases m) auto

lemma and_then_assoc: "and_then (and_then m f) g = and_then m (\<lambda>x. and_then (f x) g)"
  by (cases m) auto

lemma and_then_cong [fundef_cong]:
  "m = m' \<Longrightarrow> (\<And>x. m' = Inr x \<Longrightarrow> f x = g x) \<Longrightarrow> and_then m f = and_then m' g"
  by (cases m') auto

text \<open>Runs an operation over a list from left to right, stopping at the first fault.\<close>

fun fold_result :: "('a \<Rightarrow> 's \<Rightarrow> 'e + 's) \<Rightarrow> 'a list \<Rightarrow> 's \<Rightarrow> 'e + 's" where
  "fold_result f [] s = Inr s"
| "fold_result f (x # xs) s = and_then (f x s) (fold_result f xs)"

lemma and_then_return [simp]: "and_then m Inr = m"
  by (cases m) simp_all

lemma and_then_fold_Nil [simp]: "and_then m (fold_result f []) = m"
  by (cases m) simp_all

lemma fold_result_append:
  "fold_result f (xs @ ys) s = and_then (fold_result f xs s) (fold_result f ys)"
proof (induction xs arbitrary: s)
  case Nil
  then show ?case by simp
next
  case (Cons x xs)
  then have "fold_result f (xs @ ys) = (\<lambda>s. and_then (fold_result f xs s) (fold_result f ys))"
    by (intro ext)
  then show ?case by (simp add: and_then_assoc)
qed

lemma fold_result_log: "fold_result (\<lambda>x s. Inr (s @ [x])) xs s = Inr (s @ xs)"
  by (induction xs arbitrary: s) simp_all

text \<open>An invariant that every step keeps is kept by the fold, which meets no fault when no step does.\<close>

lemma fold_result_invariant:
  assumes "P s" and "\<And>x s. x \<in> set xs \<Longrightarrow> P s \<Longrightarrow> \<exists>s'. f x s = Inr s' \<and> P s'"
  shows "\<exists>s'. fold_result f xs s = Inr s' \<and> P s'"
  using assms
proof (induction xs arbitrary: s)
  case Nil
  then show ?case by simp
next
  case (Cons x xs)
  then obtain s1 where "f x s = Inr s1" "P s1" by fastforce
  with Cons show ?case by auto
qed

text \<open>The same up to the first state in which a step is not allowed.\<close>

lemma fold_result_until:
  assumes "P s" and "\<And>x s. x \<in> set xs \<Longrightarrow> P s \<Longrightarrow> \<not> stop x s \<Longrightarrow> \<exists>s'. f x s = Inr s' \<and> P s'"
  shows "(\<exists>s'. fold_result f xs s = Inr s' \<and> P s') \<or>
    (\<exists>ys x zs s'. xs = ys @ x # zs \<and> fold_result f ys s = Inr s' \<and> P s' \<and> stop x s')"
  using assms
proof (induction xs arbitrary: s)
  case (Cons x xs)
  show ?case
  proof (cases "stop x s")
    case True
    then show ?thesis using Cons.prems(1) by (metis append_Nil fold_result.simps(1))
  next
    case False
    then obtain s1 where s1: "f x s = Inr s1" "P s1" using Cons.prems by force
    have "(\<exists>s'. fold_result f xs s1 = Inr s' \<and> P s') \<or>
        (\<exists>ys y zs s'. xs = ys @ y # zs \<and> fold_result f ys s1 = Inr s' \<and> P s' \<and> stop y s')"
      using Cons s1(2) by simp
    then show ?thesis
    proof (elim disjE exE conjE)
      fix ys y zs s' assume "xs = ys @ y # zs" "fold_result f ys s1 = Inr s'" "P s'" "stop y s'"
      then show ?thesis using s1(1) by (intro disjI2 exI [of _ "x # ys"] exI [of _ y] exI [of _ zs] exI [of _ s']) simp
    qed (use s1(1) in auto)
  qed
qed simp

text \<open>
  \<open>ensures E P r\<close>: the outcome \<open>r\<close> is a value with \<open>P\<close> or a fault with \<open>E\<close>.
\<close>

definition ensures :: "(fault \<Rightarrow> bool) \<Rightarrow> ('a \<Rightarrow> bool) \<Rightarrow> 'a result \<Rightarrow> bool" where
  "ensures E P r \<longleftrightarrow> (case r of Inl e \<Rightarrow> E e | Inr x \<Rightarrow> P x)"

lemma ensures_Inr [simp]: "ensures E P (Inr x) \<longleftrightarrow> P x"
  by (simp add: ensures_def)

lemma ensures_Inl [simp]: "ensures E P (Inl e) \<longleftrightarrow> E e"
  by (simp add: ensures_def)

lemma ensures_and_then:
  "ensures E Q m \<Longrightarrow> (\<And>x. m = Inr x \<Longrightarrow> Q x \<Longrightarrow> ensures E P (f x)) \<Longrightarrow> ensures E P (and_then m f)"
  by (cases m) auto

lemma ensures_weaken: "ensures E P r \<Longrightarrow> (\<And>x. r = Inr x \<Longrightarrow> P x \<Longrightarrow> Q x) \<Longrightarrow> ensures E Q r"
  by (cases r) auto

lemma ensures_fold_result:
  assumes "P s" and "\<And>x s. x \<in> set xs \<Longrightarrow> P s \<Longrightarrow> ensures E P (f x s)"
  shows "ensures E P (fold_result f xs s)"
  using assms
proof (induction xs arbitrary: s)
  case Nil
  then show ?case by simp
next
  case (Cons x xs)
  have "ensures E P (f x s)" using Cons.prems by simp
  then show ?case using Cons by (auto intro: ensures_and_then)
qed

section \<open>size_t arithmetic\<close>

text \<open>
  A \<open>size_t\<close> is a natural number below \<open>2 ^ 64\<close>; addition and subtraction wrap.
  \<open>max_size\<close> is \<open>std::vector<char>::max_size()\<close> (the largest \<open>ptrdiff_t\<close>).
\<close>

abbreviation size_lim :: nat where
  "size_lim \<equiv> 18446744073709551616"

abbreviation max_size :: nat where
  "max_size \<equiv> 9223372036854775807"

definition size_add :: "nat \<Rightarrow> nat \<Rightarrow> nat" where
  "size_add a b = (a + b) mod size_lim"

definition size_sub :: "nat \<Rightarrow> nat \<Rightarrow> nat" where
  "size_sub a b = (a + (size_lim - b mod size_lim)) mod size_lim"

text \<open>The conversion of a signed integer to \<open>size_t\<close>: negative values wrap to huge ones.\<close>

definition size_of_int :: "int \<Rightarrow> nat" where
  "size_of_int i = nat (i mod 18446744073709551616)"

lemma size_add_small [size_simps]: "a + b < size_lim \<Longrightarrow> size_add a b = a + b"
  by (simp add: size_add_def)

lemma size_sub_small [size_simps]:
  assumes "b \<le> a" and "a < size_lim"
  shows "size_sub a b = a - b"
proof -
  have b: "b mod size_lim = b" using assms by simp
  have "a + (size_lim - b) = (a - b) + size_lim" using assms by simp
  then have "(a + (size_lim - b)) mod size_lim = (a - b) mod size_lim"
    by (simp only: mod_add_self2)
  then show ?thesis using assms by (simp only: size_sub_def b mod_less)
qed

lemma size_sub_lt [simp]: "size_sub a b < size_lim"
  by (simp add: size_sub_def)

lemma size_of_int_nonneg [size_simps]: "0 \<le> i \<Longrightarrow> i < 18446744073709551616 \<Longrightarrow> size_of_int i = nat i"
  by (simp add: size_of_int_def)

text \<open>A negative \<open>int\<close> converts to its wrapped value, and adding that subtracts.\<close>

lemma size_of_int_neg:
  assumes "0 < n" and "n < size_lim"
  shows "size_of_int (- int n) = size_lim - n"
proof -
  have "(- int n) mod 18446744073709551616 = (18446744073709551616 - int n) mod 18446744073709551616"
    by (metis diff_0 minus_mod_self1)
  also have "\<dots> = 18446744073709551616 - int n"
    using assms by (intro mod_pos_pos_trivial) linarith+
  finally show ?thesis using assms by (simp add: size_of_int_def nat_diff_distrib)
qed

lemma size_add_wrap:
  assumes "n \<le> a" and "a < size_lim"
  shows "size_add a (size_lim - n) = a - n"
proof -
  have "a + (size_lim - n) = (a - n) + size_lim" using assms by simp
  then have "(a + (size_lim - n)) mod size_lim = (a - n) mod size_lim"
    by (simp only: mod_add_self2)
  also have "\<dots> = a - n" using assms by (intro mod_less) linarith
  finally show ?thesis by (simp only: size_add_def)
qed

lemma size_sub_wrap:
  assumes "0 < n" and "n \<le> w" and "w < size_lim"
  shows "size_sub (w - n) w = size_lim - n"
proof -
  have "(w - n) + (size_lim - w mod size_lim) = size_lim - n" using assms by simp
  then show ?thesis using assms by (simp only: size_sub_def mod_less)
qed

text \<open>Adding to the subtrahend lowers a wrapped difference by as much, while it does not pass zero.\<close>

lemma size_sub_add:
  assumes "n \<le> size_sub w r"
  shows "size_sub w (size_add r n) = size_sub w r - n"
proof -
  define L where "L = int size_lim"
  have L: "L > 0" by (simp add: L_def)
  have sub: "int (size_sub a b) = (int a - int b) mod L" for a b
  proof -
    have "b mod size_lim \<le> size_lim" by simp
    then have "int (size_lim - b mod size_lim) = L - int b mod L"
      by (simp only: of_nat_diff zmod_int L_def)
    then have "int (size_sub a b) = (int a + (L - int b mod L)) mod L"
      by (simp only: size_sub_def zmod_int of_nat_add L_def)
    also have "\<dots> = (int a - int b mod L + L) mod L" by (simp only: algebra_simps)
    also have "\<dots> = (int a - int b) mod L" by (simp add: mod_diff_right_eq)
    finally show ?thesis .
  qed
  have add: "int (size_add r n) = (int r + int n) mod L"
    by (simp only: size_add_def zmod_int of_nat_add L_def)
  have "int (size_sub w (size_add r n)) = (int w - (int r + int n)) mod L"
    by (simp only: sub add mod_diff_right_eq)
  also have "\<dots> = ((int w - int r) mod L - int n) mod L"
    by (simp only: mod_diff_left_eq algebra_simps)
  also have "\<dots> = (int (size_sub w r) - int n) mod L" by (simp only: sub)
  also have "\<dots> = int (size_sub w r) - int n"
  proof (rule mod_pos_pos_trivial)
    show "0 \<le> int (size_sub w r) - int n" using assms by simp
    have "int (size_sub w r) < L" by (simp only: L_def of_nat_less_iff size_sub_lt)
    then show "int (size_sub w r) - int n < L" by linarith
  qed
  finally show ?thesis using assms by linarith
qed

section \<open>int32_t and network byte order\<close>

type_synonym byte = "8 word"
type_synonym int32 = "32 word"
type_synonym int16 = "16 word"
type_synonym int8 = "8 word"

text \<open>
  The memory image of an integer in network order.  The source always pairs
  \<open>host_to_network_long\<close> / \<open>_short\<close> (POSIX \<open>htonl\<close>, \<open>htons\<close>) with the
  byte copy of the result, so the pair is modelled as one function, the same on every host:
  most significant byte first.
\<close>

definition be_bytes32 :: "int32 \<Rightarrow> byte list" where
  "be_bytes32 x = [ucast (drop_bit 24 x), ucast (drop_bit 16 x), ucast (drop_bit 8 x), ucast x]"

definition be_bytes16 :: "int16 \<Rightarrow> byte list" where
  "be_bytes16 x = [ucast (drop_bit 8 x), ucast x]"

definition be_value32 :: "byte list \<Rightarrow> int32" where
  "be_value32 bs = (case bs of
     a # b # c # d # _ \<Rightarrow>
       or (push_bit 24 (ucast a)) (or (push_bit 16 (ucast b)) (or (push_bit 8 (ucast c)) (ucast d)))
   | _ \<Rightarrow> 0)"

definition be_value16 :: "byte list \<Rightarrow> int16" where
  "be_value16 bs = (case bs of
     a # b # _ \<Rightarrow> or (push_bit 8 (ucast a)) (ucast b)
   | _ \<Rightarrow> 0)"

lemma length_be_bytes32 [simp]: "length (be_bytes32 x) = 4"
  by (simp add: be_bytes32_def)

lemma length_be_bytes16 [simp]: "length (be_bytes16 x) = 2"
  by (simp add: be_bytes16_def)

lemma be_value32_bytes [simp]: "be_value32 (be_bytes32 x @ r) = x"
proof (rule bit_word_eqI)
  fix n :: nat assume n: "n < LENGTH(32)"
  have "n < 8 \<or> (8 \<le> n \<and> n < 16) \<or> (16 \<le> n \<and> n < 24) \<or> (24 \<le> n \<and> n < 32)"
    using n by auto
  then show "bit (be_value32 (be_bytes32 x @ r)) n = bit x n"
    by (elim disjE) (auto simp: be_value32_def be_bytes32_def bit_simps)
qed

lemma be_value16_bytes [simp]: "be_value16 (be_bytes16 x @ r) = x"
proof (rule bit_word_eqI)
  fix n :: nat assume n: "n < LENGTH(16)"
  have "n < 8 \<or> (8 \<le> n \<and> n < 16)" using n by auto
  then show "bit (be_value16 (be_bytes16 x @ r)) n = bit x n"
    by (elim disjE) (auto simp: be_value16_def be_bytes16_def bit_simps)
qed

lemma be_value32_bytes_nil [simp]: "be_value32 (be_bytes32 x) = x"
  using be_value32_bytes [of x "[]"] by simp

lemma be_value16_bytes_nil [simp]: "be_value16 (be_bytes16 x) = x"
  using be_value16_bytes [of x "[]"] by simp

text \<open>Only the first four bytes are read.\<close>

lemma be_value32_take [simp]: "4 \<le> n \<Longrightarrow> be_value32 (take n bs) = be_value32 bs"
proof -
  assume "4 \<le> n"
  then obtain k where "n = Suc (Suc (Suc (Suc k)))"
    using le_Suc_ex [of 4 n] by (auto simp: numeral_eq_Suc)
  then show ?thesis by (auto simp: be_value32_def split: list.split)
qed

lemma be_value32_append [simp]: "4 \<le> length bs \<Longrightarrow> be_value32 (bs @ r) = be_value32 bs"
  using be_value32_take [of "length bs" "bs @ r"] by simp

text \<open>A length that fits an \<open>int32_t\<close> survives the conversion.\<close>

lemma sint_int32_of_nat: "n < 2147483648 \<Longrightarrow> sint (word_of_nat n :: int32) = int n"
  by (simp add: signed_of_nat signed_take_bit_int_eq_self)

section \<open>List segments\<close>

text \<open>Copying \<open>xs\<close> over \<open>ys\<close> from index \<open>i\<close> (the copied range lies inside \<open>ys\<close>).\<close>

definition overwrite :: "nat \<Rightarrow> 'a list \<Rightarrow> 'a list \<Rightarrow> 'a list" where
  "overwrite i xs ys = take i ys @ xs @ drop (i + length xs) ys"

lemma length_overwrite [simp]: "i + length xs \<le> length ys \<Longrightarrow> length (overwrite i xs ys) = length ys"
  by (simp add: overwrite_def)

definition segment :: "nat \<Rightarrow> nat \<Rightarrow> 'a list \<Rightarrow> 'a list" where
  "segment i j xs = take (j - i) (drop i xs)"

lemma length_segment [simp]: "j \<le> length xs \<Longrightarrow> length (segment i j xs) = j - i"
  by (simp add: segment_def)

lemma segment_eq_drop_take: "segment i j xs = drop i (take j xs)"
  by (simp add: segment_def drop_take)

lemma segment_empty [simp]: "j \<le> i \<Longrightarrow> segment i j xs = []"
  by (simp add: segment_def)

lemma segment_split:
  assumes "i \<le> j" and "j \<le> k"
  shows "segment i k xs = segment i j xs @ segment j k xs"
proof -
  have "k - i = (j - i) + (k - j)" and "j = (j - i) + i" using assms by simp_all
  then show ?thesis unfolding segment_def by (metis drop_drop take_add)
qed

lemma segment_append_left [simp]: "j \<le> length xs \<Longrightarrow> segment i j (xs @ ys) = segment i j xs"
  by (simp add: segment_def)

lemma segment_overwrite_before:
  "j \<le> i \<Longrightarrow> i \<le> length ys \<Longrightarrow> segment k j (overwrite i xs ys) = segment k j ys"
  by (simp add: overwrite_def segment_eq_drop_take min_def)

lemma segment_overwrite_here [simp]:
  "i \<le> length ys \<Longrightarrow> j = i + length xs \<Longrightarrow> segment i j (overwrite i xs ys) = xs"
  by (simp add: overwrite_def segment_def)

lemma segment_overwrite_after:
  "i + length xs \<le> k \<Longrightarrow> k \<le> length ys \<Longrightarrow> segment k j (overwrite i xs ys) = segment k j ys"
  by (simp add: overwrite_def segment_def)

lemma drop_segment: "drop n (segment i j xs) = segment (i + n) j xs"
  by (simp add: segment_def drop_take add.commute)

lemma take_segment: "i + n \<le> j \<Longrightarrow> take n (segment i j xs) = segment i (i + n) xs"
  by (simp add: segment_def)

end
