(* ===== verification/Byte_Queue.thy ===== *)
theory Byte_Queue
  imports Prelude
begin

text \<open>
  The interface through which the codecs and the connections use a byte buffer: bytes are
  put at the back and dropped from the front, and \<open>content\<close> is what is between.  The
  buffer of \<open>Net/Buffer.cpp\<close> interprets it; the lemmas here hold for any provider.
\<close>

datatype queue_op = Put "byte list" | Drop nat

text \<open>A run of operations on a provider, and the same run on the list of bytes it stands for.\<close>

definition queue_step ::
    "(byte list \<Rightarrow> 'q \<Rightarrow> 'q result) \<Rightarrow> (nat \<Rightarrow> 'q \<Rightarrow> 'q result) \<Rightarrow> queue_op \<Rightarrow> 'q \<Rightarrow> 'q result" where
  "queue_step put_op drop_op x q = (case x of Put xs \<Rightarrow> put_op xs q | Drop n \<Rightarrow> drop_op n q)"

definition list_step :: "queue_op \<Rightarrow> byte list \<Rightarrow> byte list result" where
  "list_step x c = (case x of Put xs \<Rightarrow> Inr (c @ xs)
     | Drop n \<Rightarrow> if n \<le> length c then Inr (drop n c) else Inl Assert_Failed)"

fun put_bytes :: "queue_op list \<Rightarrow> nat" where
  "put_bytes [] = 0"
| "put_bytes (Put xs # r) = length xs + put_bytes r"
| "put_bytes (Drop n # r) = put_bytes r"

lemma put_bytes_Cons: "put_bytes (x # r) = put_bytes [x] + put_bytes r"
  by (cases x) simp_all

locale byte_queue =
  fixes invar :: "'q \<Rightarrow> bool"
    and contents :: "'q \<Rightarrow> byte list"
    and room :: "'q \<Rightarrow> nat"
    and put_op :: "byte list \<Rightarrow> 'q \<Rightarrow> 'q result"
    and drop_op :: "nat \<Rightarrow> 'q \<Rightarrow> 'q result"
  assumes put_law: "invar q \<Longrightarrow> length xs \<le> room q \<Longrightarrow>
      \<exists>q'. put_op xs q = Inr q' \<and> invar q' \<and> contents q' = contents q @ xs \<and> room q \<le> room q' + length xs"
    and drop_law: "invar q \<Longrightarrow> n \<le> length (contents q) \<Longrightarrow>
      \<exists>q'. drop_op n q = Inr q' \<and> invar q' \<and> contents q' = drop n (contents q) \<and> room q \<le> room q'"
    and drop_fails: "invar q \<Longrightarrow> length (contents q) < n \<Longrightarrow> drop_op n q = Inl Assert_Failed"
begin

lemma step_refines:
  assumes "invar q" and "put_bytes [x] \<le> room q"
  shows "(\<exists>q'. queue_step put_op drop_op x q = Inr q' \<and> invar q' \<and>
            list_step x (contents q) = Inr (contents q') \<and> room q \<le> room q' + put_bytes [x])
       \<or> (\<exists>e. queue_step put_op drop_op x q = Inl e \<and> list_step x (contents q) = Inl e)"
proof (cases x)
  case (Put xs)
  then show ?thesis using put_law [of q xs] assms by (auto simp: queue_step_def list_step_def)
next
  case (Drop n)
  then show ?thesis using drop_law [of q n] drop_fails [of q n] assms
    by (cases "n \<le> length (contents q)") (auto simp: queue_step_def list_step_def)
qed

text \<open>Any run of operations within the room refines the run on lists, faults included.\<close>

lemma run_refines:
  assumes "invar q" and "put_bytes xs \<le> room q"
  shows "map_sum id contents (fold_result (queue_step put_op drop_op) xs q) = fold_result list_step xs (contents q)"
  using assms
proof (induction xs arbitrary: q)
  case Nil
  then show ?case by simp
next
  case (Cons x xs)
  then have room: "put_bytes [x] + put_bytes xs \<le> room q" by (metis put_bytes_Cons)
  then consider q' where "queue_step put_op drop_op x q = Inr q'" "invar q'"
      "list_step x (contents q) = Inr (contents q')" "room q \<le> room q' + put_bytes [x]"
    | e where "queue_step put_op drop_op x q = Inl e" "list_step x (contents q) = Inl e"
    using step_refines [OF Cons.prems(1), of x] by fastforce
  then show ?case
  proof cases
    case 1
    then show ?thesis using room Cons.IH [of q'] by simp
  next
    case 2
    then show ?thesis by simp
  qed
qed

text \<open>Bytes put one piece after another come out in order and unchanged.\<close>

lemma puts:
  assumes "invar q" and "length (concat xss) \<le> room q"
  shows "\<exists>q'. fold_result put_op xss q = Inr q' \<and> invar q' \<and> contents q' = contents q @ concat xss \<and>
    room q \<le> room q' + length (concat xss)"
  using assms
proof (induction xss arbitrary: q)
  case Nil
  then show ?case by simp
next
  case (Cons xs xss)
  then obtain q1 where "put_op xs q = Inr q1" "invar q1" "contents q1 = contents q @ xs"
      "room q \<le> room q1 + length xs"
    using put_law [of q xs] by auto
  then show ?case using Cons.IH [of q1] Cons.prems by fastforce
qed

text \<open>Dropping the front in two pieces or at once is the same for the content.\<close>

lemma drop_front:
  assumes "invar q" and "contents q = xs @ ys" and "n = length xs"
  shows "\<exists>q'. drop_op n q = Inr q' \<and> invar q' \<and> contents q' = ys"
  using drop_law [of q n] assms by auto

end

end
