(* ===== verification/Buffer.thy ===== *)
theory Buffer
  imports Byte_Queue
begin

text \<open>
  \<open>Net/Buffer.h\<close>, \<open>Net/Buffer.cpp\<close> and the part of \<open>Net/StringPiece.h\<close> they use.  A
  buffer is a vector of bytes with a reader and a writer index; the readable bytes lie
  between them.  Every operation is translated with its asserts, its vector operations
  (\<open>resize\<close> throws \<open>length_error\<close> past \<open>max_size\<close>) and its memory copies (outside
  the vector: \<open>Out_Of_Bounds\<close>); sizes are \<open>size_t\<close> and wrap.

  \<open>content\<close> is the abstract value, the readable bytes; \<open>buf_ok\<close> the invariant.  The
  locale \<open>byte_queue\<close> states what the clients (codecs, connections) rely on, and is
  interpreted on the buffer at the end.
\<close>

section \<open>State and accessors\<close>

record buffer =
  vec :: "byte list"
  readerIndex :: nat
  writerIndex :: nat

definition kCheapPrepend :: nat where
  "kCheapPrepend = 8"

definition kInitialSize :: nat where
  "kInitialSize = 1024"

definition readableBytes :: "buffer \<Rightarrow> nat" where
  "readableBytes b = size_sub (writerIndex b) (readerIndex b)"

definition writableBytes :: "buffer \<Rightarrow> nat" where
  "writableBytes b = size_sub (length (vec b)) (writerIndex b)"

definition prependableBytes :: "buffer \<Rightarrow> nat" where
  "prependableBytes b = readerIndex b"

text \<open>
  The constructor: the vector of \<open>kCheapPrepend + initialSize\<close> zero bytes, then the
  three asserts.
\<close>

definition Buffer_new :: "nat \<Rightarrow> buffer result" where
  "Buffer_new initialSize =
     (let n = size_add kCheapPrepend initialSize in
      if max_size < n then Inl Length_Error
      else
        let b = \<lparr>vec = replicate n 0, readerIndex = kCheapPrepend, writerIndex = kCheapPrepend\<rparr> in
        if readableBytes b = 0 \<and> writableBytes b = initialSize \<and> prependableBytes b = kCheapPrepend
        then Inr b else Inl Assert_Failed)"

definition Buffer_swap :: "buffer \<Rightarrow> buffer \<Rightarrow> buffer \<times> buffer" where
  "Buffer_swap self rhs = (rhs, self)"

section \<open>Reading\<close>

text \<open>The \<open>n\<close> bytes at \<open>peek()\<close>, read from the vector's memory.\<close>

definition peek_bytes :: "nat \<Rightarrow> buffer \<Rightarrow> byte list result" where
  "peek_bytes n b =
     (if readerIndex b + n \<le> length (vec b)
      then Inr (segment (readerIndex b) (readerIndex b + n) (vec b))
      else Inl Out_Of_Bounds)"

definition retrieveAll :: "buffer \<Rightarrow> buffer" where
  "retrieveAll b = b\<lparr>readerIndex := kCheapPrepend, writerIndex := kCheapPrepend\<rparr>"

definition retrieve :: "nat \<Rightarrow> buffer \<Rightarrow> buffer result" where
  "retrieve len b =
     (if \<not> len \<le> readableBytes b then Inl Assert_Failed
      else if len < readableBytes b then Inr (b\<lparr>readerIndex := size_add (readerIndex b) len\<rparr>)
      else Inr (retrieveAll b))"

text \<open>\<open>end\<close> is a pointer into the vector, here its offset from \<open>begin()\<close>.\<close>

definition retrieveUntil :: "nat \<Rightarrow> buffer \<Rightarrow> buffer result" where
  "retrieveUntil until b =
     (if \<not> readerIndex b \<le> until then Inl Assert_Failed
      else if \<not> until \<le> writerIndex b then Inl Assert_Failed
      else retrieve (until - readerIndex b) b)"

definition retrieveAsString :: "nat \<Rightarrow> buffer \<Rightarrow> (byte list \<times> buffer) result" where
  "retrieveAsString len b =
     (if \<not> len \<le> readableBytes b then Inl Assert_Failed
      else and_then (peek_bytes len b) (\<lambda>s. and_then (retrieve len b) (\<lambda>b'. Inr (s, b'))))"

definition retrieveAllAsString :: "buffer \<Rightarrow> (byte list \<times> buffer) result" where
  "retrieveAllAsString b = retrieveAsString (readableBytes b) b"

definition peekInt32 :: "buffer \<Rightarrow> int32 result" where
  "peekInt32 b =
     (if \<not> readableBytes b \<ge> 4 then Inl Assert_Failed
      else and_then (peek_bytes 4 b) (\<lambda>bs. Inr (be_value32 bs)))"

definition peekInt16 :: "buffer \<Rightarrow> int16 result" where
  "peekInt16 b =
     (if \<not> readableBytes b \<ge> 2 then Inl Assert_Failed
      else and_then (peek_bytes 2 b) (\<lambda>bs. Inr (be_value16 bs)))"

definition peekInt8 :: "buffer \<Rightarrow> int8 result" where
  "peekInt8 b =
     (if \<not> readableBytes b \<ge> 1 then Inl Assert_Failed
      else and_then (peek_bytes 1 b) (\<lambda>bs. Inr (hd bs)))"

definition retrieveInt32 :: "buffer \<Rightarrow> buffer result" where
  "retrieveInt32 = retrieve 4"

definition retrieveInt16 :: "buffer \<Rightarrow> buffer result" where
  "retrieveInt16 = retrieve 2"

definition retrieveInt8 :: "buffer \<Rightarrow> buffer result" where
  "retrieveInt8 = retrieve 1"

definition readInt32 :: "buffer \<Rightarrow> (int32 \<times> buffer) result" where
  "readInt32 b = and_then (peekInt32 b) (\<lambda>x. and_then (retrieveInt32 b) (\<lambda>b'. Inr (x, b')))"

definition readInt16 :: "buffer \<Rightarrow> (int16 \<times> buffer) result" where
  "readInt16 b = and_then (peekInt16 b) (\<lambda>x. and_then (retrieveInt16 b) (\<lambda>b'. Inr (x, b')))"

definition readInt8 :: "buffer \<Rightarrow> (int8 \<times> buffer) result" where
  "readInt8 b = and_then (peekInt8 b) (\<lambda>x. and_then (retrieveInt8 b) (\<lambda>b'. Inr (x, b')))"

section \<open>Writing\<close>

definition vector_resize :: "nat \<Rightarrow> byte list \<Rightarrow> byte list result" where
  "vector_resize n xs =
     (if max_size < n then Inl Length_Error else Inr (take n xs @ replicate (n - length xs) 0))"

text \<open>
  \<open>makeSpace\<close> grows the vector, or moves the readable bytes to the front when the room
  before and after them is enough.
\<close>

definition makeSpace :: "nat \<Rightarrow> buffer \<Rightarrow> buffer result" where
  "makeSpace len b =
     (if size_add (writableBytes b) (prependableBytes b) < size_add len kCheapPrepend
      then and_then (vector_resize (size_add (writerIndex b) len) (vec b))
             (\<lambda>v. Inr (b\<lparr>vec := v\<rparr>))
      else if \<not> kCheapPrepend < readerIndex b then Inl Assert_Failed
      else
        let readable = readableBytes b in
        if readerIndex b \<le> writerIndex b \<and> writerIndex b \<le> length (vec b) then
          let b' = b\<lparr>vec := overwrite kCheapPrepend
                       (segment (readerIndex b) (writerIndex b) (vec b)) (vec b),
                     readerIndex := kCheapPrepend,
                     writerIndex := size_add kCheapPrepend readable\<rparr> in
          if readable = readableBytes b' then Inr b' else Inl Assert_Failed
        else Inl Out_Of_Bounds)"

definition ensureWritableBytes :: "nat \<Rightarrow> buffer \<Rightarrow> buffer result" where
  "ensureWritableBytes len b =
     and_then (if writableBytes b < len then makeSpace len b else Inr b)
       (\<lambda>b'. if \<not> writableBytes b' \<ge> len then Inl Assert_Failed else Inr b')"

definition hasWritten :: "nat \<Rightarrow> buffer \<Rightarrow> buffer result" where
  "hasWritten len b =
     (if \<not> len \<le> writableBytes b then Inl Assert_Failed
      else Inr (b\<lparr>writerIndex := size_add (writerIndex b) len\<rparr>))"

definition unwrite :: "nat \<Rightarrow> buffer \<Rightarrow> buffer result" where
  "unwrite len b =
     (if \<not> len \<le> readableBytes b then Inl Assert_Failed
      else Inr (b\<lparr>writerIndex := size_sub (writerIndex b) len\<rparr>))"

text \<open>A copy into the vector's memory from offset \<open>i\<close>.\<close>

definition store_bytes :: "nat \<Rightarrow> byte list \<Rightarrow> buffer \<Rightarrow> buffer result" where
  "store_bytes i xs b =
     (if i + length xs \<le> length (vec b) then Inr (b\<lparr>vec := overwrite i xs (vec b)\<rparr>)
      else Inl Out_Of_Bounds)"

text \<open>\<open>data\<close> is the memory the pointer leads to, of which \<open>len\<close> bytes are copied.\<close>

definition append_data :: "byte list \<Rightarrow> nat \<Rightarrow> buffer \<Rightarrow> buffer result" where
  "append_data data len b =
     and_then (ensureWritableBytes len b) (\<lambda>b1.
       if length data < len then Inl Out_Of_Bounds
       else and_then (store_bytes (writerIndex b1) (take len data) b1) (hasWritten len))"

definition appendInt32 :: "int32 \<Rightarrow> buffer \<Rightarrow> buffer result" where
  "appendInt32 x = append_data (be_bytes32 x) 4"

definition appendInt16 :: "int16 \<Rightarrow> buffer \<Rightarrow> buffer result" where
  "appendInt16 x = append_data (be_bytes16 x) 2"

definition appendInt8 :: "int8 \<Rightarrow> buffer \<Rightarrow> buffer result" where
  "appendInt8 x = append_data [x] 1"

definition prepend :: "byte list \<Rightarrow> nat \<Rightarrow> buffer \<Rightarrow> buffer result" where
  "prepend data len b =
     (if \<not> len \<le> prependableBytes b then Inl Assert_Failed
      else if length data < len then Inl Out_Of_Bounds
      else
        let b1 = b\<lparr>readerIndex := size_sub (readerIndex b) len\<rparr> in
        store_bytes (readerIndex b1) (take len data) b1)"

definition prependInt32 :: "int32 \<Rightarrow> buffer \<Rightarrow> buffer result" where
  "prependInt32 x = prepend (be_bytes32 x) 4"

definition prependInt16 :: "int16 \<Rightarrow> buffer \<Rightarrow> buffer result" where
  "prependInt16 x = prepend (be_bytes16 x) 2"

definition prependInt8 :: "int8 \<Rightarrow> buffer \<Rightarrow> buffer result" where
  "prependInt8 x = prepend [x] 1"

text \<open>
  \<open>StringPiece\<close>: the memory a pointer leads to and an \<open>int\<close> length (so a length of
  \<open>2 ^ 31\<close> or more becomes negative, and huge again as a \<open>size_t\<close>).
\<close>

record string_piece =
  piece_ptr :: "byte list"
  piece_length :: int32

definition piece_of_string :: "byte list \<Rightarrow> string_piece" where
  "piece_of_string s = \<lparr>piece_ptr = s, piece_length = word_of_nat (length s)\<rparr>"

definition toStringPiece :: "buffer \<Rightarrow> string_piece" where
  "toStringPiece b = \<lparr>piece_ptr = drop (readerIndex b) (vec b), piece_length = word_of_nat (readableBytes b)\<rparr>"

definition append_piece :: "string_piece \<Rightarrow> buffer \<Rightarrow> buffer result" where
  "append_piece str b = append_data (piece_ptr str) (size_of_int (sint (piece_length str))) b"

definition shrink :: "nat \<Rightarrow> buffer \<Rightarrow> buffer result" where
  "shrink reserve b =
     and_then (Buffer_new kInitialSize) (\<lambda>other.
     and_then (ensureWritableBytes (size_add (readableBytes b) reserve) other) (\<lambda>other.
     and_then (append_piece (toStringPiece b) other) (\<lambda>other.
       Inr (fst (Buffer_swap b other)))))"

section \<open>Invariant and abstract value\<close>

definition content :: "buffer \<Rightarrow> byte list" where
  "content b = segment (readerIndex b) (writerIndex b) (vec b)"

definition buf_ok :: "buffer \<Rightarrow> bool" where
  "buf_ok b \<longleftrightarrow> readerIndex b \<le> writerIndex b \<and> writerIndex b \<le> length (vec b) \<and>
     kCheapPrepend \<le> length (vec b) \<and> length (vec b) \<le> max_size"

named_theorems buffer_defs

declare kCheapPrepend_def [buffer_defs] kInitialSize_def [buffer_defs] prependableBytes_def [buffer_defs]
  buf_ok_def [buffer_defs]

lemma buf_okD:
  assumes "buf_ok b"
  shows "readerIndex b \<le> writerIndex b" "writerIndex b \<le> length (vec b)" "length (vec b) \<le> max_size"
    "8 \<le> length (vec b)"
  using assms by (simp_all add: buffer_defs)

lemma readable_ok: "buf_ok b \<Longrightarrow> readableBytes b = writerIndex b - readerIndex b"
  by (simp add: buffer_defs readableBytes_def size_simps)

lemma writable_ok: "buf_ok b \<Longrightarrow> writableBytes b = length (vec b) - writerIndex b"
  by (simp add: buffer_defs writableBytes_def size_simps)

lemma length_content: "buf_ok b \<Longrightarrow> length (content b) = readableBytes b"
  by (simp add: content_def readable_ok buf_okD)

text \<open>The memory from a readable position on starts with the rest of the content.\<close>

lemma memory_after:
  assumes "buf_ok b"
  shows "n \<le> length (content b) \<Longrightarrow> \<exists>s. drop (readerIndex b + n) (vec b) = drop n (content b) @ s"
proof -
  assume n: "n \<le> length (content b)"
  have "drop (readerIndex b) (vec b) = content b @ drop (writerIndex b) (vec b)"
    using buf_okD [OF assms] by (simp add: content_def segment_def) (metis append_take_drop_id drop_drop le_add_diff_inverse2)
  then have "drop n (drop (readerIndex b) (vec b)) = drop n (content b) @ drop (writerIndex b) (vec b)"
    using n by simp
  then show ?thesis by (auto simp: add.commute)
qed

lemma Buffer_new_ok:
  assumes "n \<le> max_size - 8"
  shows "\<exists>b. Buffer_new n = Inr b \<and> buf_ok b \<and> content b = [] \<and> writableBytes b = n \<and> readerIndex b = 8 \<and> writerIndex b = 8"
  using assms
  by (simp add: Buffer_new_def buffer_defs readableBytes_def writableBytes_def size_simps content_def Let_def)

lemma peek_bytes_ok:
  assumes "buf_ok b" and "n \<le> length (content b)"
  shows "peek_bytes n b = Inr (take n (content b))"
  using assms buf_okD [OF assms(1)]
  by (simp add: peek_bytes_def content_def take_segment length_content [unfolded content_def] readable_ok)

lemma retrieve_ok:
  assumes "buf_ok b" and "n \<le> length (content b)"
  shows "\<exists>b'. retrieve n b = Inr b' \<and> buf_ok b' \<and> content b' = drop n (content b) \<and>
     vec b' = vec b \<and> writerIndex b' \<le> max 8 (writerIndex b)"
proof -
  note ok = buf_okD [OF assms(1)] readable_ok [OF assms(1)] length_content [OF assms(1)]
  show ?thesis
  proof (cases "n < readableBytes b")
    case True
    then show ?thesis using assms ok
      by (simp add: retrieve_def size_simps buffer_defs content_def drop_segment)
  next
    case False
    then have "drop n (content b) = []" using assms ok by simp
    then show ?thesis using assms ok False
      by (simp add: retrieve_def retrieveAll_def buffer_defs) (simp add: content_def)
  qed
qed

lemma retrieve_fails: "buf_ok b \<Longrightarrow> length (content b) < n \<Longrightarrow> retrieve n b = Inl Assert_Failed"
  by (simp add: retrieve_def length_content)

lemma vector_resize_ok: "n \<le> max_size \<Longrightarrow> vector_resize n xs = Inr (take n xs @ replicate (n - length xs) 0)"
  by (simp add: vector_resize_def)

lemma makeSpace_grow:
  assumes ok: "buf_ok b" and short: "length (vec b) - writerIndex b + readerIndex b < len + 8"
    and more: "length (vec b) - writerIndex b < len" and room: "writerIndex b + len \<le> max_size"
  shows "makeSpace len b = Inr (b\<lparr>vec := vec b @ replicate (writerIndex b + len - length (vec b)) 0\<rparr>)"
  using assms buf_okD [OF ok]
  by (simp add: makeSpace_def writable_ok buffer_defs size_simps vector_resize_ok)

lemma makeSpace_move:
  assumes ok: "buf_ok b" and fits: "len + 8 \<le> length (vec b) - writerIndex b + readerIndex b"
    and more: "length (vec b) - writerIndex b < len"
  shows "makeSpace len b = Inr (b\<lparr>vec := overwrite 8 (content b) (vec b), readerIndex := 8,
           writerIndex := 8 + length (content b)\<rparr>)"
proof -
  have "length (vec b) - writerIndex b + readerIndex b \<le> max_size" using buf_okD [OF ok] by linarith
  then show ?thesis using assms buf_okD [OF ok]
    by (simp add: makeSpace_def writable_ok readable_ok buffer_defs size_simps Let_def
        readableBytes_def content_def)
qed

lemma ensureWritableBytes_ok:
  assumes ok: "buf_ok b" and room: "writerIndex b + len \<le> max_size"
  shows "\<exists>b'. ensureWritableBytes len b = Inr b' \<and> buf_ok b' \<and> content b' = content b \<and>
     writerIndex b' + len \<le> length (vec b') \<and> writerIndex b' \<le> writerIndex b \<and>
     readerIndex b' \<in> {8, readerIndex b}"
proof -
  note inv = buf_okD [OF ok]
  consider (fits) "len \<le> length (vec b) - writerIndex b"
    | (grow) "length (vec b) - writerIndex b < len" "length (vec b) - writerIndex b + readerIndex b < len + 8"
    | (move) "length (vec b) - writerIndex b < len" "len + 8 \<le> length (vec b) - writerIndex b + readerIndex b"
    by linarith
  then show ?thesis
  proof cases
    case fits
    then show ?thesis using ok inv by (simp add: ensureWritableBytes_def writable_ok)
  next
    case grow
    let ?b = "b\<lparr>vec := vec b @ replicate (writerIndex b + len - length (vec b)) 0\<rparr>"
    have "buf_ok ?b" using inv room by (simp add: buffer_defs)
    then show ?thesis using makeSpace_grow [OF ok grow(2,1) room] ok inv grow
      by (simp add: ensureWritableBytes_def writable_ok) (simp add: content_def)
  next
    case move
    let ?b = "b\<lparr>vec := overwrite 8 (content b) (vec b), readerIndex := 8, writerIndex := 8 + length (content b)\<rparr>"
    have n: "length (content b) = writerIndex b - readerIndex b"
      using ok by (simp add: length_content readable_ok)
    have len: "8 + length (content b) + len \<le> length (vec b)" using inv move n by linarith
    then have "buf_ok ?b" using inv by (simp add: buffer_defs)
    moreover have "content ?b = content b" using len by (simp add: content_def [of ?b])
    moreover have "8 + length (content b) \<le> writerIndex b" using inv move n by linarith
    ultimately show ?thesis using makeSpace_move [OF ok move(2,1)] ok len move
      by (simp add: ensureWritableBytes_def writable_ok)
  qed
qed

lemma store_hasWritten_ok:
  assumes ok: "buf_ok b" and fits: "writerIndex b + length xs \<le> length (vec b)"
  shows "\<exists>b'. and_then (store_bytes (writerIndex b) xs b) (hasWritten (length xs)) = Inr b' \<and> buf_ok b' \<and>
     content b' = content b @ xs \<and> writerIndex b' = writerIndex b + length xs \<and> length (vec b') = length (vec b)"
proof -
  note inv = buf_okD [OF ok]
  let ?v = "overwrite (writerIndex b) xs (vec b)"
  have "segment (readerIndex b) (writerIndex b + length xs) ?v = content b @ xs"
    using inv fits
    by (subst segment_split [of _ "writerIndex b"]) (simp_all add: content_def segment_overwrite_before)
  moreover have "buf_ok (b\<lparr>vec := ?v\<rparr>)" using ok fits by (simp add: buffer_defs)
  ultimately show ?thesis using ok inv fits
    by (simp add: store_bytes_def hasWritten_def writable_ok size_simps) (simp add: buffer_defs content_def)
qed

lemma append_data_ok:
  assumes "buf_ok b" and "writerIndex b + len \<le> max_size" and "len \<le> length data"
  shows "\<exists>b'. append_data data len b = Inr b' \<and> buf_ok b' \<and> content b' = content b @ take len data \<and>
     writerIndex b' \<le> writerIndex b + len"
proof -
  obtain b1 where b1: "ensureWritableBytes len b = Inr b1" "buf_ok b1" "content b1 = content b"
      "writerIndex b1 + len \<le> length (vec b1)" "writerIndex b1 \<le> writerIndex b"
    using ensureWritableBytes_ok [OF assms(1,2)] by blast
  have "length (take len data) = len" using assms(3) by simp
  then obtain b2 where "and_then (store_bytes (writerIndex b1) (take len data) b1) (hasWritten len) = Inr b2"
      "buf_ok b2" "content b2 = content b1 @ take len data" "writerIndex b2 = writerIndex b1 + len"
    using store_hasWritten_ok [OF b1(2), of "take len data"] b1(4) by auto
  then show ?thesis using b1 assms(3) by (simp add: append_data_def)
qed

lemma append_data_fits:
  assumes ok: "buf_ok b" and fits: "writerIndex b + len \<le> length (vec b)" and data: "len \<le> length data"
  shows "\<exists>b'. append_data data len b = Inr b' \<and> buf_ok b' \<and> content b' = content b @ take len data \<and>
     writerIndex b' = writerIndex b + len \<and> length (vec b') = length (vec b)"
proof -
  have "\<not> length (vec b) - writerIndex b < len" using fits by linarith
  then have "ensureWritableBytes len b = Inr b" by (simp add: ensureWritableBytes_def writable_ok [OF ok])
  moreover have "length (take len data) = len" using data by simp
  ultimately show ?thesis using store_hasWritten_ok [OF ok, of "take len data"] fits data
    by (simp add: append_data_def)
qed

lemma append_data_reader: "append_data data len b = Inr b' \<Longrightarrow> readerIndex b' \<in> {8, readerIndex b}"
  by (auto simp: append_data_def ensureWritableBytes_def makeSpace_def store_bytes_def hasWritten_def
      vector_resize_def buffer_defs Let_def result_simps split: if_splits)

lemma prepend_ok:
  assumes "buf_ok b" and "len \<le> readerIndex b" and "len \<le> length data"
  shows "\<exists>b'. prepend data len b = Inr b' \<and> buf_ok b' \<and> content b' = take len data @ content b \<and>
     readerIndex b' = readerIndex b - len \<and> writerIndex b' = writerIndex b"
proof -
  note inv = buf_okD [OF assms(1)]
  let ?v = "overwrite (readerIndex b - len) (take len data) (vec b)"
  have "segment (readerIndex b - len) (writerIndex b) ?v = take len data @ content b"
    using inv assms
    by (subst segment_split [of _ "readerIndex b"]) (simp_all add: content_def segment_overwrite_after)
  then show ?thesis using inv assms
    by (simp add: prepend_def store_bytes_def buffer_defs size_simps Let_def) (simp add: content_def)
qed

section \<open>The byte-queue interface\<close>

definition buffer_room :: "buffer \<Rightarrow> nat" where
  "buffer_room b = max_size - max 8 (writerIndex b)"

definition append_all :: "byte list \<Rightarrow> buffer \<Rightarrow> buffer result" where
  "append_all xs = append_data xs (length xs)"

interpretation bufq: byte_queue buf_ok content buffer_room append_all retrieve
proof unfold_locales
  fix q :: buffer and xs :: "byte list" assume q: "buf_ok q" and len: "length xs \<le> buffer_room q"
  have "writerIndex q + length xs \<le> max_size"
    using len buf_okD [OF q] by (simp add: buffer_room_def)
  then obtain q' where "append_all xs q = Inr q'" "buf_ok q'" "content q' = content q @ xs"
      "writerIndex q' \<le> writerIndex q + length xs"
    using append_data_ok [OF q, of "length xs" xs] by (auto simp: append_all_def)
  then show "\<exists>q'. append_all xs q = Inr q' \<and> buf_ok q' \<and> content q' = content q @ xs \<and>
      buffer_room q \<le> buffer_room q' + length xs"
    by (intro exI [of _ q']) (auto simp: buffer_room_def)
next
  fix q :: buffer and n assume "buf_ok q" and "n \<le> length (content q)"
  from retrieve_ok [OF this] show "\<exists>q'. retrieve n q = Inr q' \<and> buf_ok q' \<and>
      content q' = drop n (content q) \<and> buffer_room q \<le> buffer_room q'"
    by (auto simp: buffer_room_def)
next
  fix q :: buffer and n assume "buf_ok q" and "length (content q) < n"
  then show "retrieve n q = Inl Assert_Failed" by (rule retrieve_fails)
qed

lemma append_all_reader: "append_all xs b = Inr b' \<Longrightarrow> readerIndex b' \<in> {8, readerIndex b}"
  unfolding append_all_def by (rule append_data_reader)

section \<open>Integers through the buffer\<close>

lemma peekInt32_ok:
  assumes "buf_ok b" and "content b = be_bytes32 x @ r"
  shows "peekInt32 b = Inr x"
  using assms length_content [OF assms(1)] by (simp add: peekInt32_def peek_bytes_ok)

lemma peekInt16_ok:
  assumes "buf_ok b" and "content b = be_bytes16 x @ r"
  shows "peekInt16 b = Inr x"
  using assms length_content [OF assms(1)] by (simp add: peekInt16_def peek_bytes_ok)

lemma peekInt8_ok:
  assumes "buf_ok b" and "content b = x # r"
  shows "peekInt8 b = Inr x"
  using assms length_content [OF assms(1)] by (simp add: peekInt8_def peek_bytes_ok)

lemma readInt32_ok:
  assumes "buf_ok b" and "content b = be_bytes32 x @ r"
  shows "\<exists>b'. readInt32 b = Inr (x, b') \<and> buf_ok b' \<and> content b' = r"
  using bufq.drop_front [OF assms, of 4] peekInt32_ok [OF assms]
  by (auto simp: readInt32_def retrieveInt32_def)

lemma readInt16_ok:
  assumes "buf_ok b" and "content b = be_bytes16 x @ r"
  shows "\<exists>b'. readInt16 b = Inr (x, b') \<and> buf_ok b' \<and> content b' = r"
  using bufq.drop_front [OF assms, of 2] peekInt16_ok [OF assms]
  by (auto simp: readInt16_def retrieveInt16_def)

lemma readInt8_ok:
  assumes "buf_ok b" and "content b = x # r"
  shows "\<exists>b'. readInt8 b = Inr (x, b') \<and> buf_ok b' \<and> content b' = r"
  using bufq.drop_front [OF assms(1), of "[x]" r 1] assms peekInt8_ok [OF assms]
  by (auto simp: readInt8_def retrieveInt8_def)

lemma append_ints_as_bytes:
  "appendInt32 x = append_all (be_bytes32 x)" "appendInt16 y = append_all (be_bytes16 y)"
  "appendInt8 z = append_all [z]"
  by (simp_all add: fun_eq_iff appendInt32_def appendInt16_def appendInt8_def append_all_def)

section \<open>Properties\<close>

text \<open>
  C18: the buffer refines a list of bytes.  For every sequence of appends and retrieves whose
  appended bytes fit the vector's maximal size, running the code's operations and reading the
  readable bytes gives exactly the run on lists (append at the back, drop from the front, an
  assertion failure when more is retrieved than is readable), whatever growing and moving
  \<open>makeSpace\<close> did in between.
\<close>

theorem buffer_run_refines:
  assumes "buf_ok b" and "put_bytes ops \<le> buffer_room b"
  shows "map_sum id content (fold_result (queue_step append_all retrieve) ops b) =
    fold_result list_step ops (content b)"
  using assms by (rule bufq.run_refines)

theorem buffer_run_refines_witness:
  "map_sum id content (fold_result (queue_step append_all retrieve)
      [Put [1, 2, 3], Drop 2, Put [4], Drop 3] \<lparr>vec = replicate 10 0, readerIndex = 8, writerIndex = 8\<rparr>) =
   Inl Assert_Failed"
  by (subst buffer_run_refines) (simp_all add: buffer_defs buffer_room_def list_step_def content_def)

text \<open>
  integers round-trip through a buffer.  A 32-bit, a 16-bit and an 8-bit integer appended
  to an empty buffer are read back in that order with their values, and the buffer is empty
  again.
\<close>

theorem buffer_ints_roundtrip:
  assumes "buf_ok b" and "content b = []" and "7 \<le> buffer_room b"
  shows "\<exists>b'. and_then (appendInt32 x b) (\<lambda>b. and_then (appendInt16 y b) (\<lambda>b. and_then (appendInt8 z b) (\<lambda>b.
      and_then (readInt32 b) (\<lambda>(x', b). and_then (readInt16 b) (\<lambda>(y', b). and_then (readInt8 b) (\<lambda>(z', b).
        Inr (x', y', z', b))))))) = Inr (x, y, z, b') \<and> buf_ok b' \<and> content b' = []"
proof -
  obtain b1 where "fold_result append_all [be_bytes32 x, be_bytes16 y, [z]] b = Inr b1" and
      ok: "buf_ok b1" and c: "content b1 = be_bytes32 x @ be_bytes16 y @ [z]"
    using bufq.puts [OF assms(1), of "[be_bytes32 x, be_bytes16 y, [z]]"] assms(2,3) by auto
  then have appended: "and_then (appendInt32 x b) (\<lambda>b. and_then (appendInt16 y b) (appendInt8 z)) = Inr b1"
    by (simp add: append_ints_as_bytes and_then_eq_Inr)
  obtain b2 where b2: "readInt32 b1 = Inr (x, b2)" "buf_ok b2" "content b2 = be_bytes16 y @ [z]"
    using readInt32_ok [OF ok c] by blast
  obtain b3 where b3: "readInt16 b2 = Inr (y, b3)" "buf_ok b3" "content b3 = [z]"
    using readInt16_ok [OF b2(2,3)] by blast
  obtain b4 where "readInt8 b3 = Inr (z, b4)" "buf_ok b4" "content b4 = []"
    using readInt8_ok [OF b3(2,3)] by blast
  with appended b2(1) b3(1) show ?thesis by (auto simp: and_then_eq_Inr)
qed

theorem buffer_ints_roundtrip_witness:
  "\<exists>b'. and_then (appendInt32 (- 9) \<lparr>vec = replicate 9 0, readerIndex = 8, writerIndex = 8\<rparr>)
      (\<lambda>b. and_then (appendInt16 513 b) (\<lambda>b. and_then (appendInt8 7 b) (\<lambda>b.
      and_then (readInt32 b) (\<lambda>(x', b). and_then (readInt16 b) (\<lambda>(y', b). and_then (readInt8 b) (\<lambda>(z', b).
        Inr (x', y', z', b))))))) = Inr (- 9, 513, 7, b') \<and> buf_ok b' \<and> content b' = []"
  by (rule buffer_ints_roundtrip) (simp_all add: buffer_defs buffer_room_def content_def)

text \<open>
  prepending uses the room in front.  With at least four bytes in front of the reader
  index, \<open>prependInt32\<close> succeeds, puts the integer's network-order bytes before the content,
  \<open>peekInt32\<close> then returns it and \<open>retrieveInt32\<close> restores the old content; with
  less room it fails its assertion.
\<close>

theorem prependInt32_spec:
  assumes "buf_ok b"
  shows "if 4 \<le> readerIndex b
    then \<exists>b1 b2. prependInt32 x b = Inr b1 \<and> content b1 = be_bytes32 x @ content b \<and>
           peekInt32 b1 = Inr x \<and> retrieveInt32 b1 = Inr b2 \<and> buf_ok b2 \<and> content b2 = content b
    else prependInt32 x b = Inl Assert_Failed"
proof (cases "4 \<le> readerIndex b")
  case True
  then obtain b1 where b1: "prependInt32 x b = Inr b1" "buf_ok b1" "content b1 = be_bytes32 x @ content b"
    using prepend_ok [OF assms, of 4 "be_bytes32 x"] by (auto simp: prependInt32_def)
  then show ?thesis using True peekInt32_ok [OF b1(2,3)] bufq.drop_front [OF b1(2,3), of 4]
    by (auto simp: retrieveInt32_def)
next
  case False
  then show ?thesis by (simp add: prependInt32_def prepend_def prependableBytes_def)
qed

theorem prependInt32_spec_witness:
  "\<exists>b1 b2. prependInt32 5 \<lparr>vec = [0, 0, 0, 0, 0, 0, 0, 0, 9], readerIndex = 8, writerIndex = 9\<rparr> = Inr b1 \<and>
     content b1 = be_bytes32 5 @ [9] \<and> peekInt32 b1 = Inr 5 \<and> retrieveInt32 b1 = Inr b2 \<and> buf_ok b2 \<and> content b2 = [9]"
  using prependInt32_spec [of "\<lparr>vec = [0, 0, 0, 0, 0, 0, 0, 0, 9], readerIndex = 8, writerIndex = 9\<rparr>" 5]
  by (simp add: buffer_defs content_def segment_def)

text \<open>
  \<open>ensureWritableBytes\<close> is wrong for a length that was a negative \<open>int32_t\<close>.  For
  \<open>9 \<le> n \<le> writerIndex\<close> the call with \<open>(size_t) -n\<close> passes its own assertion and
  returns, having cut the vector below the writer index: the buffer is no longer well-formed
  although no fault was raised.
\<close>

theorem ensureWritableBytes_negative:
  assumes "buf_ok b" and "9 \<le> n" and "n \<le> writerIndex b" and "n \<le> 2147483648"
  shows "ensureWritableBytes (size_of_int (- int n)) b = Inr (b\<lparr>vec := take (writerIndex b - n) (vec b)\<rparr>) \<and>
     \<not> buf_ok (b\<lparr>vec := take (writerIndex b - n) (vec b)\<rparr>)"
proof -
  note inv = buf_okD [OF assms(1)]
  let ?len = "size_of_int (- int n)" and ?b = "b\<lparr>vec := take (writerIndex b - n) (vec b)\<rparr>"
  have len: "?len = size_lim - n" using assms by (intro size_of_int_neg) linarith+
  have grown: "size_add (writerIndex b) ?len = writerIndex b - n"
    unfolding len using assms inv by (intro size_add_wrap) linarith+
  have asked: "size_add ?len kCheapPrepend = size_lim - n + 8"
    using assms by (simp add: len buffer_defs size_add_def)
  have room: "size_add (writableBytes b) (prependableBytes b) \<le> max_size"
    using inv by (simp add: writable_ok [OF assms(1)] buffer_defs size_add_def)
  have "size_add (writableBytes b) (prependableBytes b) < size_add ?len kCheapPrepend"
    using room asked assms by linarith
  moreover have "vector_resize (writerIndex b - n) (vec b) = Inr (take (writerIndex b - n) (vec b))"
    using inv assms by (subst vector_resize_ok) simp_all
  ultimately have "makeSpace ?len b = Inr ?b" by (simp add: makeSpace_def grown)
  moreover have "writableBytes ?b = ?len"
    unfolding writableBytes_def len using assms inv size_sub_wrap [of n "writerIndex b"] by simp
  moreover have "writableBytes b < ?len" using assms inv by (simp add: writable_ok len)
  moreover have "\<not> writerIndex b \<le> writerIndex b - n" using assms by linarith
  then have "\<not> buf_ok ?b" using inv by (simp add: buffer_defs)
  ultimately show ?thesis by (simp add: ensureWritableBytes_def)
qed

theorem ensureWritableBytes_negative_witness:
  "\<not> buf_ok ((\<lparr>vec = replicate 1032 0, readerIndex = 8, writerIndex = 12\<rparr>)\<lparr>vec := take (12 - 9) (replicate 1032 0)\<rparr>)"
  using ensureWritableBytes_negative [of "\<lparr>vec = replicate 1032 0, readerIndex = 8, writerIndex = 12\<rparr>" 9]
  by (simp add: buffer_defs)

lemma shrink_ok:
  assumes ok: "buf_ok b" and small: "length (content b) < 2147483648"
    and room: "length (content b) + reserve \<le> max_size - 8"
  shows "\<exists>b'. shrink reserve b = Inr b' \<and> buf_ok b' \<and> content b' = content b \<and>
     reserve \<le> writableBytes b' \<and> readerIndex b' = kCheapPrepend"
proof -
  let ?n = "length (content b)" and ?s = "toStringPiece b"
  obtain o1 where o1: "Buffer_new kInitialSize = Inr o1" "buf_ok o1" "content o1 = []" "readerIndex o1 = 8" "writerIndex o1 = 8"
    using Buffer_new_ok [of kInitialSize] by (auto simp: buffer_defs)
  have asked: "size_add (readableBytes b) reserve = ?n + reserve"
    using room by (simp add: size_simps length_content [OF ok])
  obtain o2 where o2: "ensureWritableBytes (?n + reserve) o1 = Inr o2" "buf_ok o2" "content o2 = []"
      "writerIndex o2 + (?n + reserve) \<le> length (vec o2)" "readerIndex o2 = 8"
    using ensureWritableBytes_ok [OF o1(2), of "?n + reserve"] o1 room by auto
  then have w: "writerIndex o2 = 8" using buf_okD [OF o2(2)] length_content [OF o2(2)] readable_ok [OF o2(2)] by simp
  have size: "size_of_int (sint (piece_length ?s)) = ?n"
    using small by (simp add: toStringPiece_def sint_int32_of_nat size_simps length_content [OF ok, symmetric])
  have data: "?n \<le> length (piece_ptr ?s)" "take ?n (piece_ptr ?s) = content b"
    using buf_okD [OF ok] length_content [OF ok] readable_ok [OF ok]
    by (simp_all add: toStringPiece_def) (simp add: content_def segment_def)
  obtain o3 where o3: "append_piece ?s o2 = Inr o3" "buf_ok o3" "content o3 = content b"
      "writerIndex o3 = 8 + ?n" "length (vec o3) = length (vec o2)"
    using append_data_fits [OF o2(2), of ?n "piece_ptr ?s"] o2 w data by (auto simp: append_piece_def size)
  have "writerIndex o3 - readerIndex o3 = ?n"
    using o3 length_content [OF o3(2)] readable_ok [OF o3(2)] by simp
  then have "readerIndex o3 = 8" using o3(4) buf_okD [OF o3(2)] by linarith
  moreover have "reserve \<le> writableBytes o3" using o3 o2 w by (simp add: writable_ok)
  ultimately show ?thesis using o1 o2 o3
    by (simp add: shrink_def asked Buffer_swap_def buffer_defs)
qed

text \<open>
  \<open>shrink\<close> keeps the content.  For a buffer of less than \<open>2 ^ 31\<close> readable bytes it
  succeeds, the content is unchanged, at least \<open>reserve\<close> bytes are writable and the
  readable bytes start at the cheap-prepend offset again.
\<close>

theorem shrink_keeps_content:
  assumes ok: "buf_ok b" and small: "length (content b) < 2147483648"
    and room: "length (content b) + reserve \<le> max_size - 8"
  shows "\<exists>b'. shrink reserve b = Inr b' \<and> buf_ok b' \<and> content b' = content b \<and>
     reserve \<le> writableBytes b' \<and> readerIndex b' = kCheapPrepend"
  using assms by (rule shrink_ok)

theorem shrink_keeps_content_witness:
  "\<exists>b'. shrink 2 \<lparr>vec = replicate 20 7, readerIndex = 15, writerIndex = 17\<rparr> = Inr b' \<and> buf_ok b' \<and>
     content b' = content \<lparr>vec = replicate 20 7, readerIndex = 15, writerIndex = 17\<rparr> \<and>
     2 \<le> writableBytes b' \<and> readerIndex b' = kCheapPrepend"
  by (rule shrink_keeps_content) (simp_all add: buffer_defs content_def)

section \<open>Every operation\<close>

datatype buffer_op =
    Op_retrieve nat | Op_retrieveUntil nat | Op_retrieveAll | Op_retrieveAsString nat | Op_hasWritten nat
  | Op_unwrite nat | Op_ensureWritableBytes nat | Op_append "byte list" nat | Op_prepend "byte list" nat | Op_shrink nat

fun apply_op :: "buffer_op \<Rightarrow> buffer \<Rightarrow> buffer result" where
  "apply_op (Op_retrieve n) b = retrieve n b"
| "apply_op (Op_retrieveUntil n) b = retrieveUntil n b"
| "apply_op Op_retrieveAll b = Inr (retrieveAll b)"
| "apply_op (Op_retrieveAsString n) b = and_then (retrieveAsString n b) (\<lambda>(s, b). Inr b)"
| "apply_op (Op_hasWritten n) b = hasWritten n b"
| "apply_op (Op_unwrite n) b = unwrite n b"
| "apply_op (Op_ensureWritableBytes n) b = ensureWritableBytes n b"
| "apply_op (Op_append data n) b = append_data data n b"
| "apply_op (Op_prepend data n) b = prepend data n b"
| "apply_op (Op_shrink n) b = shrink n b"

text \<open>The sizes for which \<open>size_t\<close> and \<open>int\<close> do not wrap.\<close>

fun op_fits :: "buffer_op \<Rightarrow> buffer \<Rightarrow> bool" where
  "op_fits (Op_ensureWritableBytes n) b \<longleftrightarrow> writerIndex b + n \<le> max_size"
| "op_fits (Op_append data n) b \<longleftrightarrow> writerIndex b + n \<le> max_size"
| "op_fits (Op_shrink n) b \<longleftrightarrow> length (content b) < 2147483648 \<and> length (content b) + n \<le> max_size - 8"
| "op_fits _ b \<longleftrightarrow> True"

lemma retrieve_preserves: "buf_ok b \<Longrightarrow> retrieve n b = Inr b' \<Longrightarrow> buf_ok b'"
  using retrieve_ok [of b n] retrieve_fails [of b n] by (cases "n \<le> length (content b)") auto

lemma indices_preserve:
  assumes "buf_ok b"
  shows "hasWritten n b = Inr b' \<Longrightarrow> buf_ok b'" "unwrite n b = Inr b' \<Longrightarrow> buf_ok b'"
  using buf_okD [OF assms]
  by (auto simp: hasWritten_def unwrite_def readable_ok [OF assms] writable_ok [OF assms] size_simps buffer_defs
      split: if_splits)

lemma append_preserves:
  assumes "buf_ok b" and "writerIndex b + n \<le> max_size" and "append_data data n b = Inr b'"
  shows "buf_ok b'"
proof -
  obtain b1 where "ensureWritableBytes n b = Inr b1" using ensureWritableBytes_ok [OF assms(1,2)] by blast
  then have "n \<le> length data" using assms(3) by (simp add: append_data_def split: if_splits)
  then show ?thesis using append_data_ok [OF assms(1,2)] assms(3) by fastforce
qed

lemma prepend_preserves:
  assumes "buf_ok b" and "prepend data n b = Inr b'"
  shows "buf_ok b'"
proof -
  have "n \<le> readerIndex b" "n \<le> length data"
    using assms(2) by (auto simp: prepend_def buffer_defs split: if_splits)
  then show ?thesis using prepend_ok [OF assms(1), of n data] assms(2) by auto
qed

lemma op_preserves:
  assumes ok: "buf_ok b" and fits: "op_fits x b" and run: "apply_op x b = Inr b'"
  shows "buf_ok b'"
proof (cases x)
  case (Op_retrieveUntil n)
  then show ?thesis using run retrieve_preserves [OF ok] by (auto simp: retrieveUntil_def split: if_splits)
next
  case (Op_retrieveAsString n)
  then show ?thesis using run retrieve_preserves [OF ok]
    by (auto simp: retrieveAsString_def and_then_def split: if_splits sum.splits)
next
  case Op_retrieveAll
  then show ?thesis using run ok by (auto simp: retrieveAll_def buffer_defs)
next
  case (Op_ensureWritableBytes n)
  then show ?thesis using run ensureWritableBytes_ok [OF ok, of n] fits by auto
next
  case (Op_shrink n)
  then show ?thesis using run shrink_ok [OF ok, of n] fits by auto
qed (use run fits retrieve_preserves [OF ok] indices_preserve [OF ok] append_preserves [OF ok] prepend_preserves [OF ok]
   in \<open>simp_all\<close>)

text \<open>Operations one after the other, as long as each is within its sizes; \<open>None\<close> when one is not.\<close>

fun apply_ops :: "buffer_op list \<Rightarrow> buffer \<Rightarrow> buffer result option" where
  "apply_ops [] b = Some (Inr b)"
| "apply_ops (x # xs) b = (if \<not> op_fits x b then None
     else (case apply_op x b of Inl e \<Rightarrow> Some (Inl e) | Inr b' \<Rightarrow> apply_ops xs b'))"

lemma ops_preserve:
  assumes "buf_ok b" and "apply_ops xs b = Some (Inr b')"
  shows "buf_ok b'"
  using assms by (induction xs arbitrary: b) (auto split: if_splits sum.splits dest: op_preserves)

text \<open>
  C31: buffers stay well formed.  Whatever operations a new buffer goes through, with any
  arguments whose sizes do not wrap, a buffer that comes out has its indices in order and inside its
  vector: the readable bytes are exactly those between them, and every byte behind them is writable.
\<close>

theorem buffer_stays_ok:
  assumes "Buffer_new n = Inr b" and "n \<le> max_size - 8" and "apply_ops xs b = Some (Inr b')"
  shows "readerIndex b' \<le> writerIndex b' \<and> writerIndex b' \<le> length (vec b') \<and> length (vec b') \<le> max_size \<and>
    readableBytes b' = length (content b') \<and> writerIndex b' + writableBytes b' = length (vec b')"
proof -
  have "buf_ok b'" using Buffer_new_ok [OF assms(2)] assms(1) ops_preserve [OF _ assms(3)] by auto
  then show ?thesis using buf_okD [of b'] by (simp add: length_content writable_ok)
qed

theorem buffer_stays_ok_witness:
  "\<exists>b b'. Buffer_new 2 = Inr b \<and> apply_ops [Op_append [1, 2] 2, Op_retrieve 1, Op_unwrite 1] b = Some (Inr b') \<and>
    writerIndex b' + writableBytes b' = 10"
proof -
  let ?b = "\<lparr>vec = replicate 10 0, readerIndex = 8, writerIndex = 8\<rparr>"
  let ?c = "\<lparr>vec = replicate 8 0 @ [1, 2], readerIndex = 9, writerIndex = 9\<rparr>"
  have b: "Buffer_new 2 = Inr ?b"
    by (simp add: Buffer_new_def buffer_defs readableBytes_def writableBytes_def size_simps Let_def)
  have c: "apply_ops [Op_append [1, 2] 2, Op_retrieve 1, Op_unwrite 1] ?b = Some (Inr ?c)"
    by (simp add: append_data_def ensureWritableBytes_def store_bytes_def hasWritten_def retrieve_def unwrite_def
      readableBytes_def writableBytes_def size_simps overwrite_def)
  show ?thesis using buffer_stays_ok [OF b _ c] b c by auto
qed

end
