(* ===== verification/Codec.thy ===== *)
theory Codec
  imports Buffer
begin

text \<open>
  \<open>Net/Codec.h\<close> and \<open>Net/Codec.cpp\<close>: the codec of frames made of a 32-bit length and a
  body.  \<open>onMessage\<close> is the loop of the source over the buffer and the connection (any type
  \<open>'c\<close>; the message callback and \<open>shutdown\<close> act on it and may fault).  \<open>decode\<close> is
  the abstract decoder on byte lists, which the loop refines; \<open>frame\<close> the encoding.
\<close>

section \<open>The code\<close>

definition LengthHeader_kHeaderLen :: int where
  "LengthHeader_kHeaderLen = 4"

definition LengthHeader_kMaxMessageLen :: int where
  "LengthHeader_kMaxMessageLen = 65536"

definition LengthHeader_kMinMessageLen :: int where
  "LengthHeader_kMinMessageLen = 0"

lemma readable_retrieve:
  assumes "retrieve n b = Inr b'"
  shows "n \<le> readableBytes b \<and> readableBytes b' = readableBytes b - n"
proof -
  have "readableBytes (retrieveAll b) = 0"
    by (simp add: retrieveAll_def readableBytes_def size_sub_def buffer_defs)
  then show ?thesis using assms size_sub_add [of n "writerIndex b" "readerIndex b"]
    by (auto simp: retrieve_def readableBytes_def split: if_splits)
qed

function LengthHeader_onMessage ::
    "(byte list \<Rightarrow> 'c \<Rightarrow> 'c result) \<Rightarrow> ('c \<Rightarrow> 'c result) \<Rightarrow> 'c \<Rightarrow> buffer \<Rightarrow> ('c \<times> buffer) result" where
  "LengthHeader_onMessage messageCallback shutdown conn message =
     (if \<not> readableBytes message > size_of_int LengthHeader_kHeaderLen then Inr (conn, message)
      else and_then (peekInt32 message) (\<lambda>bodyLen.
        if sint bodyLen > LengthHeader_kMaxMessageLen \<or> sint bodyLen < LengthHeader_kMinMessageLen
        then and_then (shutdown conn) (\<lambda>conn. Inr (conn, message))
        else if readableBytes message \<ge> size_of_int (sint bodyLen + LengthHeader_kHeaderLen)
        then
          and_then (retrieve (size_of_int LengthHeader_kHeaderLen) message) (\<lambda>message1.
          and_then (peek_bytes (size_of_int (sint bodyLen)) message1) (\<lambda>s.
          and_then (messageCallback s conn) (\<lambda>conn1.
          and_then (retrieve (size_of_int (sint bodyLen)) message1) (\<lambda>message2.
            LengthHeader_onMessage messageCallback shutdown conn1 message2))))
        else Inr (conn, message)))"
  by pat_completeness auto
termination
proof (relation "measure (\<lambda>(cb, shut, conn, b). readableBytes b)", goal_cases)
  case 1
  then show ?case by simp
next
  case (2 cb shut conn b len b1 s conn1 b2)
  then show ?case using readable_retrieve [of 4 b b1] readable_retrieve [of _ b1 b2]
    by (auto simp: LengthHeader_kHeaderLen_def size_of_int_def)
qed

declare LengthHeader_onMessage.simps [simp del]

text \<open>
  \<open>send\<close>: the body of the third overload, which the other two call, is commented out, so the
  connection is left as it was.
\<close>

definition LengthHeader_send :: "'c \<Rightarrow> byte list \<Rightarrow> nat \<Rightarrow> 'c result" where
  "LengthHeader_send conn data len = Inr conn"

section \<open>The abstract decoder\<close>

text \<open>The bodies in order, whether the stream is refused, and the bytes left over.\<close>

function decode :: "byte list \<Rightarrow> byte list list \<times> bool \<times> byte list" where
  "decode c =
     (if \<not> 4 < length c then ([], False, c)
      else
        let n = sint (be_value32 c) in
        if n > 65536 \<or> n < 0 then ([], True, c)
        else if nat n + 4 \<le> length c then
          (case decode (drop (4 + nat n) c) of (ms, bad, r) \<Rightarrow> (take (nat n) (drop 4 c) # ms, bad, r))
        else ([], False, c))"
  by pat_completeness auto
termination by (relation "measure length") auto

declare decode.simps [simp del]

definition frame :: "byte list \<Rightarrow> byte list" where
  "frame m = be_bytes32 (word_of_nat (length m)) @ m"

lemma decode_short [simp]: "length c \<le> 4 \<Longrightarrow> decode c = ([], False, c)"
  by (subst decode.simps) simp

lemma decode_frame:
  assumes "length m \<le> 65536" and "m \<noteq> [] \<or> r \<noteq> []"
  shows "decode (frame m @ r) = (case decode r of (ms, bad, r') \<Rightarrow> (m # ms, bad, r'))"
proof -
  have "sint (be_value32 (frame m @ r)) = int (length m)"
    using assms(1) by (simp add: frame_def sint_int32_of_nat)
  moreover have "4 < length (frame m @ r)" using assms(2) by (auto simp: frame_def)
  ultimately show ?thesis using assms(1)
    by (subst decode.simps) (simp add: frame_def Let_def)
qed

text \<open>A decoder fed in two pieces delivers what it delivers when fed at once.\<close>

lemma decode_append:
  assumes "decode c = (ms, False, r)"
  shows "decode (c @ d) = (case decode (r @ d) of (ms', bad, r') \<Rightarrow> (ms @ ms', bad, r'))"
  using assms
proof (induction c arbitrary: ms rule: decode.induct)
  case (1 c)
  let ?n = "sint (be_value32 c)"
  show ?case
  proof (cases "4 < length c \<and> 0 \<le> ?n \<and> ?n \<le> 65536 \<and> nat ?n + 4 \<le> length c")
    case True
    then obtain ms1 where rest: "decode (drop (4 + nat ?n) c) = (ms1, False, r)"
        and ms: "ms = take (nat ?n) (drop 4 c) # ms1"
      using "1.prems" by (subst (asm) decode.simps) (auto simp: Let_def split: prod.splits)
    have "decode (drop (4 + nat ?n) c @ d) = (case decode (r @ d) of (ms', bad, r') \<Rightarrow> (ms1 @ ms', bad, r'))"
      using True by (intro "1.IH" rest) auto
    then show ?thesis using True ms
      by (subst decode.simps) (auto simp: Let_def split: prod.splits)
  next
    case False
    then have "r = c \<and> ms = []" using "1.prems" by (subst (asm) decode.simps) (auto simp: Let_def split: if_splits)
    then show ?thesis by (auto split: prod.splits)
  qed
qed

section \<open>The loop refines the decoder\<close>

lemma peekInt32_value:
  assumes "buf_ok b" and "4 \<le> length (content b)"
  shows "peekInt32 b = Inr (be_value32 (content b))"
  using assms by (simp add: peekInt32_def peek_bytes_ok length_content)

text \<open>What delivering the decoded bodies means: the callback on each in order, then the shutdown.\<close>

definition deliver ::
    "(byte list \<Rightarrow> 'c \<Rightarrow> 'c result) \<Rightarrow> ('c \<Rightarrow> 'c result) \<Rightarrow> byte list list \<Rightarrow> bool \<Rightarrow> 'b \<Rightarrow> 'c \<Rightarrow> ('c \<times> 'b) result" where
  "deliver cb shut ms bad b' conn =
     and_then (fold_result cb ms conn) (\<lambda>conn.
       if bad then and_then (shut conn) (\<lambda>conn. Inr (conn, b')) else Inr (conn, b'))"

lemma deliver_Cons: "deliver cb shut (m # ms) bad b' conn = and_then (cb m conn) (deliver cb shut ms bad b')"
  by (simp add: deliver_def and_then_assoc) (simp add: deliver_def [abs_def])

lemma onMessage_refines:
  assumes "buf_ok b"
  shows "\<exists>b'. buf_ok b' \<and> content b' = snd (snd (decode (content b))) \<and> buffer_room b \<le> buffer_room b' \<and>
    (\<forall>conn. LengthHeader_onMessage cb shut conn b =
      deliver cb shut (fst (decode (content b))) (fst (snd (decode (content b)))) b' conn)"
  using assms
proof (induction "content b" arbitrary: b rule: decode.induct)
  case 1
  note ok = "1.prems" and len = length_content [OF "1.prems"]
  let ?c = "content b" and ?n = "sint (be_value32 (content b))"
  consider (short) "\<not> 4 < length ?c" | (bad) "4 < length ?c" "?n > 65536 \<or> ?n < 0"
    | (full) "4 < length ?c" "\<not> (?n > 65536 \<or> ?n < 0)" "nat ?n + 4 \<le> length ?c"
    | (part) "4 < length ?c" "\<not> (?n > 65536 \<or> ?n < 0)" "\<not> nat ?n + 4 \<le> length ?c"
    by blast
  then show ?case
  proof cases
    case short
    then show ?thesis using ok len
      by (intro exI [of _ b]) (simp add: LengthHeader_onMessage.simps LengthHeader_kHeaderLen_def size_of_int_def deliver_def)
  next
    case bad
    then show ?thesis using ok len
      by (intro exI [of _ b], subst LengthHeader_onMessage.simps, subst (1 2 3) decode.simps)
        (auto simp: LengthHeader_kHeaderLen_def LengthHeader_kMaxMessageLen_def
          LengthHeader_kMinMessageLen_def size_of_int_def Let_def peekInt32_value deliver_def)
  next
    case full
    obtain b1 where b1: "retrieve 4 b = Inr b1" "buf_ok b1" "content b1 = drop 4 ?c" "buffer_room b \<le> buffer_room b1"
      using bufq.drop_law [OF ok, of 4] full by auto
    have n: "nat ?n \<le> length (content b1)" using full b1(3) by simp
    obtain b2 where b2: "retrieve (nat ?n) b1 = Inr b2" "buf_ok b2" "content b2 = drop (4 + nat ?n) ?c" "buffer_room b1 \<le> buffer_room b2"
      using bufq.drop_law [OF b1(2) n] b1(3) by (auto simp: add.commute)
    have peek: "peek_bytes (nat ?n) b1 = Inr (take (nat ?n) (drop 4 ?c))"
      using n b1 by (simp add: peek_bytes_ok)
    have "nat ((?n + 4) mod 18446744073709551616) = nat ?n + 4"
      using full by (subst mod_pos_pos_trivial) auto
    moreover have "?n mod 18446744073709551616 = ?n" using full by (subst mod_pos_pos_trivial) auto
    ultimately have step: "LengthHeader_onMessage cb shut conn b =
        and_then (cb (take (nat ?n) (drop 4 ?c)) conn) (\<lambda>conn. LengthHeader_onMessage cb shut conn b2)" for conn
      using full b1 b2 peek ok len
      by (subst LengthHeader_onMessage.simps)
        (simp add: LengthHeader_kHeaderLen_def LengthHeader_kMaxMessageLen_def
          LengthHeader_kMinMessageLen_def size_of_int_def peekInt32_value)
    have dec: "decode ?c = (take (nat ?n) (drop 4 ?c) # fst (decode (content b2)), snd (decode (content b2)))"
      using full b2(3) by (subst decode.simps) (auto simp: Let_def split: prod.splits)
    obtain b' where "buf_ok b'" "content b' = snd (snd (decode (content b2)))" "buffer_room b2 \<le> buffer_room b'"
        "\<And>conn. LengthHeader_onMessage cb shut conn b2 =
          deliver cb shut (fst (decode (content b2))) (fst (snd (decode (content b2)))) b' conn"
      using "1.hyps" [OF _ refl _ _ b2(3) [symmetric] b2(2)] full by auto
    then show ?thesis using b1 b2
      by (intro exI [of _ b']) (auto simp: dec step deliver_Cons)
  next
    case part
    have "nat ((?n + 4) mod 18446744073709551616) = nat ?n + 4"
      using part by (subst mod_pos_pos_trivial) auto
    then show ?thesis using ok len part
      by (intro exI [of _ b], subst LengthHeader_onMessage.simps, subst (1 2 3) decode.simps)
        (auto simp: LengthHeader_kHeaderLen_def LengthHeader_kMaxMessageLen_def deliver_def
          LengthHeader_kMinMessageLen_def size_of_int_def Let_def peekInt32_value)
  qed
qed

section \<open>Properties\<close>

text \<open>
  C19: \<open>LengthHeaderCodec::onMessage\<close> implements the abstract decoder.  On a well-formed
  buffer it calls the message callback on exactly the bodies of the complete frames at the
  front of the readable bytes, in order, shuts the connection down exactly when it then meets
  a length below 0 or above 65536, and leaves the undecoded bytes in a well-formed buffer; the
  loop ends on every buffer.
\<close>

theorem LengthHeader_onMessage_refines:
  assumes "buf_ok b"
  shows "case decode (content b) of (ms, bad, r) \<Rightarrow>
    \<exists>b'. buf_ok b' \<and> content b' = r \<and>
      LengthHeader_onMessage cb shut conn b = deliver cb shut ms bad b' conn"
  using onMessage_refines [OF assms] by (fastforce split: prod.split)

theorem LengthHeader_onMessage_refines_witness:
  "\<exists>b'. buf_ok b' \<and> content b' = [0, 0] \<and>
     LengthHeader_onMessage (\<lambda>s c. Inr (c @ [s])) (\<lambda>c. Inr (c @ [[]])) []
       \<lparr>vec = [0, 0, 0, 0, 0, 0, 0, 0, 0, 0, 0, 2, 65, 66, 0, 0], readerIndex = 8, writerIndex = 16\<rparr> = Inr ([[65, 66]], b')"
proof -
  let ?b = "\<lparr>vec = [0, 0, 0, 0, 0, 0, 0, 0, 0, 0, 0, 2, 65, 66, 0, 0], readerIndex = 8, writerIndex = 16\<rparr>"
  have c: "content ?b = [0, 0, 0, 2, 65, 66, 0, 0]" by (simp add: content_def segment_def)
  have "decode (content ?b) = ([[65, 66]], False, [0, 0])"
    unfolding c by (subst decode.simps) (simp add: be_value32_def)
  then show ?thesis
    using LengthHeader_onMessage_refines [of ?b "\<lambda>s c. Inr (c @ [s])" "\<lambda>c. Inr (c @ [[]])" "[]"]
    by (simp add: buffer_defs deliver_def)
qed

text \<open>
  C21: the stream may arrive in any two pieces.  Running \<open>onMessage\<close> on the first piece,
  appending the second piece to what it left and running it again has the same effect on the
  connection and leaves the same bytes as running it once on the whole stream, as long as the
  first piece is not refused.
\<close>

theorem LengthHeader_onMessage_chunks:
  assumes "buf_ok b" and "buf_ok b0" and "content b0 = content b @ d" and "length d \<le> buffer_room b"
    and "\<not> fst (snd (decode (content b)))"
  shows "map_sum id (map_prod id content) (LengthHeader_onMessage cb shut conn b0) =
    and_then (LengthHeader_onMessage cb shut conn b) (\<lambda>(conn1, b1).
    and_then (append_all d b1) (\<lambda>b2.
      map_sum id (map_prod id content) (LengthHeader_onMessage cb shut conn1 b2)))"
proof -
  obtain ms r where dec: "decode (content b) = (ms, False, r)" using assms(5) by (metis prod.collapse)
  obtain ms' bad r' where dec': "decode (r @ d) = (ms', bad, r')" by (metis prod.collapse)
  have dec0: "decode (content b0) = (ms @ ms', bad, r')"
    using decode_append [OF dec] dec' assms(3) by simp
  obtain b1 where b1: "buf_ok b1" "content b1 = r" "buffer_room b \<le> buffer_room b1"
      "\<And>conn. LengthHeader_onMessage cb shut conn b = deliver cb shut ms False b1 conn"
    using onMessage_refines [OF assms(1)] dec by fastforce
  obtain b2 where b2: "append_all d b1 = Inr b2" "buf_ok b2" "content b2 = r @ d"
    using bufq.put_law [OF b1(1), of d] b1 assms(4) by auto
  obtain b3 where b3: "content b3 = r'"
      "\<And>conn. LengthHeader_onMessage cb shut conn b2 = deliver cb shut ms' bad b3 conn"
    using onMessage_refines [OF b2(2)] b2(3) dec' by fastforce
  obtain b4 where b4: "content b4 = r'"
      "\<And>conn. LengthHeader_onMessage cb shut conn b0 = deliver cb shut (ms @ ms') bad b4 conn"
    using onMessage_refines [OF assms(2)] dec0 by fastforce
  have same: "map_sum id (map_prod id content) (deliver cb shut ms' bad b4 c) =
      map_sum id (map_prod id content) (deliver cb shut ms' bad b3 c)" for c
    using b3(1) b4(1)
    by (cases "fold_result cb ms' c"; cases bad) (auto simp: deliver_def and_then_def split: sum.split)
  have "deliver cb shut (ms @ ms') bad b4 conn = and_then (fold_result cb ms conn) (deliver cb shut ms' bad b4)"
    by (simp add: deliver_def [abs_def] fold_result_append and_then_assoc)
  then show ?thesis using b1 b2 b3 b4 same
    by (cases "fold_result cb ms conn") (auto simp: deliver_def [of _ _ ms False])
qed

theorem LengthHeader_onMessage_chunks_witness:
  "map_sum id (map_prod id content) (LengthHeader_onMessage (\<lambda>s c. Inr (c @ [s])) Inr []
      \<lparr>vec = [0, 0, 0, 0, 0, 0, 0, 0, 0, 0, 0, 1, 65], readerIndex = 8, writerIndex = 13\<rparr>) =
    and_then (LengthHeader_onMessage (\<lambda>s c. Inr (c @ [s])) Inr []
      \<lparr>vec = [0, 0, 0, 0, 0, 0, 0, 0, 0, 0, 0, 1], readerIndex = 8, writerIndex = 12\<rparr>) (\<lambda>(conn1, b1).
    and_then (append_all [65] b1) (\<lambda>b2.
      map_sum id (map_prod id content) (LengthHeader_onMessage (\<lambda>s c. Inr (c @ [s])) Inr conn1 b2)))"
  by (rule LengthHeader_onMessage_chunks) (simp_all add: buffer_defs content_def segment_def buffer_room_def)

lemma decode_frames:
  "\<forall>m \<in> set ms. length m \<le> 65536 \<Longrightarrow> ms \<noteq> [] \<Longrightarrow> last ms \<noteq> [] \<Longrightarrow>
   decode (concat (map frame ms)) = (ms, False, [])"
proof (induction ms)
  case Nil
  then show ?case by simp
next
  case (Cons m ms)
  show ?case
  proof (cases ms)
    case Nil
    then show ?thesis using Cons.prems decode_frame [of m "[]"] by simp
  next
    case (Cons m' ms')
    then have "concat (map frame ms) \<noteq> []" by (simp add: frame_def be_bytes32_def)
    then show ?thesis using Cons.IH Cons.prems decode_frame [of m "concat (map frame ms)"] Cons by simp
  qed
qed

text \<open>
  A sender's framing with the buffer's own operations: the body appended to a new buffer, its
  length put in front in the prepend area, and the bytes taken out.  The receiving buffer gets
  them appended.  (\<open>LengthHeaderCodec::send\<close> has these calls commented out, so they are
  the caller's.)
\<close>

definition framed :: "byte list \<Rightarrow> byte list result" where
  "framed m =
     and_then (Buffer_new kInitialSize) (\<lambda>o1.
     and_then (append_data m (length m) o1) (\<lambda>o2.
     and_then (prependInt32 (word_of_nat (length m)) o2) (\<lambda>o3.
     and_then (retrieveAllAsString o3) (\<lambda>(s, _). Inr s))))"

definition receive_framed :: "byte list \<Rightarrow> buffer \<Rightarrow> buffer result" where
  "receive_framed m b = and_then (framed m) (\<lambda>s. append_data s (length s) b)"

lemma framed_ok:
  assumes "length m \<le> 65536"
  shows "framed m = Inr (frame m)"
proof -
  obtain o1 where o1: "Buffer_new kInitialSize = Inr o1" "buf_ok o1" "content o1 = []" "readerIndex o1 = 8" "writerIndex o1 = 8"
    using Buffer_new_ok [of kInitialSize] by (auto simp: buffer_defs)
  obtain o2 where o2: "append_data m (length m) o1 = Inr o2" "buf_ok o2" "content o2 = m"
    using append_data_ok [OF o1(2), of "length m" m] o1(3,5) assms by auto
  have "4 \<le> readerIndex o2" using append_data_reader [OF o2(1)] o1(4) by auto
  then obtain o3 where o3: "prependInt32 (word_of_nat (length m)) o2 = Inr o3" "buf_ok o3" "content o3 = frame m"
    using prepend_ok [OF o2(2), of 4 "be_bytes32 (word_of_nat (length m))"] o2(3)
    by (auto simp: prependInt32_def frame_def)
  have "retrieveAllAsString o3 = and_then (retrieve (length (frame m)) o3) (\<lambda>o4. Inr (frame m, o4))"
    using length_content [OF o3(2)] o3 by (simp add: retrieveAllAsString_def retrieveAsString_def peek_bytes_ok)
  moreover obtain o4 where "retrieve (length (frame m)) o3 = Inr o4" using retrieve_ok [OF o3(2)] o3(3) by auto
  ultimately show ?thesis using o1(1) o2(1) o3(1) by (simp add: framed_def)
qed

lemma receive_framed_all:
  assumes "\<forall>m \<in> set ms. length m \<le> 65536"
  shows "fold_result receive_framed ms b = fold_result append_all (map frame ms) b"
  using assms
proof (induction ms arbitrary: b)
  case (Cons m ms)
  then show ?case using framed_ok [of m]
    by (cases "append_all (frame m) b") (auto simp: receive_framed_def append_all_def)
qed simp

text \<open>
  C20: framing round-trips through the buffer code.  Bodies of at most 65536 bytes, each
  appended to a new buffer, headed by \<open>prependInt32\<close> of its length, taken out and appended
  to the receiving buffer, are all delivered by \<open>onMessage\<close>, in order and unchanged, and the
  receiving buffer is left empty and well-formed, provided the last body is not empty (a trailing
  empty body stays in the buffer, because the loop wants more than the header to be readable).
\<close>

theorem LengthHeader_roundtrip:
  assumes "buf_ok b" and "content b = []" and "sum_list (map (\<lambda>m. 4 + length m) ms) \<le> buffer_room b"
    and "\<forall>m \<in> set ms. length m \<le> 65536" and "ms \<noteq> []" and "last ms \<noteq> []"
  shows "\<exists>b1 b2. fold_result receive_framed ms b = Inr b1 \<and>
     LengthHeader_onMessage (\<lambda>s c. Inr (c @ [s])) shut [] b1 = Inr (ms, b2) \<and> content b2 = [] \<and> buf_ok b2"
proof -
  have "length (concat (map frame ms)) = sum_list (map (\<lambda>m. 4 + length m) ms)"
    by (induction ms) (simp_all add: frame_def)
  then obtain b1 where b1: "fold_result append_all (map frame ms) b = Inr b1" "buf_ok b1" "content b1 = concat (map frame ms)"
    using bufq.puts [OF assms(1), of "map frame ms"] assms(2,3) by auto
  show ?thesis
    using onMessage_refines [OF b1(2), of "\<lambda>s c. Inr (c @ [s])" shut] decode_frames [OF assms(4,5,6)] b1
    by (fastforce simp: deliver_def fold_result_log receive_framed_all [OF assms(4)])
qed

theorem LengthHeader_roundtrip_witness:
  "\<exists>b1 b2. fold_result receive_framed [[1, 2], [], [3]] \<lparr>vec = replicate 9 0, readerIndex = 8, writerIndex = 8\<rparr> = Inr b1 \<and>
     LengthHeader_onMessage (\<lambda>s c. Inr (c @ [s])) Inr [] b1 = Inr ([[1, 2], [], [3]], b2) \<and> content b2 = [] \<and> buf_ok b2"
  by (rule LengthHeader_roundtrip) (simp_all add: buffer_defs content_def buffer_room_def)

text \<open>
  an empty message that arrives alone is not delivered.  \<open>kMinMessageLen\<close> is 0, so a
  frame of an empty body is legal, yet with only its four bytes readable the loop delivers
  nothing, does not shut down, and leaves them in the buffer.
\<close>

theorem LengthHeader_empty_message_stuck:
  assumes "buf_ok b" and "content b = frame []"
  shows "LengthHeader_onMessage cb shut conn b = Inr (conn, b) \<and> LengthHeader_kMinMessageLen = 0"
  using assms length_content [OF assms(1)]
  by (simp add: LengthHeader_onMessage.simps LengthHeader_kHeaderLen_def size_of_int_def frame_def
      LengthHeader_kMinMessageLen_def)

theorem LengthHeader_empty_message_stuck_witness:
  "LengthHeader_onMessage (\<lambda>s c. Inl Assert_Failed) (\<lambda>c. Inl Assert_Failed) True
     \<lparr>vec = replicate 12 0, readerIndex = 8, writerIndex = 12\<rparr> =
   Inr (True, \<lparr>vec = replicate 12 0, readerIndex = 8, writerIndex = 12\<rparr>)"
proof -
  have "content \<lparr>vec = replicate 12 0, readerIndex = 8, writerIndex = 12\<rparr> = frame []"
    by (simp add: content_def segment_def frame_def be_bytes32_def numeral_eq_Suc)
  then show ?thesis
    using LengthHeader_empty_message_stuck [of "\<lparr>vec = replicate 12 0, readerIndex = 8, writerIndex = 12\<rparr>"
        "\<lambda>s c. Inl Assert_Failed" "\<lambda>c. Inl Assert_Failed" True]
    by (simp add: buffer_defs)
qed

end
