(* ===== verification/Thread_Pool.thy ===== *)
theory Thread_Pool
  imports Prelude "HOL-Library.Multiset"
begin

text \<open>
  \<open>Net/ThreadPool.h/.cpp\<close>: workers that take tasks from a bounded queue.  A step is what a
  thread does between two points where another thread may intervene: a critical section of
  \<open>mutex_\<close>, the unlocked read of \<open>runing_\<close>, or running a task.  A wait on a condition
  variable with a predicate ends only in a state where the predicate holds, and may end in any
  such state; the notifications are therefore not part of the state.
\<close>

section \<open>State\<close>

text \<open>
  Where a worker of \<open>threadFunc\<close> is: before the loop test, before \<open>take\<close>, waiting in
  \<open>take\<close>, holding what \<open>take\<close> returned (\<open>None\<close> is an empty \<open>std::function\<close>),
  or returned.
\<close>

datatype 't worker = Checking | Taking | Waiting | Holding "'t option" | Returned

text \<open>
  \<open>blocked\<close> holds the tasks of the callers waiting in \<open>post\<close> (\<open>False\<close>) or \<open>postFuture\<close> (\<open>True\<close>); \<open>mutex_lost\<close> is set
  when one of them loops in \<open>post\<close> with the mutex held; \<open>aborted\<close> when \<open>LOG(FATAL)\<close>
  ended the process.  \<open>accepted\<close>, \<open>taken\<close> and \<open>ran\<close> record the history.
\<close>

record 't thread_pool =
  maxQueueSize :: int
  queue :: "'t list"
  workers :: "'t worker list"
  runing :: bool
  blocked :: "('t \<times> bool) list"
  mutex_lost :: bool
  aborted :: bool
  accepted :: "'t list"
  taken :: "'t list"
  ran :: "'t list"

definition ThreadPool_new :: "'t thread_pool" where
  "ThreadPool_new = \<lparr>maxQueueSize = 0, queue = [], workers = [], runing = False, blocked = [],
     mutex_lost = False, aborted = False, accepted = [], taken = [], ran = []\<rparr>"

definition setmaxQueueSize :: "int \<Rightarrow> 't thread_pool \<Rightarrow> 't thread_pool" where
  "setmaxQueueSize m p = p\<lparr>maxQueueSize := m\<rparr>"

text \<open>\<open>hardware_concurrency\<close> threads when the argument is not positive.\<close>

definition ThreadPool_start :: "nat \<Rightarrow> int \<Rightarrow> 't thread_pool \<Rightarrow> 't thread_pool result" where
  "ThreadPool_start hardware_concurrency threadNum p =
     (if workers p \<noteq> [] then Inl Assert_Failed
      else let num = (if threadNum \<le> 0 then hardware_concurrency else nat threadNum) in
        Inr (p\<lparr>runing := True, workers := replicate num Checking\<rparr>))"

section \<open>Steps\<close>

text \<open>The test of the waiting loop in \<open>post\<close>, and the predicate it waits for.\<close>

definition queue_full :: "'t thread_pool \<Rightarrow> bool" where
  "queue_full p \<longleftrightarrow> maxQueueSize p > 0 \<and> maxQueueSize p = int (length (queue p))"

definition not_full :: "'t thread_pool \<Rightarrow> bool" where
  "not_full p \<longleftrightarrow> int (length (queue p)) < maxQueueSize p \<or> \<not> runing p"

definition push_task :: "'t \<Rightarrow> 't thread_pool \<Rightarrow> 't thread_pool" where
  "push_task t p = p\<lparr>queue := queue p @ [t], accepted := accepted p @ [t]\<rparr>"

definition pool_post :: "'t \<Rightarrow> 't thread_pool \<Rightarrow> 't thread_pool result" where
  "pool_post t p = (if \<not> runing p then Inl Runtime_Error
     else if queue_full p then Inr (p\<lparr>blocked := blocked p @ [(t, False)]\<rparr>)
     else Inr (push_task t p))"

text \<open>
  \<open>postFuture\<close> compares the size with \<open>>=\<close>.  Its \<open>queue_.emplace\<close>, which as written lacks the
  position and does not compile when instantiated, is read as \<open>emplace_back\<close>.  The task it queues
  is a \<open>packaged_task\<close>, which keeps an exception of its function in the future: it does not throw.
\<close>

definition queue_over :: "'t thread_pool \<Rightarrow> bool" where
  "queue_over p \<longleftrightarrow> maxQueueSize p > 0 \<and> maxQueueSize p \<le> int (length (queue p))"

definition postFuture :: "'t \<Rightarrow> 't thread_pool \<Rightarrow> 't thread_pool result" where
  "postFuture t p = (if \<not> runing p then Inl Runtime_Error
     else if queue_over p then Inr (p\<lparr>blocked := blocked p @ [(t, True)]\<rparr>)
     else Inr (push_task t p))"

text \<open>
  A waiting \<open>post\<close> whose predicate holds tests its loop condition again.  When the queue is
  still full (the pool was stopped) the wait returns at once, for ever, with the mutex locked.
\<close>

definition post_wakes :: "nat \<Rightarrow> 't thread_pool \<Rightarrow> 't thread_pool" where
  "post_wakes i p = (if (if snd (blocked p ! i) then queue_over p else queue_full p) then p\<lparr>mutex_lost := True\<rparr>
     else push_task (fst (blocked p ! i)) (p\<lparr>blocked := take i (blocked p) @ drop (Suc i) (blocked p)\<rparr>))"

text \<open>The end of \<open>take\<close>, after its waiting loop.\<close>

definition take_front :: "nat \<Rightarrow> 't thread_pool \<Rightarrow> 't thread_pool" where
  "take_front i p = (case queue p of
     [] \<Rightarrow> p\<lparr>workers := (workers p)[i := Holding None]\<rparr>
   | t # ts \<Rightarrow> p\<lparr>queue := ts, taken := taken p @ [t], workers := (workers p)[i := Holding (Some t)]\<rparr>)"

definition pool_take :: "nat \<Rightarrow> 't thread_pool \<Rightarrow> 't thread_pool" where
  "pool_take i p = (if queue p = [] \<and> runing p then p\<lparr>workers := (workers p)[i := Waiting]\<rparr>
     else take_front i p)"

text \<open>
  \<open>task()\<close>: an empty function throws \<open>bad_function_call\<close>; that and any exception of a
  task (\<open>throws\<close>) ends in \<open>LOG(FATAL)\<close>.
\<close>

definition run_held :: "('t \<Rightarrow> bool) \<Rightarrow> nat \<Rightarrow> 't option \<Rightarrow> 't thread_pool \<Rightarrow> 't thread_pool" where
  "run_held throws i t p = (case t of
     None \<Rightarrow> p\<lparr>aborted := True\<rparr>
   | Some t \<Rightarrow> (let p = p\<lparr>ran := ran p @ [t], workers := (workers p)[i := Checking]\<rparr> in
        if throws t then p\<lparr>aborted := True\<rparr> else p))"

definition check_runing :: "nat \<Rightarrow> 't thread_pool \<Rightarrow> 't thread_pool" where
  "check_runing i p = p\<lparr>workers := (workers p)[i := (if runing p then Taking else Returned)]\<rparr>"

text \<open>\<open>stop\<close> ends with \<open>t->joined()\<close> for every thread, which only reads a flag.\<close>

definition pool_stop :: "'t thread_pool \<Rightarrow> 't thread_pool result" where
  "pool_stop p = (if \<not> runing p then Inl Assert_Failed else Inr (p\<lparr>runing := False\<rparr>))"

definition ThreadPool_delete :: "'t thread_pool \<Rightarrow> 't thread_pool result" where
  "ThreadPool_delete p = (if runing p then pool_stop p else Inr p)"

inductive tp_step :: "('t \<Rightarrow> bool) \<Rightarrow> 't thread_pool \<Rightarrow> 't thread_pool \<Rightarrow> bool" for throws where
  post: "\<not> aborted p \<Longrightarrow> \<not> mutex_lost p \<Longrightarrow> pool_post t p = Inr p' \<Longrightarrow> tp_step throws p p'"
| post_future: "\<not> aborted p \<Longrightarrow> \<not> mutex_lost p \<Longrightarrow> \<not> throws t \<Longrightarrow> postFuture t p = Inr p' \<Longrightarrow> tp_step throws p p'"
| post_wake: "\<not> aborted p \<Longrightarrow> \<not> mutex_lost p \<Longrightarrow> i < length (blocked p) \<Longrightarrow> not_full p \<Longrightarrow>
    tp_step throws p (post_wakes i p)"
| check: "\<not> aborted p \<Longrightarrow> i < length (workers p) \<Longrightarrow> workers p ! i = Checking \<Longrightarrow>
    tp_step throws p (check_runing i p)"
| take_lock: "\<not> aborted p \<Longrightarrow> \<not> mutex_lost p \<Longrightarrow> i < length (workers p) \<Longrightarrow> workers p ! i = Taking \<Longrightarrow>
    tp_step throws p (pool_take i p)"
| take_wake: "\<not> aborted p \<Longrightarrow> \<not> mutex_lost p \<Longrightarrow> i < length (workers p) \<Longrightarrow> workers p ! i = Waiting \<Longrightarrow>
    queue p \<noteq> [] \<Longrightarrow> tp_step throws p (take_front i p)"
| run: "\<not> aborted p \<Longrightarrow> i < length (workers p) \<Longrightarrow> workers p ! i = Holding t \<Longrightarrow>
    tp_step throws p (run_held throws i t p)"
| stop: "\<not> aborted p \<Longrightarrow> \<not> mutex_lost p \<Longrightarrow> pool_stop p = Inr p' \<Longrightarrow> tp_step throws p p'"

inductive_cases tp_stepE: "tp_step throws p p'"

abbreviation tp_steps :: "('t \<Rightarrow> bool) \<Rightarrow> 't thread_pool \<Rightarrow> 't thread_pool \<Rightarrow> bool" where
  "tp_steps throws \<equiv> (tp_step throws)\<^sup>*\<^sup>*"

lemmas tp_defs = pool_post_def postFuture_def push_task_def post_wakes_def check_runing_def pool_take_def
  take_front_def run_held_def pool_stop_def

section \<open>Invariant\<close>

text \<open>The tasks workers hold.\<close>

definition held :: "'t worker \<Rightarrow> 't multiset" where
  "held w = (case w of Holding (Some t) \<Rightarrow> {#t#} | _ \<Rightarrow> {#})"

lemma held_simps [simp]:
  "held Checking = {#}" "held Taking = {#}" "held Waiting = {#}" "held Returned = {#}"
  "held (Holding None) = {#}" "held (Holding (Some t)) = {#t#}"
  by (simp_all add: held_def)

definition all_held :: "'t worker list \<Rightarrow> 't multiset" where
  "all_held ws = (\<Sum>w\<leftarrow>ws. held w)"

lemma all_held_update:
  "i < length ws \<Longrightarrow> all_held (ws[i := w]) + held (ws ! i) = all_held ws + held w"
proof (induction ws arbitrary: i)
  case (Cons v ws)
  show ?case
  proof (cases i)
    case (Suc j)
    then show ?thesis using Cons.IH [of j] Cons.prems by (simp add: all_held_def add.assoc)
  qed (simp add: all_held_def add.commute add.left_commute)
qed simp

definition tasks_ok :: "'t thread_pool \<Rightarrow> bool" where
  "tasks_ok p \<longleftrightarrow> accepted p = taken p @ queue p \<and>
     mset (taken p) = mset (ran p) + all_held (workers p) \<and>
     (maxQueueSize p > 0 \<longrightarrow> int (length (queue p)) \<le> maxQueueSize p)"

lemma tasks_ok_push: "tasks_ok p \<Longrightarrow> \<not> queue_full p \<Longrightarrow> tasks_ok (push_task t p)"
  by (auto simp: tasks_ok_def push_task_def queue_full_def)

lemma queue_full_over: "queue_full p \<Longrightarrow> queue_over p"
  unfolding queue_full_def queue_over_def by linarith

lemma tasks_ok_worker:
  assumes "tasks_ok p" and "i < length (workers p)" and "held (workers p ! i) = {#}" and "held w = {#}"
  shows "tasks_ok (p\<lparr>workers := (workers p)[i := w]\<rparr>)"
  using assms all_held_update [of i "workers p" w] by (simp add: tasks_ok_def)

lemma tasks_ok_take:
  assumes "tasks_ok p" and "i < length (workers p)" and "held (workers p ! i) = {#}"
  shows "tasks_ok (take_front i p)"
proof (cases "queue p")
  case Nil
  then show ?thesis using tasks_ok_worker [OF assms, of "Holding None"] by (simp add: take_front_def)
next
  case (Cons t ts)
  then show ?thesis using assms all_held_update [OF assms(2), of "Holding (Some t)"]
    by (auto simp: take_front_def tasks_ok_def)
qed

lemma tasks_ok_update [simp]:
  "tasks_ok (p\<lparr>blocked := b\<rparr>) \<longleftrightarrow> tasks_ok p" "tasks_ok (p\<lparr>mutex_lost := x\<rparr>) \<longleftrightarrow> tasks_ok p"
  "tasks_ok (p\<lparr>aborted := x\<rparr>) \<longleftrightarrow> tasks_ok p" "tasks_ok (p\<lparr>runing := x\<rparr>) \<longleftrightarrow> tasks_ok p"
  by (simp_all add: tasks_ok_def)

lemma tp_step_ok:
  assumes "tp_step throws p p'" and "tasks_ok p"
  shows "tasks_ok p'"
  using assms
proof (cases rule: tp_step.cases)
  case (post t)
  then show ?thesis using assms(2) tasks_ok_push by (auto simp: pool_post_def split: if_splits)
next
  case (post_future t)
  then show ?thesis using tasks_ok_push [OF assms(2)] queue_full_over [of p] assms(2)
    by (auto simp: postFuture_def split: if_splits)
next
  case (post_wake i)
  have "queue_full (p\<lparr>blocked := b\<rparr>) = queue_full p" for b by (simp add: queue_full_def)
  then have push: "tasks_ok (push_task t (p\<lparr>blocked := b\<rparr>))" if "\<not> queue_full p" for t b
    using tasks_ok_push [of "p\<lparr>blocked := b\<rparr>"] assms(2) that by simp
  show ?thesis
  proof (cases "if snd (blocked p ! i) then queue_over p else queue_full p")
    case True
    then show ?thesis using post_wake(1) assms(2) by (simp add: post_wakes_def)
  next
    case False
    then have "\<not> queue_full p" using queue_full_over [of p] by (auto split: if_splits)
    from push [OF this] show ?thesis using post_wake(1) False by (simp only: post_wakes_def if_False)
  qed
next
  case (check i)
  then show ?thesis using tasks_ok_worker [OF assms(2), of i] by (simp add: check_runing_def)
next
  case (take_lock i)
  then show ?thesis using tasks_ok_worker [OF assms(2), of i] tasks_ok_take [OF assms(2), of i]
    by (simp add: pool_take_def)
next
  case (take_wake i)
  then show ?thesis using tasks_ok_take [OF assms(2), of i] by simp
next
  case (run i t)
  show ?thesis
  proof (cases t)
    case None
    then show ?thesis using run assms(2) by (simp add: run_held_def)
  next
    case (Some u)
    have "mset (ran p) + {#u#} + all_held ((workers p)[i := Checking]) = mset (ran p) + all_held (workers p)"
      using all_held_update [OF run(3), of Checking] run(4) Some by (simp add: add.commute)
    then have "tasks_ok (p\<lparr>ran := ran p @ [u], workers := (workers p)[i := Checking]\<rparr>)"
      using assms(2) by (simp add: tasks_ok_def)
    then show ?thesis using run Some by (simp add: run_held_def Let_def)
  qed
next
  case stop
  then show ?thesis using assms(2) by (auto simp: pool_stop_def split: if_splits)
qed

lemma tp_steps_ok: "tp_steps throws p p' \<Longrightarrow> tasks_ok p \<Longrightarrow> tasks_ok p'"
  by (induction rule: rtranclp_induct) (auto intro: tp_step_ok)

lemma all_held_replicate [simp]: "held w = {#} \<Longrightarrow> all_held (replicate n w) = {#}"
  by (induction n) (simp_all add: all_held_def)

lemma tp_start_ok:
  assumes "ThreadPool_start hc n (setmaxQueueSize m ThreadPool_new) = Inr p"
  shows "tasks_ok p" and "maxQueueSize p = m"
  using assms by (auto simp: ThreadPool_start_def setmaxQueueSize_def ThreadPool_new_def tasks_ok_def
      Let_def split: if_splits)

lemma tp_step_maxQueueSize: "tp_step throws p p' \<Longrightarrow> maxQueueSize p' = maxQueueSize p"
  by (auto elim!: tp_stepE simp: tp_defs Let_def split: if_splits list.splits option.splits)

section \<open>Properties\<close>

text \<open>
  C13: no task is lost, run twice or overtaken in the queue, and the queue is bounded.  In every
  state a started pool can reach, the tasks accepted are, in order, those taken from the queue
  followed by those still in it; the tasks taken are, each exactly once, those that ran and
  those a worker holds; and with a positive maximal size the queue never exceeds it, although
  \<open>post\<close> compares for equality only.  Tasks come from \<open>post\<close> and \<open>postFuture\<close>, in any order.
\<close>

theorem tasks_fifo_bounded:
  assumes "ThreadPool_start hc n (setmaxQueueSize m ThreadPool_new) = Inr p" and "tp_steps throws p p'"
  shows "accepted p' = taken p' @ queue p' \<and> mset (taken p') = mset (ran p') + all_held (workers p') \<and>
    (m > 0 \<longrightarrow> int (length (queue p')) \<le> m)"
proof -
  have "maxQueueSize p' = maxQueueSize p"
    using assms(2) by (induction rule: rtranclp_induct) (auto dest: tp_step_maxQueueSize)
  then show ?thesis using tp_steps_ok [OF assms(2) tp_start_ok(1) [OF assms(1)]] tp_start_ok(2) [OF assms(1)]
    by (simp add: tasks_ok_def)
qed

text \<open>A pool with one worker, on which the witnesses run.\<close>

definition one_worker :: "'t worker \<Rightarrow> 't thread_pool" where
  "one_worker w = ThreadPool_new\<lparr>runing := True, workers := [w]\<rparr>"

lemma one_worker_start: "ThreadPool_start 4 1 (setmaxQueueSize 0 ThreadPool_new) = Inr (one_worker Checking)"
  by (simp add: ThreadPool_start_def setmaxQueueSize_def one_worker_def ThreadPool_new_def)

lemma one_worker_post: "tp_step throws (one_worker w) (push_task t (one_worker w))"
  by (rule tp_step.post) (simp_all add: one_worker_def ThreadPool_new_def pool_post_def queue_full_def)

theorem tasks_fifo_bounded_witness:
  "accepted (push_task (7 :: nat) (one_worker Checking)) =
     taken (push_task 7 (one_worker Checking)) @ queue (push_task 7 (one_worker Checking))"
  using tasks_fifo_bounded [OF one_worker_start
    r_into_rtranclp [of "tp_step (\<lambda>_. False)", OF one_worker_post [of _ Checking 7]]] by blast

definition stopped_idle :: "nat \<Rightarrow> 't thread_pool \<Rightarrow> bool" where
  "stopped_idle i p \<longleftrightarrow> \<not> runing p \<and> queue p = [] \<and> blocked p = [] \<and>
     i < length (workers p) \<and> workers p ! i = Waiting"

lemma stopped_idle_step:
  assumes "tp_step throws p p'" and "stopped_idle i p"
  shows "stopped_idle i p'"
  using assms
  by (auto elim!: tp_stepE simp: stopped_idle_def tp_defs Let_def nth_list_update split: option.splits if_splits)

text \<open>
  \<open>stop\<close> does not stop idle workers.  A worker that waits in \<open>take\<close> when the pool
  is stopped, with nothing queued and no \<open>post\<close> or \<open>postFuture\<close> waiting, waits in every later state:
  the predicate of its wait does not look at \<open>runing_\<close>, so the \<open>notify_all\<close> of
  \<open>stop\<close> puts it back to sleep.
\<close>

theorem stop_leaves_idle_workers:
  assumes "pool_stop p = Inr q" and "queue p = []" and "blocked p = []"
    and "i < length (workers p)" and "workers p ! i = Waiting" and "tp_steps throws q r"
  shows "workers r ! i = Waiting"
proof -
  have "stopped_idle i q" using assms(1-5) by (auto simp: stopped_idle_def pool_stop_def split: if_splits)
  with assms(6) have "stopped_idle i r"
    by (induction rule: rtranclp_induct) (auto intro: stopped_idle_step)
  then show ?thesis by (simp add: stopped_idle_def)
qed

theorem stop_leaves_idle_workers_witness:
  "workers (one_worker Waiting\<lparr>runing := False\<rparr> :: nat thread_pool) ! 0 = Waiting"
  by (rule stop_leaves_idle_workers [where p = "one_worker Waiting" and throws = "\<lambda>_. False", OF _ _ _ _ _ rtranclp.rtrancl_refl])
    (simp_all add: pool_stop_def one_worker_def ThreadPool_new_def)

definition no_empty_task :: "'t thread_pool \<Rightarrow> bool" where
  "no_empty_task p \<longleftrightarrow> runing p \<longrightarrow> \<not> aborted p \<and> Holding None \<notin> set (workers p)"

lemma no_empty_task_step:
  assumes "tp_step (\<lambda>_. False) p p'" and "no_empty_task p"
  shows "no_empty_task p'"
  using assms
  by (auto elim!: tp_stepE simp: no_empty_task_def tp_defs Let_def in_set_conv_nth nth_list_update
      split: if_splits list.splits option.splits)

text \<open>
  \<open>stop\<close> can abort the process.  From a freshly started pool, with tasks that never
  throw, a state is reachable in which \<open>LOG(FATAL)\<close> was called: a worker that has seen
  \<open>runing_\<close> true and calls \<open>take\<close> after \<open>stop\<close> gets an empty function and
  calls it.  Without \<open>stop\<close> this cannot happen: while the pool runs no worker ever holds an
  empty function.
\<close>

theorem stop_can_abort:
  assumes "ThreadPool_start hc n (setmaxQueueSize m ThreadPool_new) = Inr p" and "workers p \<noteq> []"
  shows "(\<exists>p'. tp_steps (\<lambda>_. False) p p' \<and> aborted p') \<and>
    (\<forall>p'. tp_steps (\<lambda>_. False) p p' \<and> runing p' \<longrightarrow> \<not> aborted p' \<and> Holding None \<notin> set (workers p'))"
proof
  let ?T = "\<lambda>_. False"
  have p: "runing p" "\<not> aborted p" "\<not> mutex_lost p" "queue p = []" "0 < length (workers p)"
      "set (workers p) \<subseteq> {Checking}"
    using assms by (auto simp: ThreadPool_start_def setmaxQueueSize_def ThreadPool_new_def Let_def split: if_splits)
  then have w: "workers p ! 0 = Checking" using nth_mem by blast
  define p1 where "p1 = check_runing 0 p"
  define p2 where "p2 = p1\<lparr>runing := False\<rparr>"
  define p3 where "p3 = pool_take 0 p2"
  note defs = p1_def p2_def p3_def check_runing_def pool_stop_def pool_take_def take_front_def
  have "tp_step ?T p p1" unfolding p1_def using p w by (intro tp_step.check)
  moreover have "tp_step ?T p1 p2" using p by (intro tp_step.stop) (simp_all add: defs)
  moreover have "tp_step ?T p2 p3" unfolding p3_def using p w by (intro tp_step.take_lock) (simp_all add: defs)
  moreover have "tp_step ?T p3 (run_held ?T 0 None p3)"
    using p w by (intro tp_step.run) (simp_all add: defs)
  moreover have "aborted (run_held ?T 0 None p3)" by (simp add: run_held_def)
  ultimately show "\<exists>p'. tp_steps ?T p p' \<and> aborted p'"
    by (meson converse_rtranclp_into_rtranclp rtranclp.rtrancl_refl)
  have start: "no_empty_task p" using p by (auto simp: no_empty_task_def)
  have "no_empty_task p'" if "tp_steps ?T p p'" for p'
    using that start by (induction rule: rtranclp_induct) (auto intro: no_empty_task_step)
  then show "\<forall>p'. tp_steps ?T p p' \<and> runing p' \<longrightarrow> \<not> aborted p' \<and> Holding None \<notin> set (workers p')"
    by (auto simp: no_empty_task_def)
qed

theorem stop_can_abort_witness:
  "\<exists>p'. tp_steps (\<lambda>_. False) (one_worker Checking :: nat thread_pool) p' \<and> aborted p'"
  by (rule conjunct1 [OF stop_can_abort [OF one_worker_start]]) (simp add: one_worker_def)

lemma mutex_lost_step:
  assumes "tp_step throws p p'" and "mutex_lost p"
  shows "mutex_lost p' \<and> queue p' = queue p \<and> taken p' = taken p"
  using assms by (auto elim!: tp_stepE simp: tp_defs Let_def split: option.splits)

text \<open>
  \<open>stop\<close> can block the pool for good.  When a \<open>post\<close> waits on a full queue and the
  pool is stopped, the woken \<open>post\<close> may find the queue still full: it then loops with the
  mutex locked, and in every later state the queue is what it was, so none of its tasks runs.
\<close>

theorem stop_can_lose_mutex:
  assumes "\<not> aborted p" and "\<not> mutex_lost p" and "pool_stop p = Inr q" and "queue_full p" and "blocked p \<noteq> []"
  shows "\<exists>r. tp_step throws q r \<and> mutex_lost r \<and>
    (\<forall>s. tp_steps throws r s \<longrightarrow> queue s = queue p \<and> taken s = taken p)"
proof -
  have q: "q = p\<lparr>runing := False\<rparr>" using assms(3) by (auto simp: pool_stop_def split: if_splits)
  have full: "queue_full q" using assms(4) unfolding queue_full_def q by auto
  have full2: "queue_over q" using queue_full_over [OF full] .
  have "tp_step throws q (post_wakes 0 q)"
    using assms by (intro tp_step.post_wake) (simp_all add: q not_full_def)
  moreover have "post_wakes 0 q = q\<lparr>mutex_lost := True\<rparr>" using full full2 by (simp add: post_wakes_def)
  moreover have "mutex_lost s \<and> queue s = queue p \<and> taken s = taken p"
    if "tp_steps throws (q\<lparr>mutex_lost := True\<rparr>) s" for s
    using that
  proof (induction rule: rtranclp_induct)
    case (step s t)
    then show ?case using mutex_lost_step [OF step.hyps(2)] by auto
  qed (simp add: q)
  ultimately show ?thesis by auto
qed

theorem stop_can_lose_mutex_witness:
  "\<exists>r. tp_step (\<lambda>_. False) (one_worker Checking\<lparr>maxQueueSize := 1, queue := [3], blocked := [(4 :: nat, False)], runing := False\<rparr>) r \<and>
    mutex_lost r \<and> (\<forall>s. tp_steps (\<lambda>_. False) r s \<longrightarrow>
      queue s = queue (one_worker Checking\<lparr>maxQueueSize := 1, queue := [3], blocked := [(4, False)]\<rparr>) \<and>
      taken s = taken (one_worker Checking\<lparr>maxQueueSize := 1, queue := [3], blocked := [(4 :: nat, False)]\<rparr>))"
  by (rule stop_can_lose_mutex) (simp_all add: one_worker_def ThreadPool_new_def pool_stop_def queue_full_def)

end
