(* ===== verification/Ordered_Set.thy ===== *)
theory Ordered_Set
  imports Prelude "HOL-Library.Product_Lexorder"
begin

text \<open>
  \<open>std::set\<close> as the library uses it: a strictly ascending list of keys with the results
  the callers look at (the \<open>bool\<close> of \<open>emplace\<close>, the count of \<open>erase\<close>, the
  two ranges a \<open>lower_bound\<close> iterator separates).  The locale \<open>ordered_set\<close> states
  what the timer queue relies on; it is interpreted on the list model below.
\<close>

named_theorems set_simps

definition set_emplace :: "'a::linorder \<Rightarrow> 'a list \<Rightarrow> 'a list \<times> bool" where
  "set_emplace x xs = (if x \<in> set xs then (xs, False) else (insort x xs, True))"

definition set_erase :: "'a::linorder \<Rightarrow> 'a list \<Rightarrow> 'a list \<times> nat" where
  "set_erase x xs = (if x \<in> set xs then (remove1 x xs, 1) else (xs, 0))"

definition set_split :: "'a::linorder \<Rightarrow> 'a list \<Rightarrow> 'a list \<times> 'a list" where
  "set_split e xs = (takeWhile (\<lambda>x. x < e) xs, dropWhile (\<lambda>x. x < e) xs)"

abbreviation ascending :: "'a::linorder list \<Rightarrow> bool" where
  "ascending \<equiv> sorted_wrt (<)"

locale ordered_set =
  fixes invar :: "'s \<Rightarrow> bool"
    and elems :: "'s \<Rightarrow> 'a::linorder list"
    and emplace :: "'a \<Rightarrow> 's \<Rightarrow> 's \<times> bool"
    and erase :: "'a \<Rightarrow> 's \<Rightarrow> 's \<times> nat"
    and split :: "'a \<Rightarrow> 's \<Rightarrow> 's \<times> 's"
  assumes elems_ascending: "invar s \<Longrightarrow> ascending (elems s)"
    and emplace_law: "invar s \<Longrightarrow> emplace x s = (s', b) \<Longrightarrow>
      invar s' \<and> set (elems s') = insert x (set (elems s)) \<and> (b \<longleftrightarrow> x \<notin> set (elems s))"
    and erase_law: "invar s \<Longrightarrow> erase x s = (s', n) \<Longrightarrow>
      invar s' \<and> set (elems s') = set (elems s) - {x} \<and> n = (if x \<in> set (elems s) then 1 else 0)"
    and split_law: "invar s \<Longrightarrow> split e s = (l, r) \<Longrightarrow>
      invar l \<and> invar r \<and> elems s = elems l @ elems r \<and>
      (\<forall>x\<in>set (elems l). x < e) \<and> (\<forall>x\<in>set (elems r). e \<le> x)"
begin

lemma elems_distinct: "invar s \<Longrightarrow> distinct (elems s)"
  using elems_ascending strict_sorted_iff by blast

lemma elems_unique: "invar s \<Longrightarrow> invar s' \<Longrightarrow> set (elems s) = set (elems s') \<Longrightarrow> elems s = elems s'"
  using elems_ascending strict_sorted_equal by blast

lemma emplace_new:
  assumes "invar s" and "x \<notin> set (elems s)"
  obtains s' where "emplace x s = (s', True)" "invar s'" "set (elems s') = insert x (set (elems s))"
    "length (elems s') = Suc (length (elems s))"
proof -
  obtain s' b where e: "emplace x s = (s', b)" by (cases "emplace x s")
  with emplace_law [OF assms(1) e] assms have l: "invar s'" "set (elems s') = insert x (set (elems s))" "b"
    by auto
  have "length (elems s') = card (set (elems s'))" using elems_distinct [OF l(1)] by (simp add: distinct_card)
  also have "\<dots> = Suc (length (elems s))"
    using l(2) assms elems_distinct [OF assms(1)] by (simp add: distinct_card)
  finally show ?thesis using that e l by simp
qed

lemma erase_present:
  assumes "invar s" and "x \<in> set (elems s)"
  obtains s' where "erase x s = (s', 1)" "invar s'" "set (elems s') = set (elems s) - {x}"
proof -
  obtain s' n where e: "erase x s = (s', n)" by (cases "erase x s")
  with erase_law [OF assms(1) e] assms that show ?thesis by simp
qed

lemma split_filter:
  assumes "invar s" and "split e s = (l, r)"
  shows "elems l = filter (\<lambda>x. x < e) (elems s)" and "elems r = filter (\<lambda>x. e \<le> x) (elems s)"
proof -
  note law = split_law [OF assms]
  have "filter (\<lambda>x. x < e) (elems l) = elems l" "filter (\<lambda>x. x < e) (elems r) = []"
    using law by (auto simp: filter_id_conv filter_empty_conv)
  then show "elems l = filter (\<lambda>x. x < e) (elems s)" using law by simp
  have "filter (\<lambda>x. e \<le> x) (elems l) = []" "filter (\<lambda>x. e \<le> x) (elems r) = elems r"
    using law by (auto simp: filter_id_conv filter_empty_conv)
  then show "elems r = filter (\<lambda>x. e \<le> x) (elems s)" using law by simp
qed

lemma first_is_least:
  assumes "invar s" and "elems s = x # xs" and "y \<in> set (elems s)"
  shows "x \<le> y"
  using elems_ascending [OF assms(1)] assms(2,3) by auto

end

lemma ascending_insort: "ascending xs \<Longrightarrow> x \<notin> set xs \<Longrightarrow> ascending (insort x xs)"
  by (simp add: strict_sorted_iff sorted_insort distinct_insort)

lemma ascending_remove1: "ascending xs \<Longrightarrow> ascending (remove1 x xs)"
  by (simp add: strict_sorted_iff sorted_remove1)

lemma split_dropWhile_ge:
  "ascending xs \<Longrightarrow> x \<in> set (dropWhile (\<lambda>x. x < e) xs) \<Longrightarrow> e \<le> (x::'a::linorder)"
  by (induction xs) (auto split: if_splits)

interpretation stdset: ordered_set ascending "\<lambda>xs. xs" set_emplace set_erase set_split
proof
  fix s s' :: "'a::linorder list" and x b assume "ascending s" "set_emplace x s = (s', b)"
  then show "ascending s' \<and> set s' = insert x (set s) \<and> (b \<longleftrightarrow> x \<notin> set s)"
    by (auto simp: set_emplace_def ascending_insort set_insort_key split: if_splits)
next
  fix s s' :: "'a::linorder list" and x n assume a: "ascending s" "set_erase x s = (s', n)"
  moreover have "distinct s" using a(1) strict_sorted_iff by blast
  ultimately show "ascending s' \<and> set s' = set s - {x} \<and> n = (if x \<in> set s then 1 else 0)"
    by (auto simp: set_erase_def ascending_remove1 split: if_splits)
next
  fix s l r :: "'a::linorder list" and e assume a: "ascending s" "set_split e s = (l, r)"
  then have lr: "l = takeWhile (\<lambda>x. x < e) s" "r = dropWhile (\<lambda>x. x < e) s"
    by (simp_all add: set_split_def)
  then have s: "s = l @ r" by simp
  with a(1) have "ascending l" "ascending r" by (simp_all add: sorted_wrt_append)
  moreover have "\<forall>x\<in>set l. x < e" using lr(1) set_takeWhileD by fastforce
  moreover have "\<forall>x\<in>set r. e \<le> x" using lr(2) a(1) split_dropWhile_ge by blast
  ultimately show "ascending l \<and> ascending r \<and> s = l @ r \<and> (\<forall>x\<in>set l. x < e) \<and> (\<forall>x\<in>set r. e \<le> x)"
    using s by simp
qed simp

end
