(* ===== verification/Timer.thy ===== *)
theory Timer
  imports Ordered_Set
begin

text \<open>
  \<open>Net/Timestamp.h/.cpp\<close>, \<open>Net/Timer.h/.cpp\<close> and \<open>Net/TimerId.h\<close>: a time point in
  microseconds, ordered and compared by its count, and one timer.  Intervals are
  \<open>double\<close>s; \<open>addTime\<close> multiplies one by a million in floating point (rounding to 53
  bits, ties to even) and truncates to \<open>int64_t\<close>.
\<close>

section \<open>Timestamps\<close>

datatype timestamp = Timestamp (microSecondsSinceEpoch: int)

definition Timestamp_default :: timestamp where
  "Timestamp_default = Timestamp 0"

definition Timestamp_invalid :: timestamp where
  "Timestamp_invalid = Timestamp_default"

definition Timestamp_swap :: "timestamp \<Rightarrow> timestamp \<Rightarrow> timestamp \<times> timestamp" where
  "Timestamp_swap t rhs = (Timestamp (microSecondsSinceEpoch rhs), Timestamp (microSecondsSinceEpoch t))"

definition vaild :: "timestamp \<Rightarrow> bool" where
  "vaild t \<longleftrightarrow> microSecondsSinceEpoch t > 0"

definition kMicroSecondsPerSecond :: int where
  "kMicroSecondsPerSecond = 1000 * 1000"

definition Timestamp_less :: "timestamp \<Rightarrow> timestamp \<Rightarrow> bool" where
  "Timestamp_less lhs rhs \<longleftrightarrow> microSecondsSinceEpoch lhs < microSecondsSinceEpoch rhs"

definition Timestamp_equal :: "timestamp \<Rightarrow> timestamp \<Rightarrow> bool" where
  "Timestamp_equal lhs rhs \<longleftrightarrow> microSecondsSinceEpoch lhs = microSecondsSinceEpoch rhs"

text \<open>
  \<open>operator <\<close> is a linear order, so \<open>std::pair<Timestamp, Timer*>\<close> and the sets built on
  it get theirs from the library; \<open>operator ==\<close> is equality.
\<close>

instantiation timestamp :: linorder
begin

definition less_timestamp :: "timestamp \<Rightarrow> timestamp \<Rightarrow> bool" where
  "less_timestamp = Timestamp_less"

definition less_eq_timestamp :: "timestamp \<Rightarrow> timestamp \<Rightarrow> bool" where
  "less_eq_timestamp a b \<longleftrightarrow> Timestamp_less a b \<or> a = b"

instance
proof
  fix x y z :: timestamp
  show "x < y \<longleftrightarrow> x \<le> y \<and> \<not> y \<le> x"
    by (auto simp: less_timestamp_def less_eq_timestamp_def Timestamp_less_def)
  show "x \<le> y \<or> y \<le> x"
    by (cases x; cases y) (auto simp: less_eq_timestamp_def Timestamp_less_def)
qed (auto simp: less_eq_timestamp_def Timestamp_less_def)

end

lemma timestamp_less_iff: "a < b \<longleftrightarrow> microSecondsSinceEpoch a < microSecondsSinceEpoch b"
  by (simp add: less_timestamp_def Timestamp_less_def)

lemma timestamp_le_iff: "a \<le> b \<longleftrightarrow> microSecondsSinceEpoch a \<le> microSecondsSinceEpoch b"
  using timestamp_less_iff [of b a] by (simp add: linorder_not_less [symmetric])

lemma Timestamp_equal_iff: "Timestamp_equal a b \<longleftrightarrow> a = b"
  by (cases a; cases b) (simp add: Timestamp_equal_def)

section \<open>Seconds as a double\<close>

text \<open>A finite \<open>double\<close>: its value is \<open>mantissa * 2 ^ exponent\<close>, with at most 53 bits of mantissa.\<close>

datatype double = Double (mantissa: int) (exponent: int)

definition double_ok :: "double \<Rightarrow> bool" where
  "double_ok d \<longleftrightarrow> \<bar>mantissa d\<bar> < 2 ^ 53"

definition double_of_int :: "int \<Rightarrow> double" where
  "double_of_int i = Double i 0"

text \<open>The bits a product has beyond 53 (at most 20, for a product with a million).\<close>

definition excess_bits :: "int \<Rightarrow> nat" where
  "excess_bits n = length (takeWhile (\<lambda>k. 2 ^ (53 + k) \<le> \<bar>n\<bar>) [0..<21])"

definition round_half_even :: "nat \<Rightarrow> int \<Rightarrow> int" where
  "round_half_even k n = (let q = n div 2 ^ k; r = n mod 2 ^ k in
     if 2 * r < 2 ^ k \<or> 2 * r = 2 ^ k \<and> even q then q * 2 ^ k else (q + 1) * 2 ^ k)"

definition times_million :: "double \<Rightarrow> double" where
  "times_million d = (let n = mantissa d * kMicroSecondsPerSecond in
     Double (round_half_even (excess_bits n) n) (exponent d))"

definition truncate_double :: "double \<Rightarrow> int" where
  "truncate_double d = (if exponent d \<ge> 0 then mantissa d * 2 ^ nat (exponent d)
     else sgn (mantissa d) * (\<bar>mantissa d\<bar> div 2 ^ nat (- exponent d)))"

definition in_int64 :: "int \<Rightarrow> bool" where
  "in_int64 i \<longleftrightarrow> - 9223372036854775808 \<le> i \<and> i < 9223372036854775808"

definition checked_int64 :: "int \<Rightarrow> int result" where
  "checked_int64 i = (if in_int64 i then Inr i else Inl Signed_Overflow)"

definition addTime :: "timestamp \<Rightarrow> double \<Rightarrow> timestamp result" where
  "addTime timestamp seconds =
     and_then (checked_int64 (truncate_double (times_million seconds))) (\<lambda>delta.
     and_then (checked_int64 (microSecondsSinceEpoch timestamp + delta)) (\<lambda>us.
     Inr (Timestamp us)))"

lemma round_half_even_0 [simp]: "round_half_even 0 n = n"
  by (simp add: round_half_even_def)

lemma round_half_even_nonneg: "0 \<le> n \<Longrightarrow> 0 \<le> round_half_even k n"
  by (simp add: round_half_even_def Let_def pos_imp_zdiv_nonneg_iff)

lemma excess_bits_0: "\<bar>n\<bar> < 2 ^ 53 \<Longrightarrow> excess_bits n = 0"
  by (simp add: excess_bits_def upt_rec)

text \<open>The product is rounded by at most half a unit of its last place.\<close>

lemma round_half_even_error: "2 * \<bar>round_half_even k n - n\<bar> \<le> 2 ^ k"
proof -
  define q r where "q = n div 2 ^ k" and "r = n mod 2 ^ k"
  have n: "n = q * 2 ^ k + r" and r: "0 \<le> r" "r < 2 ^ k"
    by (simp_all add: q_def r_def div_mult_mod_eq)
  then show ?thesis by (auto simp: round_half_even_def Let_def simp flip: q_def r_def; simp add: algebra_simps)
qed

lemma truncate_nonneg: "0 \<le> mantissa d \<Longrightarrow> 0 \<le> truncate_double d"
  by (auto simp: truncate_double_def sgn_if pos_imp_zdiv_nonneg_iff)

text \<open>A positive interval never moves a time point back, and whole seconds are exact.\<close>

lemma addTime_mono:
  assumes "addTime t d = Inr t'" and "0 \<le> mantissa d"
  shows "t \<le> t'"
proof -
  have "0 \<le> mantissa (times_million d)"
    using assms(2) by (simp add: times_million_def Let_def kMicroSecondsPerSecond_def round_half_even_nonneg)
  from truncate_nonneg [OF this] show ?thesis using assms(1)
    by (auto simp: addTime_def and_then_eq_Inr checked_int64_def timestamp_le_iff split: if_splits)
qed

lemma addTime_whole_seconds:
  assumes "\<bar>s\<bar> < 9000000000" and "in_int64 (microSecondsSinceEpoch t + s * 1000000)"
  shows "addTime t (double_of_int s) = Inr (Timestamp (microSecondsSinceEpoch t + s * 1000000))"
proof -
  have "excess_bits (s * 1000000) = 0" using assms(1) by (intro excess_bits_0) simp
  moreover have "in_int64 (s * 1000000)" using assms(1) by (simp add: in_int64_def abs_less_iff)
  ultimately show ?thesis using assms(2)
    by (simp add: addTime_def double_of_int_def times_million_def truncate_double_def
        checked_int64_def kMicroSecondsPerSecond_def)
qed

section \<open>Timer and TimerId\<close>

text \<open>
  A timer's callback is a value of a parameter type; running it is a parameter of the queue's
  operations.  \<open>s_numCreated_\<close> is a field of the queue's state.
\<close>

record 'c timer =
  expiration :: timestamp
  interval :: double
  repeat :: bool
  callback :: 'c
  sequence :: int

definition Timer_new :: "'c \<Rightarrow> timestamp \<Rightarrow> double \<Rightarrow> int \<Rightarrow> 'c timer \<times> int" where
  "Timer_new cb expiration_time iv numCreated =
     (let numCreated = numCreated + 1 in
      (\<lparr>expiration = expiration_time, interval = iv, repeat = (mantissa iv > 0),
        callback = cb, sequence = numCreated\<rparr>, numCreated))"

definition Timer_restart :: "timestamp \<Rightarrow> 'c timer \<Rightarrow> 'c timer result" where
  "Timer_restart now t =
     (if repeat t then and_then (addTime now (interval t)) (\<lambda>e. Inr (t\<lparr>expiration := e\<rparr>))
      else Inr (t\<lparr>expiration := Timestamp_invalid\<rparr>))"

record timer_id =
  timer_ptr :: nat
  timer_seq :: int

definition TimerId_default :: timer_id where
  "TimerId_default = \<lparr>timer_ptr = 0, timer_seq = 0\<rparr>"

lemma Timer_new_simps [simp]:
  "Timer_new cb w iv n =
    (\<lparr>expiration = w, interval = iv, repeat = (mantissa iv > 0), callback = cb, sequence = n + 1\<rparr>, n + 1)"
  by (simp add: Timer_new_def Let_def)

end
