(* ===== verification/Timer_Queue.thy ===== *)
theory Timer_Queue
  imports Timer
begin

text \<open>
  \<open>Net/TimerQueue.h/.cpp\<close> with the two operations of \<open>IOLoop\<close> it calls.  Timers live on
  an explicit heap, so a read of a deleted timer is a fault; the two \<open>std::set\<close>s are
  ascending lists; the asio timer is the deadline it is armed with and the number of its
  completed waits whose handler has not run yet; tasks other threads posted to the loop wait in
  a list.  A user callback is run by a parameter that returns the queue operations it makes.
\<close>

section \<open>State\<close>

datatype task = AddTask nat | CancelTask timer_id

record 'c timer_queue =
  heap :: "nat \<Rightarrow> 'c timer option"
  s_numCreated :: int
  loopThread :: nat
  timers :: "(timestamp \<times> nat) list"
  activeTimers :: "(nat \<times> int) list"
  callingExpiredTimers :: bool
  cancelingTimers :: "(nat \<times> int) list"
  armed :: "int option"
  completed :: nat
  tasks :: "task list"

definition TimerQueue_new :: "nat \<Rightarrow> 'c timer_queue" where
  "TimerQueue_new tid = \<lparr>heap = (\<lambda>_. None), s_numCreated = 0, loopThread = tid, timers = [],
     activeTimers = [], callingExpiredTimers = False, cancelingTimers = [], armed = None,
     completed = 0, tasks = []\<rparr>"

definition uintptr_max :: nat where
  "uintptr_max = 18446744073709551615"

definition deref :: "nat \<Rightarrow> 'c timer_queue \<Rightarrow> 'c timer result" where
  "deref p q = (if p = 0 then Inl Null_Pointer
     else case heap q p of None \<Rightarrow> Inl Use_After_Free | Some t \<Rightarrow> Inr t)"

definition delete_timer :: "nat \<Rightarrow> 'c timer_queue \<Rightarrow> 'c timer_queue result" where
  "delete_timer p q = and_then (deref p q) (\<lambda>_. Inr (q\<lparr>heap := (heap q)(p := None)\<rparr>))"

text \<open>\<open>IOLoop::isInLoopThread\<close> and \<open>IOLoop::dispatch\<close>: run here, or post.\<close>

definition isInLoopThread :: "nat \<Rightarrow> 'c timer_queue \<Rightarrow> bool" where
  "isInLoopThread tid q \<longleftrightarrow> tid = loopThread q"

definition IOLoop_post :: "task \<Rightarrow> 'c timer_queue \<Rightarrow> 'c timer_queue" where
  "IOLoop_post cb q = q\<lparr>tasks := tasks q @ [cb]\<rparr>"

definition IOLoop_dispatch ::
  "nat \<Rightarrow> (task \<Rightarrow> 'c timer_queue \<Rightarrow> 'c timer_queue result) \<Rightarrow> task \<Rightarrow> 'c timer_queue \<Rightarrow> 'c timer_queue result" where
  "IOLoop_dispatch tid run cb q = (if isInLoopThread tid q then run cb q else Inr (IOLoop_post cb q))"

section \<open>Operations\<close>

definition sizes_agree :: "'c timer_queue \<Rightarrow> 'c timer_queue result" where
  "sizes_agree q = (if length (timers q) = length (activeTimers q) then Inr q else Inl Assert_Failed)"

definition TimerQueue_update :: "int \<Rightarrow> 'c timer_queue \<Rightarrow> 'c timer_queue" where
  "TimerQueue_update sec q = q\<lparr>armed := Some sec\<rparr>"

definition resetTimer :: "int \<Rightarrow> timestamp \<Rightarrow> 'c timer_queue \<Rightarrow> 'c timer_queue result" where
  "resetTimer clock when q =
     and_then (checked_int64 (microSecondsSinceEpoch when - clock)) (\<lambda>microSeconds.
     let microSeconds = (if microSeconds < 100 then 100 else microSeconds) in
     Inr (TimerQueue_update (microSeconds div kMicroSecondsPerSecond) q))"

definition TimerQueue_insert :: "nat \<Rightarrow> 'c timer_queue \<Rightarrow> (bool \<times> 'c timer_queue) result" where
  "TimerQueue_insert p q =
     and_then (sizes_agree q) (\<lambda>q.
     and_then (deref p q) (\<lambda>t.
     let when = expiration t;
         earliestChanged = (case timers q of [] \<Rightarrow> True | first # _ \<Rightarrow> when < fst first);
         (ts, inserted) = set_emplace (when, p) (timers q) in
     if \<not> inserted then Inl Assert_Failed else
     let (as, activated) = set_emplace (p, sequence t) (activeTimers q) in
     if \<not> activated then Inl Assert_Failed else
     and_then (sizes_agree (q\<lparr>timers := ts, activeTimers := as\<rparr>)) (\<lambda>q. Inr (earliestChanged, q))))"

definition addTimerInThisThread :: "int \<Rightarrow> nat \<Rightarrow> 'c timer_queue \<Rightarrow> 'c timer_queue result" where
  "addTimerInThisThread clock p q =
     and_then (TimerQueue_insert p q) (\<lambda>(earliestChanged, q).
     if earliestChanged then and_then (deref p q) (\<lambda>t. resetTimer clock (expiration t) q)
     else Inr q)"

definition cancelInThisThread :: "timer_id \<Rightarrow> 'c timer_queue \<Rightarrow> 'c timer_queue result" where
  "cancelInThisThread timerId q =
     and_then (sizes_agree q) (\<lambda>q.
     let timer = (timer_ptr timerId, timer_seq timerId) in
     and_then
       (if timer \<in> set (activeTimers q) then
          and_then (deref (fst timer) q) (\<lambda>t.
          let (ts, n) = set_erase (expiration t, fst timer) (timers q) in
          if n \<noteq> 1 then Inl Assert_Failed else
          and_then (delete_timer (fst timer) (q\<lparr>timers := ts\<rparr>)) (\<lambda>q.
          Inr (q\<lparr>activeTimers := fst (set_erase timer (activeTimers q))\<rparr>)))
        else if callingExpiredTimers q then
          Inr (q\<lparr>cancelingTimers := fst (set_emplace timer (cancelingTimers q))\<rparr>)
        else Inr q)
       sizes_agree)"

definition run_task :: "int \<Rightarrow> task \<Rightarrow> 'c timer_queue \<Rightarrow> 'c timer_queue result" where
  "run_task clock cb q = (case cb of
     AddTask p \<Rightarrow> addTimerInThisThread clock p q
   | CancelTask timerId \<Rightarrow> cancelInThisThread timerId q)"

text \<open>
  \<open>addTimer\<close> up to its \<open>return\<close>, which then reads \<open>timer->sequence()\<close> of a timer
  that is already the loop's.
\<close>

definition addTimer_dispatch ::
  "((nat \<Rightarrow> 'c timer option) \<Rightarrow> nat option) \<Rightarrow> nat \<Rightarrow> int \<Rightarrow> 'c \<Rightarrow> timestamp \<Rightarrow> double \<Rightarrow>
    'c timer_queue \<Rightarrow> (nat \<times> 'c timer_queue) result" where
  "addTimer_dispatch alloc tid clock cb when iv q = (case alloc (heap q) of
     None \<Rightarrow> Inl Bad_Alloc
   | Some p \<Rightarrow>
       let (t, n) = Timer_new cb when iv (s_numCreated q) in
       and_then (IOLoop_dispatch tid (run_task clock) (AddTask p)
         (q\<lparr>heap := (heap q)(p \<mapsto> t), s_numCreated := n\<rparr>)) (\<lambda>q. Inr (p, q)))"

definition addTimer_return :: "nat \<Rightarrow> 'c timer_queue \<Rightarrow> timer_id result" where
  "addTimer_return p q = and_then (deref p q) (\<lambda>t. Inr \<lparr>timer_ptr = p, timer_seq = sequence t\<rparr>)"

definition addTimer ::
  "((nat \<Rightarrow> 'c timer option) \<Rightarrow> nat option) \<Rightarrow> nat \<Rightarrow> int \<Rightarrow> 'c \<Rightarrow> timestamp \<Rightarrow> double \<Rightarrow>
    'c timer_queue \<Rightarrow> (timer_id \<times> 'c timer_queue) result" where
  "addTimer alloc tid clock cb when iv q =
     and_then (addTimer_dispatch alloc tid clock cb when iv q) (\<lambda>(p, q).
     and_then (addTimer_return p q) (\<lambda>i. Inr (i, q)))"

definition TimerQueue_cancel :: "nat \<Rightarrow> int \<Rightarrow> timer_id \<Rightarrow> 'c timer_queue \<Rightarrow> 'c timer_queue result" where
  "TimerQueue_cancel tid clock timerId q = IOLoop_dispatch tid (run_task clock) (CancelTask timerId) q"

fun erase_active :: "(timestamp \<times> nat) list \<Rightarrow> 'c timer_queue \<Rightarrow> 'c timer_queue result" where
  "erase_active [] q = Inr q"
| "erase_active (e # es) q =
     and_then (deref (snd e) q) (\<lambda>t.
     let (as, n) = set_erase (snd e, sequence t) (activeTimers q) in
     if n \<noteq> 1 then Inl Assert_Failed else erase_active es (q\<lparr>activeTimers := as\<rparr>))"

definition getExpired ::
  "timestamp \<Rightarrow> 'c timer_queue \<Rightarrow> ((timestamp \<times> nat) list \<times> 'c timer_queue) result" where
  "getExpired now q =
     and_then (sizes_agree q) (\<lambda>q.
     let (expired, rest) = set_split (now, uintptr_max) (timers q) in
     if \<not> (rest = [] \<or> now < fst (hd rest)) then Inl Assert_Failed else
     and_then (erase_active expired (q\<lparr>timers := rest\<rparr>)) (\<lambda>q.
     and_then (sizes_agree q) (\<lambda>q. Inr (expired, q))))"

definition reset_entry :: "timestamp \<Rightarrow> timestamp \<times> nat \<Rightarrow> 'c timer_queue \<Rightarrow> 'c timer_queue result" where
  "reset_entry now entry q =
     and_then (deref (snd entry) q) (\<lambda>t.
     if repeat t \<and> (snd entry, sequence t) \<notin> set (cancelingTimers q) then
       and_then (Timer_restart now t) (\<lambda>t.
       and_then (TimerQueue_insert (snd entry) (q\<lparr>heap := (heap q)(snd entry \<mapsto> t)\<rparr>)) (\<lambda>(_, q). Inr q))
     else delete_timer (snd entry) q)"

definition TimerQueue_reset ::
  "int \<Rightarrow> (timestamp \<times> nat) list \<Rightarrow> timestamp \<Rightarrow> 'c timer_queue \<Rightarrow> 'c timer_queue result" where
  "TimerQueue_reset clock expired now q =
     and_then (fold_result (reset_entry now) expired q) (\<lambda>q.
     and_then (case timers q of [] \<Rightarrow> Inr Timestamp_default
        | first # _ \<Rightarrow> and_then (deref (snd first) q) (\<lambda>t. Inr (expiration t))) (\<lambda>nextExpire.
     if vaild nextExpire then resetTimer clock nextExpire q else Inr q))"

text \<open>What a callback may ask of the queue, with the clock it reads.\<close>

datatype 'c command = Add 'c timestamp double int | Cancel timer_id int

definition run_command ::
  "((nat \<Rightarrow> 'c timer option) \<Rightarrow> nat option) \<Rightarrow> nat \<Rightarrow> 'c command \<Rightarrow> 'c timer_queue \<Rightarrow> 'c timer_queue result" where
  "run_command alloc tid cmd q = (case cmd of
     Add cb when iv clock \<Rightarrow> and_then (addTimer alloc tid clock cb when iv q) (\<lambda>(_, q). Inr q)
   | Cancel timerId clock \<Rightarrow> TimerQueue_cancel tid clock timerId q)"

definition run_entry ::
  "((nat \<Rightarrow> 'c timer option) \<Rightarrow> nat option) \<Rightarrow> ('c \<Rightarrow> 'w \<Rightarrow> 'c command list \<times> 'w) \<Rightarrow> timestamp \<times> nat \<Rightarrow>
    'c timer_queue \<times> 'w \<Rightarrow> ('c timer_queue \<times> 'w) result" where
  "run_entry alloc exec entry = (\<lambda>(q, w).
     and_then (deref (snd entry) q) (\<lambda>t.
     let (cmds, w) = exec (callback t) w in
     and_then (fold_result (run_command alloc (loopThread q)) cmds q) (\<lambda>q. Inr (q, w))))"

text \<open>The completion handler \<open>update\<close> passes to \<open>async_wait\<close>, for a wait without error.\<close>

definition handleTimer ::
  "((nat \<Rightarrow> 'c timer option) \<Rightarrow> nat option) \<Rightarrow> ('c \<Rightarrow> 'w \<Rightarrow> 'c command list \<times> 'w) \<Rightarrow> timestamp \<Rightarrow> int \<Rightarrow>
    'c timer_queue \<times> 'w \<Rightarrow> ('c timer_queue \<times> 'w) result" where
  "handleTimer alloc exec now clock = (\<lambda>(q, w).
     and_then (getExpired now q) (\<lambda>(expired, q).
     and_then (fold_result (run_entry alloc exec) expired
       (q\<lparr>cancelingTimers := [], callingExpiredTimers := True\<rparr>, w)) (\<lambda>(q, w).
     and_then (TimerQueue_reset clock expired now (q\<lparr>callingExpiredTimers := False\<rparr>)) (\<lambda>q.
     Inr (q, w)))))"

definition TimerQueue_delete :: "'c timer_queue \<Rightarrow> 'c timer_queue result" where
  "TimerQueue_delete q =
     fold_result (\<lambda>entry. delete_timer (snd entry)) (timers q) (q\<lparr>armed := None\<rparr>)"

section \<open>The event loop over one queue\<close>

text \<open>
  One event: a call from some thread, an \<open>addTimer\<close> of another thread reaching its
  \<open>return\<close>, the loop running the first posted task, the armed wait completing, or the
  loop running the handler of a completed wait.  In the loop thread a call is one step.  In
  another thread \<open>addTimer\<close> is two: the allocation and the dispatch, and the read of
  \<open>timer->sequence()\<close> on return; between the two the loop does what it likes, and
  the addresses of the timers such calls still have to read are kept beside the queue.
\<close>

datatype 'c event = Call nat "'c command" | AddReturns nat | RunTask int | Expire | Handle timestamp int

type_synonym ('c, 'w) loop_state = "'c timer_queue \<times> nat list \<times> 'w"

definition call_from ::
  "((nat \<Rightarrow> 'c timer option) \<Rightarrow> nat option) \<Rightarrow> nat \<Rightarrow> 'c command \<Rightarrow> 'c timer_queue \<Rightarrow>
    (nat list \<times> 'c timer_queue) result" where
  "call_from alloc tid cmd q = (case cmd of
     Add cb when iv clock \<Rightarrow>
       if isInLoopThread tid q then and_then (run_command alloc tid cmd q) (\<lambda>q. Inr ([], q))
       else and_then (addTimer_dispatch alloc tid clock cb when iv q) (\<lambda>(p, q). Inr ([p], q))
   | Cancel timerId clock \<Rightarrow> and_then (run_command alloc tid cmd q) (\<lambda>q. Inr ([], q)))"

definition queue_event ::
  "((nat \<Rightarrow> 'c timer option) \<Rightarrow> nat option) \<Rightarrow> ('c \<Rightarrow> 'w \<Rightarrow> 'c command list \<times> 'w) \<Rightarrow> 'c event \<Rightarrow>
    ('c, 'w) loop_state \<Rightarrow> ('c, 'w) loop_state result" where
  "queue_event alloc exec ev = (\<lambda>(q, r, w). case ev of
     Call tid cmd \<Rightarrow> and_then (call_from alloc tid cmd q) (\<lambda>(ps, q). Inr (q, r @ ps, w))
   | AddReturns i \<Rightarrow> (if i < length r
        then and_then (addTimer_return (r ! i) q) (\<lambda>_. Inr (q, take i r @ drop (Suc i) r, w))
        else Inr (q, r, w))
   | RunTask clock \<Rightarrow> (case tasks q of
        [] \<Rightarrow> Inr (q, r, w)
      | cb # rest \<Rightarrow> and_then (run_task clock cb (q\<lparr>tasks := rest\<rparr>)) (\<lambda>q. Inr (q, r, w)))
   | Expire \<Rightarrow> (case armed q of
        None \<Rightarrow> Inr (q, r, w)
      | Some _ \<Rightarrow> Inr (q\<lparr>armed := None, completed := completed q + 1\<rparr>, r, w))
   | Handle now clock \<Rightarrow> (if completed q = 0 then Inr (q, r, w)
        else and_then (handleTimer alloc exec now clock (q\<lparr>completed := completed q - 1\<rparr>, w))
          (\<lambda>(q, w). Inr (q, r, w))))"

section \<open>Invariant\<close>

text \<open>
  \<open>queue_ok X q\<close>: both sets are ascending and describe the same timers; every allocated
  timer has exactly one owner, which is the queue, a posted \<open>addTimerInThisThread\<close>, or the
  list \<open>X\<close> of timers taken out to be run; keys are the timers' expirations.
\<close>

fun pending :: "task list \<Rightarrow> nat list" where
  "pending [] = []"
| "pending (AddTask p # ts) = p # pending ts"
| "pending (CancelTask i # ts) = pending ts"

lemma pending_append [simp]: "pending (ts @ us) = pending ts @ pending us"
  by (induction ts rule: pending.induct) simp_all

definition active_of :: "'c timer_queue \<Rightarrow> (nat \<times> int) set" where
  "active_of q = (\<lambda>e. (snd e, sequence (the (heap q (snd e))))) ` set (timers q)"

definition timer_ok :: "'c timer \<Rightarrow> bool" where
  "timer_ok t \<longleftrightarrow> (repeat t \<longrightarrow> 0 < mantissa (interval t))"

definition queue_ok :: "nat list \<Rightarrow> 'c timer_queue \<Rightarrow> bool" where
  "queue_ok X q \<longleftrightarrow> ascending (timers q) \<and> ascending (activeTimers q) \<and>
     inj_on snd (set (timers q)) \<and> distinct (X @ pending (tasks q)) \<and>
     snd ` set (timers q) \<inter> set (X @ pending (tasks q)) = {} \<and>
     dom (heap q) = snd ` set (timers q) \<union> set (X @ pending (tasks q)) \<and>
     (\<forall>e\<in>set (timers q). \<exists>t. heap q (snd e) = Some t \<and> expiration t = fst e) \<and>
     set (activeTimers q) = active_of q \<and>
     (\<forall>p t. heap q p = Some t \<longrightarrow> 0 < p \<and> p < uintptr_max \<and> timer_ok t)"

lemma queue_okD:
  assumes "queue_ok X q"
  shows "ascending (timers q)" "ascending (activeTimers q)" "inj_on snd (set (timers q))"
    "distinct (X @ pending (tasks q))" "snd ` set (timers q) \<inter> set (X @ pending (tasks q)) = {}"
    "dom (heap q) = snd ` set (timers q) \<union> set (X @ pending (tasks q))"
    "e \<in> set (timers q) \<Longrightarrow> \<exists>t. heap q (snd e) = Some t \<and> expiration t = fst e"
    "set (activeTimers q) = active_of q" "heap q p = Some t \<Longrightarrow> 0 < p \<and> p < uintptr_max \<and> timer_ok t"
  using assms by (simp_all add: queue_ok_def)

lemma deref_ok: "queue_ok X q \<Longrightarrow> heap q p = Some t \<Longrightarrow> deref p q = Inr t"
  using queue_okD(9) [of X q p t] by (auto simp: deref_def)

lemma deref_taken:
  assumes "queue_ok X q" and "p \<in> set X"
  obtains t where "heap q p = Some t" "deref p q = Inr t"
proof -
  have "p \<in> dom (heap q)" using assms queue_okD(6) by fastforce
  then obtain t where "heap q p = Some t" by blast
  with that deref_ok [OF assms(1) this] show ?thesis by simp
qed

lemma deref_timer:
  assumes "queue_ok X q" and "e \<in> set (timers q)"
  obtains t where "heap q (snd e) = Some t" "deref (snd e) q = Inr t" "expiration t = fst e"
  using queue_okD(7) [OF assms] deref_ok [OF assms(1)] that by blast

lemma sizes_agree_ok:
  assumes "queue_ok X q"
  shows "length (timers q) = length (activeTimers q)" and "sizes_agree q = Inr q"
proof -
  have inj: "inj_on (\<lambda>e. (snd e, sequence (the (heap q (snd e))))) (set (timers q))"
    using queue_okD(3) [OF assms] by (auto simp: inj_on_def)
  have "length (activeTimers q) = card (set (activeTimers q))"
    using stdset.elems_distinct [OF queue_okD(2) [OF assms]] by (simp add: distinct_card)
  also have "\<dots> = card (set (timers q))"
    by (simp only: queue_okD(8) [OF assms] active_of_def card_image [OF inj])
  also have "\<dots> = length (timers q)"
    using stdset.elems_distinct [OF queue_okD(1) [OF assms]] by (simp add: distinct_card)
  finally show "length (timers q) = length (activeTimers q)" by simp
  then show "sizes_agree q = Inr q" by (simp add: sizes_agree_def)
qed

lemma queue_ok_new [simp]: "queue_ok [] (TimerQueue_new tid)"
  by (simp add: queue_ok_def TimerQueue_new_def active_of_def)

text \<open>The fields the invariant does not read.\<close>

lemma queue_ok_update [simp]:
  "queue_ok X (q\<lparr>armed := a\<rparr>) \<longleftrightarrow> queue_ok X q"
  "queue_ok X (q\<lparr>completed := n\<rparr>) \<longleftrightarrow> queue_ok X q"
  "queue_ok X (q\<lparr>callingExpiredTimers := b\<rparr>) \<longleftrightarrow> queue_ok X q"
  "queue_ok X (q\<lparr>cancelingTimers := c\<rparr>) \<longleftrightarrow> queue_ok X q"
  "queue_ok X (q\<lparr>s_numCreated := i\<rparr>) \<longleftrightarrow> queue_ok X q"
  by (simp_all add: queue_ok_def active_of_def)

text \<open>Taking a timer into \<open>X\<close>, from the allocator or from a posted task, and giving it to one.\<close>

lemma queue_ok_alloc:
  assumes "queue_ok X q" and "heap q p = None" and "0 < p" and "p < uintptr_max" and "timer_ok t"
  shows "queue_ok (p # X) (q\<lparr>heap := (heap q)(p \<mapsto> t)\<rparr>)"
proof -
  have p: "p \<notin> snd ` set (timers q)" "p \<notin> set (X @ pending (tasks q))"
    using assms(2) queue_okD(6) [OF assms(1)] by blast+
  then have "e \<in> set (timers q) \<Longrightarrow> snd e \<noteq> p" for e by blast
  with assms p show ?thesis by (auto simp: queue_ok_def active_of_def)
qed

lemma queue_ok_taken_update:
  assumes "queue_ok (p # X) q" and "timer_ok t"
  shows "queue_ok (p # X) (q\<lparr>heap := (heap q)(p \<mapsto> t)\<rparr>)"
proof -
  have "e \<in> set (timers q) \<Longrightarrow> snd e \<noteq> p" for e using queue_okD(5) [OF assms(1)] by auto
  moreover obtain u where "heap q p = Some u" by (rule deref_taken [OF assms(1)]) auto
  ultimately show ?thesis using assms by (auto simp: queue_ok_def active_of_def)
qed

lemma queue_ok_free:
  assumes "queue_ok (p # X) q"
  shows "queue_ok X (q\<lparr>heap := (heap q)(p := None)\<rparr>)"
proof -
  have "e \<in> set (timers q) \<Longrightarrow> snd e \<noteq> p" for e using queue_okD(5) [OF assms] by auto
  with assms show ?thesis by (auto simp: queue_ok_def active_of_def)
qed

lemma queue_ok_post_add: "queue_ok (p # X) q \<Longrightarrow> queue_ok X (IOLoop_post (AddTask p) q)"
  by (auto simp: queue_ok_def active_of_def IOLoop_post_def)

lemma queue_ok_post_cancel: "queue_ok X q \<Longrightarrow> queue_ok X (IOLoop_post (CancelTask i) q)"
  by (simp add: queue_ok_def active_of_def IOLoop_post_def)

lemma queue_ok_take_add: "queue_ok X q \<Longrightarrow> tasks q = AddTask p # ts \<Longrightarrow> queue_ok (p # X) (q\<lparr>tasks := ts\<rparr>)"
  by (auto simp: queue_ok_def active_of_def)

lemma queue_ok_take_cancel: "queue_ok X q \<Longrightarrow> tasks q = CancelTask i # ts \<Longrightarrow> queue_ok X (q\<lparr>tasks := ts\<rparr>)"
  by (simp add: queue_ok_def active_of_def)

section \<open>What each operation does\<close>

lemma TimerQueue_insert_ok:
  assumes ok: "queue_ok (p # X) q" and t: "heap q p = Some t"
  obtains q' where
    "TimerQueue_insert p q = Inr ((case timers q of [] \<Rightarrow> True | first # _ \<Rightarrow> expiration t < fst first), q')"
    "queue_ok X q'" "set (timers q') = insert (expiration t, p) (set (timers q))"
    "q' = q\<lparr>timers := timers q', activeTimers := activeTimers q'\<rparr>"
proof -
  have p: "p \<notin> snd ` set (timers q)" using queue_okD(5) [OF ok] by auto
  then have nt: "(expiration t, p) \<notin> set (timers q)" by force
  have na: "(p, sequence t) \<notin> set (activeTimers q)"
    using p by (auto simp: queue_okD(8) [OF ok] active_of_def)
  obtain ts where ts: "set_emplace (expiration t, p) (timers q) = (ts, True)" "ascending ts"
      "set ts = insert (expiration t, p) (set (timers q))" "length ts = Suc (length (timers q))"
    by (rule stdset.emplace_new [OF queue_okD(1) [OF ok] nt]) blast
  obtain as where as: "set_emplace (p, sequence t) (activeTimers q) = (as, True)" "ascending as"
      "set as = insert (p, sequence t) (set (activeTimers q))" "length as = Suc (length (activeTimers q))"
    by (rule stdset.emplace_new [OF queue_okD(2) [OF ok] na]) blast
  define q' where "q' = q\<lparr>timers := ts, activeTimers := as\<rparr>"
  have "queue_ok X q'"
    using ok ts as t p by (auto simp: queue_ok_def q'_def active_of_def)
  moreover have "TimerQueue_insert p q =
      Inr ((case timers q of [] \<Rightarrow> True | first # _ \<Rightarrow> expiration t < fst first), q')"
    using sizes_agree_ok [OF ok] sizes_agree_ok(2) [OF \<open>queue_ok X q'\<close>] deref_ok [OF ok t] ts as
    by (simp add: TimerQueue_insert_def q'_def)
  ultimately show ?thesis using that ts by (simp add: q'_def)
qed

lemma cancel_active:
  assumes ok: "queue_ok X q" and a: "(timer_ptr i, timer_seq i) \<in> set (activeTimers q)"
  obtains q' where "cancelInThisThread i q = Inr q'" "queue_ok X q'"
    "set (timers q') = {e \<in> set (timers q). snd e \<noteq> timer_ptr i}"
    "q' = q\<lparr>timers := timers q', heap := (heap q)(timer_ptr i := None), activeTimers := activeTimers q'\<rparr>"
proof -
  let ?p = "timer_ptr i" and ?a = "(timer_ptr i, timer_seq i)"
  obtain e where e: "e \<in> set (timers q)" "snd e = ?p" "timer_seq i = sequence (the (heap q ?p))"
    using a by (auto simp: queue_okD(8) [OF ok] active_of_def)
  obtain t where t: "heap q ?p = Some t" "deref ?p q = Inr t" "expiration t = fst e"
    using deref_timer [OF ok e(1)] e(2) by metis
  have key: "(expiration t, ?p) = e" using e t by (simp add: prod_eq_iff)
  obtain ts where ts: "set_erase e (timers q) = (ts, 1)" "ascending ts" "set ts = set (timers q) - {e}"
    by (rule stdset.erase_present [OF queue_okD(1) [OF ok] e(1)]) blast
  obtain as where as: "set_erase ?a (activeTimers q) = (as, 1)" "ascending as"
      "set as = set (activeTimers q) - {?a}"
    by (rule stdset.erase_present [OF queue_okD(2) [OF ok] a]) blast
  define q' where "q' = q\<lparr>timers := ts, heap := (heap q)(?p := None), activeTimers := as\<rparr>"
  have only: "f \<in> set (timers q) \<Longrightarrow> snd f = ?p \<longleftrightarrow> f = e" for f
    using queue_okD(3) [OF ok] e by (auto simp: inj_on_def)
  have inj: "inj_on snd (set ts)" using queue_okD(3) [OF ok] ts(3) by (auto simp: inj_on_def)
  have doms: "snd ` set ts = snd ` set (timers q) - {?p}" using only ts(3) e by auto
  have "set as = (\<lambda>e. (snd e, sequence (the (heap q (snd e))))) ` (set (timers q) - {e})"
  proof -
    have "inj_on (\<lambda>e. (snd e, sequence (the (heap q (snd e))))) (set (timers q))"
      using queue_okD(3) [OF ok] by (auto simp: inj_on_def)
    from inj_on_image_set_diff [OF this, of "set (timers q)" "{e}"] show ?thesis
      using e as(3) by (simp add: queue_okD(8) [OF ok] active_of_def)
  qed
  also have "\<dots> = (\<lambda>e. (snd e, sequence (the (heap q' (snd e))))) ` set ts"
    using only ts(3) by (intro image_cong) (auto simp: q'_def)
  finally have act: "set as = (\<lambda>e. (snd e, sequence (the (heap q' (snd e))))) ` set ts" .
  have fresh: "?p \<notin> set (X @ pending (tasks q))"
    using queue_okD(5) [OF ok] e by (metis IntI empty_iff imageI)
  have "queue_ok X q'"
    unfolding queue_ok_def
  proof (intro conjI ballI)
    show "dom (heap q') = snd ` set (timers q') \<union> set (X @ pending (tasks q'))"
      using queue_okD(6) [OF ok] doms fresh by (auto simp: q'_def)
    show "snd ` set (timers q') \<inter> set (X @ pending (tasks q')) = {}"
      using queue_okD(5) [OF ok] doms by (auto simp: q'_def)
    show "\<exists>t. heap q' (snd f) = Some t \<and> expiration t = fst f" if "f \<in> set (timers q')" for f
      using that only ts(3) queue_okD(7) [OF ok, of f] by (auto simp: q'_def)
    show "\<forall>p t. heap q' p = Some t \<longrightarrow> 0 < p \<and> p < uintptr_max \<and> timer_ok t"
      using queue_okD(9) [OF ok] by (auto simp: q'_def)
    show "distinct (X @ pending (tasks q'))" using queue_okD(4) [OF ok] by (simp add: q'_def)
    show "set (activeTimers q') = active_of q'" using act by (simp add: active_of_def q'_def)
  qed (use inj ts(2) as(2) in \<open>simp_all add: q'_def\<close>)
  moreover have "cancelInThisThread i q = Inr q'"
    using sizes_agree_ok(2) [OF ok] sizes_agree_ok(2) [OF \<open>queue_ok X q'\<close>] a t ts(1) as(1) key
    by (auto simp: cancelInThisThread_def Let_def delete_timer_def deref_def q'_def split: if_splits)
  moreover have "set (timers q') = {e \<in> set (timers q). snd e \<noteq> ?p}"
    using only ts(3) by (auto simp: q'_def)
  ultimately show ?thesis using that by (simp add: q'_def)
qed

lemma cancel_inactive:
  assumes "queue_ok X q" and "(timer_ptr i, timer_seq i) \<notin> set (activeTimers q)"
  shows "cancelInThisThread i q = Inr (if callingExpiredTimers q
    then q\<lparr>cancelingTimers := fst (set_emplace (timer_ptr i, timer_seq i) (cancelingTimers q))\<rparr> else q)"
  using assms sizes_agree_ok [OF assms(1)] by (auto simp: cancelInThisThread_def sizes_agree_def)

lemma erase_active_ok:
  assumes "ascending (activeTimers q)" and "distinct (map snd es)"
    and "\<And>e. e \<in> set es \<Longrightarrow> \<exists>t. deref (snd e) q = Inr t \<and> t = the (heap q (snd e)) \<and>
      (snd e, sequence t) \<in> set (activeTimers q)"
  shows "\<exists>as. erase_active es q = Inr (q\<lparr>activeTimers := as\<rparr>) \<and> ascending as \<and>
    set as = set (activeTimers q) - (\<lambda>e. (snd e, sequence (the (heap q (snd e))))) ` set es"
  using assms
proof (induction es arbitrary: q)
  case Nil
  then show ?case by (intro exI [of _ "activeTimers q"]) simp
next
  case (Cons e es)
  obtain t where t: "deref (snd e) q = Inr t" "t = the (heap q (snd e))"
      "(snd e, sequence t) \<in> set (activeTimers q)" using Cons.prems(3) [of e] by auto
  obtain as where as: "set_erase (snd e, sequence t) (activeTimers q) = (as, 1)" "ascending as"
      "set as = set (activeTimers q) - {(snd e, sequence t)}"
    by (rule stdset.erase_present [OF Cons.prems(1) t(3)]) blast
  let ?q = "q\<lparr>activeTimers := as\<rparr>"
  have "\<exists>u. deref (snd f) ?q = Inr u \<and> u = the (heap ?q (snd f)) \<and> (snd f, sequence u) \<in> set (activeTimers ?q)"
    if "f \<in> set es" for f
  proof -
    have "snd f \<noteq> snd e" using that Cons.prems(2) by (metis distinct.simps(2) imageI list.set_map list.simps(9))
    then show ?thesis using Cons.prems(3) [of f] that as(3) by (auto simp: deref_def split: if_splits option.splits)
  qed
  then obtain as' where as': "erase_active es ?q = Inr (?q\<lparr>activeTimers := as'\<rparr>)" "ascending as'"
      "set as' = set as - (\<lambda>e. (snd e, sequence (the (heap q (snd e))))) ` set es"
    using Cons.IH [of ?q] Cons.prems(2) as(2) by auto
  show ?case using t as as' by (intro exI [of _ as']) (auto simp: Let_def)
qed

text \<open>The keys below \<open>(now, UINTPTR_MAX)\<close> are the timers due at \<open>now\<close>.\<close>

lemma split_due:
  assumes ok: "queue_ok X q"
  shows "set_split (now, uintptr_max) (timers q) =
    (filter (\<lambda>e. fst e \<le> now) (timers q), filter (\<lambda>e. now < fst e) (timers q))"
proof -
  have key: "e < (now, uintptr_max) \<longleftrightarrow> fst e \<le> now" if "e \<in> set (timers q)" for e
  proof -
    have "snd e < uintptr_max" using queue_okD(7) [OF ok that] queue_okD(9) [OF ok] by blast
    then show ?thesis by (cases e) (auto simp: less_prod_def' le_less)
  qed
  obtain l r where s: "set_split (now, uintptr_max) (timers q) = (l, r)" by (cases "set_split (now, uintptr_max) (timers q)")
  have "l = filter (\<lambda>e. e < (now, uintptr_max)) (timers q)" "r = filter (\<lambda>e. (now, uintptr_max) \<le> e) (timers q)"
    using stdset.split_filter [OF queue_okD(1) [OF ok] s] by simp_all
  moreover have "\<dots> = filter (\<lambda>e. now < fst e) (timers q)"
    using key by (intro filter_cong) (auto simp flip: linorder_not_less)
  ultimately show ?thesis using s key by (simp cong: filter_cong)
qed

lemma getExpired_ok:
  fixes now :: timestamp and q :: "'c timer_queue"
  defines "due \<equiv> filter (\<lambda>e. fst e \<le> now) (timers q)"
  assumes ok: "queue_ok [] q"
  obtains q' where "getExpired now q = Inr (due, q')" "queue_ok (map snd due) q'"
    "timers q' = filter (\<lambda>e. now < fst e) (timers q)"
    "q' = q\<lparr>timers := timers q', activeTimers := activeTimers q'\<rparr>"
proof -
  define rest where "rest = filter (\<lambda>e. now < fst e) (timers q)"
  let ?key = "\<lambda>e. (snd e, sequence (the (heap q (snd e))))"
  have inj: "inj_on snd (set (timers q))" by (rule queue_okD(3) [OF ok])
  have dist: "distinct (timers q)" using stdset.elems_distinct [OF queue_okD(1) [OF ok]] .
  have dd: "distinct (map snd due)"
    using dist inj by (auto simp: due_def distinct_map intro: inj_on_subset)
  have parts: "set (timers q) = set due \<union> set rest" "set due \<inter> set rest = {}"
    by (auto simp: due_def rest_def)
  have "\<exists>t. deref (snd e) (q\<lparr>timers := rest\<rparr>) = Inr t \<and> t = the (heap q (snd e)) \<and>
      (snd e, sequence t) \<in> set (activeTimers q)" if "e \<in> set due" for e
  proof -
    have e: "e \<in> set (timers q)" using that by (simp add: due_def)
    obtain t where "heap q (snd e) = Some t" "deref (snd e) q = Inr t" using deref_timer [OF ok e] .
    then show ?thesis using e by (auto simp: queue_okD(8) [OF ok] active_of_def deref_def split: if_splits)
  qed
  then obtain as where as: "erase_active due (q\<lparr>timers := rest\<rparr>) = Inr (q\<lparr>timers := rest, activeTimers := as\<rparr>)"
      "ascending as" "set as = set (activeTimers q) - ?key ` set due"
    using erase_active_ok [of "q\<lparr>timers := rest\<rparr>" due] queue_okD(2) [OF ok] dd by auto
  define q' where "q' = q\<lparr>timers := rest, activeTimers := as\<rparr>"
  have keyinj: "inj_on ?key (set (timers q))" using inj by (auto simp: inj_on_def)
  have "set as = ?key ` (set (timers q) - set due)"
    using inj_on_image_set_diff [OF keyinj, of "set (timers q)" "set due"] as(3)
    by (simp add: queue_okD(8) [OF ok] active_of_def due_def)
  also have "set (timers q) - set due = set rest" using parts by blast
  finally have act: "set as = ?key ` set rest" .
  have snds: "snd ` set (timers q) = snd ` set due \<union> snd ` set rest" using parts(1) by (simp only: image_Un)
  have disj: "snd ` set rest \<inter> snd ` set due = {}"
    using inj parts by (auto simp: inj_on_def)
  have asc: "ascending rest" using queue_okD(1) [OF ok] by (simp add: sorted_wrt_filter rest_def)
  have sub: "set rest \<subseteq> set (timers q)" by (auto simp: rest_def)
  have ok': "queue_ok (map snd due) q'"
    unfolding queue_ok_def
  proof (intro conjI)
    show "distinct (map snd due @ pending (tasks q'))"
      using dd queue_okD(4,5) [OF ok] unfolding snds by (auto simp: q'_def)
    show "snd ` set (timers q') \<inter> set (map snd due @ pending (tasks q')) = {}"
      using disj queue_okD(5) [OF ok] unfolding snds by (auto simp: q'_def)
    show "dom (heap q') = snd ` set (timers q') \<union> set (map snd due @ pending (tasks q'))"
      using queue_okD(6) [OF ok] unfolding snds by (auto simp: q'_def)
    show "\<forall>e\<in>set (timers q'). \<exists>t. heap q' (snd e) = Some t \<and> expiration t = fst e"
      using queue_okD(7) [OF ok] sub by (auto simp: q'_def)
    show "inj_on snd (set (timers q'))" using inj by (rule inj_on_subset) (simp add: q'_def sub)
    show "set (activeTimers q') = active_of q'" using act by (simp add: active_of_def q'_def)
    show "\<forall>p t. heap q' p = Some t \<longrightarrow> 0 < p \<and> p < uintptr_max \<and> timer_ok t"
      using queue_okD(9) [OF ok] by (simp add: q'_def)
  qed (use asc as(2) in \<open>simp_all add: q'_def\<close>)
  have "rest = [] \<or> now < fst (hd rest)"
    using hd_in_set [of rest] by (auto simp: rest_def)
  then have "getExpired now q = Inr (due, q')"
    using sizes_agree_ok(2) [OF ok] sizes_agree_ok(2) [OF ok'] as(1)
    by (auto simp: getExpired_def split_due [OF ok] due_def [symmetric] rest_def [symmetric] q'_def)
  then show ?thesis using that ok' by (simp add: q'_def rest_def)
qed

section \<open>Every event keeps the invariant\<close>

text \<open>The faults left: the allocator's, and signed overflow of a time point.\<close>

definition environment_fault :: "fault \<Rightarrow> bool" where
  "environment_fault e \<longleftrightarrow> e = Bad_Alloc \<or> e = Signed_Overflow"

definition alloc_ok :: "((nat \<Rightarrow> 'c timer option) \<Rightarrow> nat option) \<Rightarrow> bool" where
  "alloc_ok alloc \<longleftrightarrow> (\<forall>h p. alloc h = Some p \<longrightarrow> h p = None \<and> 0 < p \<and> p < uintptr_max)"

text \<open>
  A wait is pending or a handler is about to run (\<open>watched\<close>).  While a handler runs only
  \<open>quiet\<close> holds: timers nobody waits for have a positive expiration, so that \<open>reset\<close>
  arms the wait for them.
\<close>

definition waiting :: "'c timer_queue \<Rightarrow> bool" where
  "waiting q \<longleftrightarrow> armed q \<noteq> None \<or> 0 < completed q"

definition watched :: "'c timer_queue \<Rightarrow> bool" where
  "watched q \<longleftrightarrow> waiting q \<or> timers q = []"

definition quiet :: "'c timer_queue \<Rightarrow> bool" where
  "quiet q \<longleftrightarrow> waiting q \<or> (\<forall>e\<in>set (timers q). vaild (fst e))"

definition keeps :: "'c timer_queue \<Rightarrow> 'c timer_queue \<Rightarrow> bool" where
  "keeps q q' \<longleftrightarrow> loopThread q' = loopThread q \<and> (watched q \<longrightarrow> watched q') \<and> (quiet q \<longrightarrow> quiet q')"

lemma keeps_refl [simp]: "keeps q q"
  by (simp add: keeps_def)

lemma keeps_trans: "keeps q q' \<Longrightarrow> keeps q' q'' \<Longrightarrow> keeps q q''"
  by (simp add: keeps_def)

lemma waiting_update [simp]:
  "waiting (q\<lparr>timers := ts\<rparr>) = waiting q" "waiting (q\<lparr>activeTimers := as\<rparr>) = waiting q"
  "waiting (q\<lparr>heap := h\<rparr>) = waiting q" "waiting (q\<lparr>tasks := k\<rparr>) = waiting q"
  "waiting (q\<lparr>cancelingTimers := c\<rparr>) = waiting q" "waiting (q\<lparr>callingExpiredTimers := b\<rparr>) = waiting q"
  "waiting (q\<lparr>s_numCreated := i\<rparr>) = waiting q" "waiting (q\<lparr>armed := Some d\<rparr>)"
  by (simp_all add: waiting_def)

lemma keeps_update [simp]:
  "keeps q (q\<lparr>heap := h\<rparr>)" "keeps q (q\<lparr>tasks := k\<rparr>)" "keeps q (q\<lparr>cancelingTimers := c\<rparr>)"
  "keeps q (q\<lparr>callingExpiredTimers := b\<rparr>)" "keeps q (q\<lparr>s_numCreated := i\<rparr>)"
  "keeps q (q\<lparr>armed := Some d\<rparr>)"
  by (simp_all add: keeps_def watched_def quiet_def)

text \<open>\<open>resetTimer\<close> arms the wait; it is never armed for longer than until \<open>when\<close> (or 100 us).\<close>

lemma resetTimer_ok:
  "ensures environment_fault (\<lambda>q'. \<exists>sec. q' = q\<lparr>armed := Some sec\<rparr> \<and> 0 \<le> sec \<and>
     sec * kMicroSecondsPerSecond \<le> max 100 (microSecondsSinceEpoch when - clock)) (resetTimer clock when q)"
proof -
  have "m div 1000000 * 1000000 \<le> m" for m :: int
    by (metis div_mult_mod_eq le_add_same_cancel1 pos_mod_sign zero_less_numeral)
  then show ?thesis
    by (auto simp: resetTimer_def checked_int64_def environment_fault_def TimerQueue_update_def Let_def
        kMicroSecondsPerSecond_def pos_imp_zdiv_nonneg_iff max_def not_less)
qed

lemma watched_quiet: "watched q \<Longrightarrow> quiet q"
  by (auto simp: watched_def quiet_def)

lemma addTimerInThisThread_ok:
  assumes ok: "queue_ok (p # X) q"
  shows "ensures environment_fault (\<lambda>q'. queue_ok X q' \<and> keeps q q' \<and> heap q' = heap q)
    (addTimerInThisThread clock p q)"
proof -
  obtain t where t: "heap q p = Some t" by (rule deref_taken [OF ok]) auto
  let ?first = "case timers q of [] \<Rightarrow> True | first # _ \<Rightarrow> expiration t < fst first"
  obtain q' where q': "TimerQueue_insert p q = Inr (?first, q')" "queue_ok X q'"
      "set (timers q') = insert (expiration t, p) (set (timers q))"
      "q' = q\<lparr>timers := timers q', activeTimers := activeTimers q'\<rparr>"
    by (rule TimerQueue_insert_ok [OF ok t]) blast
  have heap: "heap q' = heap q" and loop: "loopThread q' = loopThread q" and wait: "waiting q' = waiting q"
    by (subst q'(4), simp)+
  have d: "deref p q' = Inr t" using deref_ok [OF q'(2)] heap t by simp
  show ?thesis
  proof (cases ?first)
    case True
    have "ensures environment_fault (\<lambda>q''. queue_ok X q'' \<and> keeps q q'' \<and> heap q'' = heap q)
        (resetTimer clock (expiration t) q')"
      by (rule ensures_weaken [OF resetTimer_ok])
        (use q'(2) heap loop in \<open>auto simp: keeps_def watched_def quiet_def\<close>)
    then show ?thesis using True q'(1) d by (simp add: addTimerInThisThread_def)
  next
    case False
    then obtain f fs where f: "timers q = f # fs" "\<not> expiration t < fst f" by (cases "timers q") auto
    have "vaild (fst f) \<longrightarrow> vaild (expiration t)"
      using f(2) by (auto simp: vaild_def timestamp_less_iff)
    then have "keeps q q'"
      using f(1) loop wait q'(3) by (auto simp: keeps_def watched_def quiet_def)
    then show ?thesis using False q'(1,2) heap by (simp add: addTimerInThisThread_def)
  qed
qed

lemma cancelInThisThread_ok:
  assumes ok: "queue_ok X q"
  obtains q' where "cancelInThisThread i q = Inr q'" "queue_ok X q'" "keeps q q'"
proof (cases "(timer_ptr i, timer_seq i) \<in> set (activeTimers q)")
  case True
  obtain q' where q': "cancelInThisThread i q = Inr q'" "queue_ok X q'"
      "set (timers q') = {e \<in> set (timers q). snd e \<noteq> timer_ptr i}"
      "q' = q\<lparr>timers := timers q', heap := (heap q)(timer_ptr i := None), activeTimers := activeTimers q'\<rparr>"
    by (rule cancel_active [OF ok True]) blast
  have "loopThread q' = loopThread q" "waiting q' = waiting q" by (subst q'(4), simp)+
  then have "keeps q q'"
    using q'(3) by (cases "timers q") (auto simp: keeps_def watched_def quiet_def simp flip: set_empty)
  with that q' show ?thesis by blast
next
  case False
  then show ?thesis using that cancel_inactive [OF ok] ok by (cases "callingExpiredTimers q") auto
qed

lemma addTimer_dispatch_ok:
  assumes ok: "queue_ok X q" and alloc: "alloc_ok alloc"
  shows "ensures environment_fault (\<lambda>(p, q'). queue_ok X q' \<and> keeps q q' \<and> 0 < p \<and> p \<in> dom (heap q'))
    (addTimer_dispatch alloc tid clock cb when iv q)"
proof (cases "alloc (heap q)")
  case None
  then show ?thesis by (simp add: addTimer_dispatch_def environment_fault_def)
next
  case (Some p)
  let ?t = "\<lparr>expiration = when, interval = iv, repeat = (mantissa iv > 0), callback = cb,
    sequence = s_numCreated q + 1\<rparr>"
  let ?q = "q\<lparr>heap := (heap q)(p \<mapsto> ?t), s_numCreated := s_numCreated q + 1\<rparr>"
  have p: "heap q p = None" "0 < p" "p < uintptr_max" using alloc Some by (auto simp: alloc_ok_def)
  have taken: "queue_ok (p # X) ?q"
    using queue_ok_alloc [OF ok p, of ?t] by (simp add: timer_ok_def)
  have "keeps q ?q" by (rule keeps_trans [of _ "q\<lparr>heap := (heap q)(p \<mapsto> ?t)\<rparr>"]) simp_all
  then have run: "ensures environment_fault (\<lambda>q'. queue_ok X q' \<and> keeps q q' \<and> heap q' = heap ?q)
      (addTimerInThisThread clock p ?q)"
    by (intro ensures_weaken [OF addTimerInThisThread_ok [OF taken]]) (metis keeps_trans)
  have "keeps q (IOLoop_post (AddTask p) ?q)"
    unfolding IOLoop_post_def by (rule keeps_trans [OF \<open>keeps q ?q\<close>]) (rule keeps_update)
  moreover have "heap (IOLoop_post (AddTask p) ?q) = heap ?q" by (simp add: IOLoop_post_def)
  ultimately have "ensures environment_fault (\<lambda>q'. queue_ok X q' \<and> keeps q q' \<and> heap q' = heap ?q)
      (IOLoop_dispatch tid (run_task clock) (AddTask p) ?q)"
    using run queue_ok_post_add [OF taken]
    by (cases "isInLoopThread tid ?q") (simp_all only: IOLoop_dispatch_def run_task_def task.case if_True if_False ensures_Inr simp_thms)
  then show ?thesis
    unfolding addTimer_dispatch_def Some option.case Timer_new_simps Let_def split_conv
    using p(2) by - (erule ensures_and_then, auto)
qed

lemma addTimer_ok:
  assumes ok: "queue_ok X q" and alloc: "alloc_ok alloc"
  shows "ensures environment_fault (\<lambda>(_, q'). queue_ok X q' \<and> keeps q q') (addTimer alloc tid clock cb when iv q)"
  unfolding addTimer_def
  by (rule ensures_and_then [OF addTimer_dispatch_ok [OF ok alloc]]) (auto simp: addTimer_return_def deref_def)

lemma run_command_ok:
  assumes ok: "queue_ok X q" and alloc: "alloc_ok alloc"
  shows "ensures environment_fault (\<lambda>q'. queue_ok X q' \<and> keeps q q') (run_command alloc tid cmd q)"
proof (cases cmd)
  case (Add cb wh iv clock)
  then show ?thesis
    by (auto simp: run_command_def intro!: ensures_and_then [OF addTimer_ok [OF ok alloc]])
next
  case (Cancel i clock)
  obtain q' where "cancelInThisThread i q = Inr q'" "queue_ok X q'" "keeps q q'"
    by (rule cancelInThisThread_ok [OF ok]) blast
  moreover have "keeps q (IOLoop_post (CancelTask i) q)" by (simp add: IOLoop_post_def)
  ultimately show ?thesis
    using Cancel queue_ok_post_cancel [OF ok, of i]
    by (auto simp: run_command_def TimerQueue_cancel_def IOLoop_dispatch_def run_task_def)
qed

lemma keepsD: "keeps q q' \<Longrightarrow> quiet q \<Longrightarrow> quiet q'" "keeps q q' \<Longrightarrow> watched q \<Longrightarrow> watched q'"
  "keeps q q' \<Longrightarrow> loopThread q' = loopThread q"
  by (simp_all add: keeps_def)

lemma call_from_ok:
  assumes ok: "queue_ok X q" and alloc: "alloc_ok alloc"
  shows "ensures environment_fault (\<lambda>(ps, q'). queue_ok X q' \<and> keeps q q' \<and> 0 \<notin> set ps) (call_from alloc tid cmd q)"
proof -
  have run: "ensures environment_fault (\<lambda>(ps, q'). queue_ok X q' \<and> keeps q q' \<and> 0 \<notin> set ps)
      (and_then (run_command alloc tid cmd q) (\<lambda>q. Inr ([], q)))"
    by (rule ensures_and_then [OF run_command_ok [OF ok alloc]]) simp
  have "ensures environment_fault (\<lambda>(ps, q'). queue_ok X q' \<and> keeps q q' \<and> 0 \<notin> set ps)
      (and_then (addTimer_dispatch alloc tid clock cb when iv q) (\<lambda>(p, q). Inr ([p], q)))" for clock cb "when" iv
    by (rule ensures_and_then [OF addTimer_dispatch_ok [OF ok alloc]]) auto
  with run show ?thesis by (cases cmd) (simp_all add: call_from_def)
qed

lemma run_entry_ok:
  assumes ok: "queue_ok X (fst qw)" and e: "snd e \<in> set X" and alloc: "alloc_ok alloc"
  shows "ensures environment_fault (\<lambda>qw'. queue_ok X (fst qw') \<and> keeps (fst qw) (fst qw')) (run_entry alloc exec e qw)"
proof -
  obtain q w where qw: "qw = (q, w)" by (cases qw)
  obtain t where t: "deref (snd e) q = Inr t" using deref_taken [OF ok e] qw by (metis fst_conv)
  obtain cmds w' where ex: "exec (callback t) w = (cmds, w')" by (cases "exec (callback t) w")
  have "ensures environment_fault (\<lambda>q'. queue_ok X q' \<and> keeps q q')
      (fold_result (run_command alloc (loopThread q)) cmds q)"
  proof (rule ensures_fold_result)
    show "ensures environment_fault (\<lambda>q'. queue_ok X q' \<and> keeps q q') (run_command alloc (loopThread q) c s)"
      if "queue_ok X s \<and> keeps q s" for c s
      using that run_command_ok [OF _ alloc, of X s] keeps_trans [of q s]
      by (blast intro: ensures_weaken)
  qed (use ok qw in simp)
  then show ?thesis using t ex qw
    by (auto simp: run_entry_def intro!: ensures_and_then)
qed

lemma Timer_restart_ok:
  assumes "timer_ok t" and "vaild now"
  shows "ensures environment_fault (\<lambda>t'. timer_ok t' \<and> (repeat t \<longrightarrow> vaild (expiration t')))
    (Timer_restart now t)"
proof (cases "repeat t")
  case True
  have "ensures environment_fault vaild (addTime now (interval t))"
  proof (cases "addTime now (interval t)")
    case (Inl e)
    then show ?thesis by (auto simp: addTime_def checked_int64_def and_then_eq_Inl environment_fault_def split: if_splits)
  next
    case (Inr e)
    then have "now \<le> e" using addTime_mono assms(1) True by (force simp: timer_ok_def)
    then show ?thesis using Inr assms(2) by (simp add: vaild_def timestamp_le_iff)
  qed
  then show ?thesis using True assms(1)
    by (auto simp: Timer_restart_def timer_ok_def intro!: ensures_and_then)
next
  case False
  then show ?thesis by (simp add: Timer_restart_def timer_ok_def)
qed

lemma reset_entry_ok:
  assumes ok: "queue_ok (snd e # X) q" and now: "vaild now"
  shows "ensures environment_fault (\<lambda>q'. queue_ok X q' \<and> loopThread q' = loopThread q \<and> (quiet q \<longrightarrow> quiet q'))
    (reset_entry now e q)"
proof -
  let ?p = "snd e"
  obtain t where t: "heap q ?p = Some t" "deref ?p q = Inr t" by (rule deref_taken [OF ok]) auto
  show ?thesis
  proof (cases "repeat t \<and> (?p, sequence t) \<notin> set (cancelingTimers q)")
    case False
    have "reset_entry now e q = Inr (q\<lparr>heap := (heap q)(?p := None)\<rparr>)"
      using False t by (auto simp: reset_entry_def delete_timer_def)
    then show ?thesis using queue_ok_free [OF ok] by (simp add: quiet_def)
  next
    case True
    have tok: "timer_ok t" using queue_okD(9) [OF ok t(1)] by simp
    have "ensures environment_fault (\<lambda>q'. queue_ok X q' \<and> loopThread q' = loopThread q \<and> (quiet q \<longrightarrow> quiet q'))
        (and_then (TimerQueue_insert ?p (q\<lparr>heap := (heap q)(?p \<mapsto> t')\<rparr>)) (\<lambda>(_, q). Inr q))"
      if t': "timer_ok t'" "vaild (expiration t')" for t'
    proof -
      let ?q = "q\<lparr>heap := (heap q)(?p \<mapsto> t')\<rparr>"
      obtain b q' where q': "TimerQueue_insert ?p ?q = Inr (b, q')" "queue_ok X q'"
          "set (timers q') = insert (expiration t', ?p) (set (timers ?q))"
          "q' = ?q\<lparr>timers := timers q', activeTimers := activeTimers q'\<rparr>"
        by (rule TimerQueue_insert_ok [OF queue_ok_taken_update [OF ok t'(1)], of t']) auto
      have "loopThread q' = loopThread q" "waiting q' = waiting q" by (subst q'(4), simp)+
      then show ?thesis using q' t'(2) by (simp add: quiet_def)
    qed
    then have "ensures environment_fault (\<lambda>q'. queue_ok X q' \<and> loopThread q' = loopThread q \<and> (quiet q \<longrightarrow> quiet q'))
        (and_then (Timer_restart now t) (\<lambda>t'.
          and_then (TimerQueue_insert ?p (q\<lparr>heap := (heap q)(?p \<mapsto> t')\<rparr>)) (\<lambda>(_, q). Inr q)))"
      using True by (intro ensures_and_then [OF Timer_restart_ok [OF tok now]]) simp
    then show ?thesis using True t by (simp add: reset_entry_def)
  qed
qed

lemma reset_entries_ok:
  assumes "queue_ok (map snd es) q" and "vaild now"
  shows "ensures environment_fault (\<lambda>q'. queue_ok [] q' \<and> loopThread q' = loopThread q \<and> (quiet q \<longrightarrow> quiet q'))
    (fold_result (reset_entry now) es q)"
  using assms
proof (induction es arbitrary: q)
  case Nil
  then show ?case by simp
next
  case (Cons e es)
  have "queue_ok (snd e # map snd es) q" using Cons.prems by simp
  from reset_entry_ok [OF this Cons.prems(2)] show ?case
    by (auto elim!: ensures_and_then intro!: ensures_weaken [OF Cons.IH [OF _ Cons.prems(2)]])
qed

lemma TimerQueue_reset_ok:
  assumes "queue_ok (map snd es) q" and "vaild now" and "quiet q"
  shows "ensures environment_fault (\<lambda>q'. queue_ok [] q' \<and> loopThread q' = loopThread q \<and> watched q')
    (TimerQueue_reset clock es now q)"
  unfolding TimerQueue_reset_def
proof (rule ensures_and_then [OF reset_entries_ok [OF assms(1,2)]])
  fix r assume "queue_ok [] r \<and> loopThread r = loopThread q \<and> (quiet q \<longrightarrow> quiet r)"
  then have r: "queue_ok [] r" "loopThread r = loopThread q" "quiet r" using assms(3) by simp_all
  show "ensures environment_fault (\<lambda>q'. queue_ok [] q' \<and> loopThread q' = loopThread q \<and> watched q')
      (and_then (case timers r of [] \<Rightarrow> Inr Timestamp_default
          | first # _ \<Rightarrow> and_then (deref (snd first) r) (\<lambda>t. Inr (expiration t)))
        (\<lambda>nextExpire. if vaild nextExpire then resetTimer clock nextExpire r else Inr r))"
  proof (cases "timers r")
    case Nil
    then show ?thesis using r by (simp add: Timestamp_default_def vaild_def watched_def)
  next
    case (Cons f fs)
    obtain t where "deref (snd f) r = Inr t" "expiration t = fst f"
      using deref_timer [OF r(1), of f] Cons by (metis list.set_intros(1))
    moreover have "ensures environment_fault (\<lambda>q'. queue_ok [] q' \<and> loopThread q' = loopThread q \<and> watched q')
        (resetTimer clock (fst f) r)"
      by (rule ensures_weaken [OF resetTimer_ok]) (use r in \<open>auto simp: watched_def\<close>)
    moreover have "\<not> vaild (fst f) \<Longrightarrow> watched r" using r(3) Cons by (auto simp: quiet_def watched_def)
    ultimately show ?thesis using Cons r by simp
  qed
qed

lemma handleTimer_ok:
  assumes ok: "queue_ok [] (fst qw)" and now: "vaild now" and alloc: "alloc_ok alloc"
  shows "ensures environment_fault (\<lambda>qw'. queue_ok [] (fst qw') \<and> watched (fst qw'))
    (handleTimer alloc exec now clock qw)"
proof -
  obtain q w where qw: "qw = (q, w)" by (cases qw)
  let ?due = "filter (\<lambda>e. fst e \<le> now) (timers q)"
  obtain r where r: "getExpired now q = Inr (?due, r)" "queue_ok (map snd ?due) r"
      "timers r = filter (\<lambda>e. now < fst e) (timers q)"
    using getExpired_ok [of q now] ok qw by (metis fst_conv)
  let ?r = "r\<lparr>cancelingTimers := [], callingExpiredTimers := True\<rparr>"
  have "quiet ?r" using r(3) now by (auto simp: quiet_def vaild_def timestamp_less_iff)
  have "ensures environment_fault (\<lambda>qw. queue_ok (map snd ?due) (fst qw) \<and> quiet (fst qw))
      (fold_result (run_entry alloc exec) ?due (?r, w))"
  proof (rule ensures_fold_result)
    fix e and qw :: "'a timer_queue \<times> 'b"
    assume "e \<in> set ?due" "queue_ok (map snd ?due) (fst qw) \<and> quiet (fst qw)"
    then show "ensures environment_fault (\<lambda>qw. queue_ok (map snd ?due) (fst qw) \<and> quiet (fst qw))
        (run_entry alloc exec e qw)"
      by (intro ensures_weaken [OF run_entry_ok [OF _ _ alloc, of "map snd ?due"]]) (auto dest: keepsD)
  qed (use r(2) \<open>quiet ?r\<close> in simp)
  then show ?thesis
    unfolding handleTimer_def qw split_conv r(1) and_then_Inr
  proof (rule ensures_and_then)
    fix sw assume "queue_ok (map snd ?due) (fst sw) \<and> quiet (fst sw)"
    then have "queue_ok (map snd ?due) (fst sw\<lparr>callingExpiredTimers := False\<rparr>)"
        "quiet (fst sw\<lparr>callingExpiredTimers := False\<rparr>)"
      by (simp_all add: quiet_def)
    note reset = TimerQueue_reset_ok [OF this(1) now this(2), of clock]
    show "ensures environment_fault (\<lambda>qw'. queue_ok [] (fst qw') \<and> watched (fst qw'))
       (case sw of (q, w) \<Rightarrow> and_then (TimerQueue_reset clock ?due now (q\<lparr>callingExpiredTimers := False\<rparr>)) (\<lambda>q. Inr (q, w)))"
      unfolding case_prod_beta by (rule ensures_and_then [OF reset]) simp
  qed
qed

fun event_ok :: "'c event \<Rightarrow> bool" where
  "event_ok (Handle now clock) = vaild now"
| "event_ok _ = True"

definition loop_ok :: "('c, 'w) loop_state \<Rightarrow> bool" where
  "loop_ok s \<longleftrightarrow> queue_ok [] (fst s) \<and> watched (fst s) \<and> 0 \<notin> set (fst (snd s))"

lemma run_task_ok:
  assumes "queue_ok [] q" and "tasks q = cb # rest"
  shows "ensures environment_fault (\<lambda>q'. queue_ok [] q' \<and> keeps q q') (run_task clock cb (q\<lparr>tasks := rest\<rparr>))"
proof (cases cb)
  case (AddTask p)
  have "queue_ok [p] (q\<lparr>tasks := rest\<rparr>)" using queue_ok_take_add [OF assms(1)] assms(2) AddTask by simp
  from addTimerInThisThread_ok [OF this] show ?thesis
    unfolding run_task_def AddTask task.case
    by (rule ensures_weaken) (use keeps_trans [OF keeps_update(2) [of q rest]] in blast)
next
  case (CancelTask i)
  have "queue_ok [] (q\<lparr>tasks := rest\<rparr>)" using queue_ok_take_cancel [OF assms(1)] assms(2) CancelTask by simp
  then obtain q' where "cancelInThisThread i (q\<lparr>tasks := rest\<rparr>) = Inr q'" "queue_ok [] q'"
      "keeps (q\<lparr>tasks := rest\<rparr>) q'" by (rule cancelInThisThread_ok)
  then show ?thesis using CancelTask keeps_trans [OF keeps_update(2) [of q rest]] by (simp add: run_task_def)
qed

text \<open>
  A step that reads a deleted timer: the return of an \<open>addTimer\<close> in another thread, whose
  timer the loop has deleted meanwhile.
\<close>

definition late_return :: "'c event \<Rightarrow> ('c, 'w) loop_state \<Rightarrow> bool" where
  "late_return ev = (\<lambda>(q, r, w). \<exists>i. ev = AddReturns i \<and> i < length r \<and> heap q (r ! i) = None)"

lemma addTimer_return_late:
  assumes "loop_ok (q, r, w)" and "i < length r"
  shows "addTimer_return (r ! i) q = (case heap q (r ! i) of None \<Rightarrow> Inl Use_After_Free
    | Some t \<Rightarrow> Inr \<lparr>timer_ptr = r ! i, timer_seq = sequence t\<rparr>)"
proof -
  have "r ! i \<noteq> 0" using assms nth_mem [OF assms(2)] unfolding loop_ok_def by (metis fst_conv snd_conv)
  then show ?thesis by (simp add: addTimer_return_def deref_def split: option.split)
qed

lemma queue_event_late:
  assumes "loop_ok s" and "late_return ev s"
  shows "queue_event alloc exec ev s = Inl Use_After_Free"
proof -
  obtain q r w i where s: "s = (q, r, w)" "ev = AddReturns i" "i < length r" "heap q (r ! i) = None"
    using assms(2) by (auto simp: late_return_def)
  then show ?thesis using addTimer_return_late [of q r w i] assms(1) by (simp add: queue_event_def)
qed

lemma queue_event_ok:
  assumes ok: "loop_ok s" and ev: "event_ok ev" "\<not> late_return ev s" and alloc: "alloc_ok alloc"
  shows "ensures environment_fault loop_ok (queue_event alloc exec ev s)"
proof -
  obtain q r w where s: "s = (q, r, w)" and q: "queue_ok [] q" "watched q" "0 \<notin> set r"
    using ok by (cases s) (simp add: loop_ok_def)
  show ?thesis
  proof (cases ev)
    case (Call tid cmd)
    have "ensures environment_fault loop_ok (and_then (call_from alloc tid cmd q) (\<lambda>(ps, q). Inr (q, r @ ps, w)))"
      by (rule ensures_and_then [OF call_from_ok [OF q(1) alloc]]) (use q(2,3) keepsD in \<open>auto simp: loop_ok_def\<close>)
    then show ?thesis using Call s by (simp add: queue_event_def)
  next
    case (AddReturns i)
    have "loop_ok (q, take i r @ drop (Suc i) r, w)"
      using q by (auto simp: loop_ok_def dest: in_set_takeD in_set_dropD)
    then show ?thesis
      using AddReturns s ev(2) ok addTimer_return_late [of q r w i]
      by (auto simp: queue_event_def late_return_def)
  next
    case (RunTask clock)
    have "ensures environment_fault loop_ok (and_then (run_task clock cb (q\<lparr>tasks := rest\<rparr>)) (\<lambda>q. Inr (q, r, w)))"
      if "tasks q = cb # rest" for cb rest
      by (rule ensures_and_then [OF run_task_ok [OF q(1) that]]) (use q(2,3) keepsD in \<open>auto simp: loop_ok_def\<close>)
    then show ?thesis using RunTask s ok by (simp add: queue_event_def split: list.split)
  next
    case Expire
    then show ?thesis using s q
      by (auto simp: queue_event_def loop_ok_def watched_def waiting_def split: option.split)
  next
    case (Handle now clock)
    have "ensures environment_fault loop_ok
        (and_then (handleTimer alloc exec now clock (q\<lparr>completed := completed q - 1\<rparr>, w)) (\<lambda>(q, w). Inr (q, r, w)))"
      by (rule ensures_and_then [OF handleTimer_ok [OF _ _ alloc]])
        (use q ev(1) Handle in \<open>auto simp: loop_ok_def\<close>)
    then show ?thesis using Handle s ok by (simp add: queue_event_def)
  qed
qed

text \<open>A run goes well, meets a fault of the environment, or ends in a late return.\<close>

lemma queue_events_ok:
  assumes "loop_ok s" and "list_all event_ok evs" and "alloc_ok alloc"
  shows "case fold_result (queue_event alloc exec) evs s of
      Inl e \<Rightarrow> environment_fault e \<or> e = Use_After_Free \<and>
        (\<exists>es ev rest s'. evs = es @ ev # rest \<and> fold_result (queue_event alloc exec) es s = Inr s' \<and> late_return ev s')
    | Inr s' \<Rightarrow> loop_ok s'"
  using assms(1,2)
proof (induction evs arbitrary: s)
  case Nil
  then show ?case by simp
next
  case (Cons ev evs)
  show ?case
  proof (cases "late_return ev s")
    case True
    have "\<exists>es ev' rest s'. ev # evs = es @ ev' # rest \<and> fold_result (queue_event alloc exec) es s = Inr s' \<and>
        late_return ev' s'"
      by (rule exI [of _ "[]"]) (use True in auto)
    then show ?thesis using queue_event_late [OF Cons.prems(1) True, of alloc exec] by simp
  next
    case False
    note step = queue_event_ok [OF Cons.prems(1) _ False assms(3), of exec]
    show ?thesis
    proof (cases "queue_event alloc exec ev s")
      case (Inl e)
      then show ?thesis using step Cons.prems(2) by simp
    next
      case (Inr s1)
      have "loop_ok s1" using step Inr Cons.prems(2) by simp
      note IH = Cons.IH [OF this]
      show ?thesis
      proof (cases "fold_result (queue_event alloc exec) evs s1")
        case (Inr s2)
        then show ?thesis using IH Cons.prems(2) \<open>queue_event alloc exec ev s = Inr s1\<close> by simp
      next
        case (Inl e)
        have "\<exists>es ev' rest s'. ev # evs = es @ ev' # rest \<and> fold_result (queue_event alloc exec) es s = Inr s' \<and>
            late_return ev' s'"
          if "evs = es @ ev' # rest" "fold_result (queue_event alloc exec) es s1 = Inr s'" "late_return ev' s'"
          for es ev' rest s'
          by (intro exI [of _ "ev # es"] exI [of _ ev'] exI [of _ rest] exI [of _ s']) (use that Inr in simp)
        then show ?thesis using IH Cons.prems(2) \<open>queue_event alloc exec ev s = Inr s1\<close> Inl by auto
      qed
    qed
  qed
qed

lemma TimerQueue_delete_ok:
  assumes "queue_ok X q"
  obtains q' where "TimerQueue_delete q = Inr q'" "dom (heap q') = set X \<union> set (pending (tasks q))"
proof -
  have free: "\<exists>q'. fold_result (\<lambda>e. delete_timer (snd e)) es q = Inr q' \<and> dom (heap q') = dom (heap q) - snd ` set es"
    if "distinct (map snd es)" "snd ` set es \<subseteq> dom (heap q)" "0 \<notin> dom (heap q)" for es and q :: "'a timer_queue"
    using that
  proof (induction es arbitrary: q)
    case (Cons e es)
    let ?q = "q\<lparr>heap := (heap q)(snd e := None)\<rparr>"
    have e: "snd e \<in> dom (heap q)" "snd e \<noteq> 0" using Cons.prems by auto
    have "snd e \<notin> snd ` set es" using Cons.prems(1) by simp
    then have "distinct (map snd es)" "snd ` set es \<subseteq> dom (heap ?q)" "0 \<notin> dom (heap ?q)"
      using Cons.prems by (simp_all add: subset_iff) blast
    then have "\<exists>q'. fold_result (\<lambda>e. delete_timer (snd e)) es ?q = Inr q' \<and> dom (heap q') = dom (heap ?q) - snd ` set es"
      by (rule Cons.IH)
    moreover have "delete_timer (snd e) q = Inr ?q" using e by (auto simp: delete_timer_def deref_def)
    ultimately show ?case by auto
  qed simp
  have "distinct (map snd (timers q))"
    using queue_okD(1,3) [OF assms] stdset.elems_distinct by (simp add: distinct_map)
  moreover have "0 \<notin> dom (heap q)" using queue_okD(9) [OF assms] by blast
  moreover have "snd ` set (timers q) \<subseteq> dom (heap q)" using queue_okD(6) [OF assms] by blast
  ultimately obtain q' where "TimerQueue_delete q = Inr q'" "dom (heap q') = dom (heap q) - snd ` set (timers q)"
    using free [of "timers q" "q\<lparr>armed := None\<rparr>"] by (auto simp: TimerQueue_delete_def)
  moreover have "dom (heap q) - snd ` set (timers q) = set X \<union> set (pending (tasks q))"
    using queue_okD(5,6) [OF assms] by auto
  ultimately show ?thesis using that by simp
qed

lemma loop_ok_new: "loop_ok (TimerQueue_new tid, [], w)"
  by (simp add: loop_ok_def watched_def) (simp add: TimerQueue_new_def)

section \<open>Properties\<close>

text \<open>
  C1: the timer queue is memory safe but for the return of \<open>addTimer\<close> in another thread.
  Start from a new queue and let any events happen in any order: calls of \<open>addTimer\<close> and
  \<open>cancel\<close> from any thread with any arguments (stale and forged timer ids included),
  \<open>addTimer\<close> calls of other threads returning at any later moment, the loop running posted
  tasks, waits completing early or late, and handlers whose callbacks add and cancel timers in
  turn.  With an allocator that returns unused addresses and clocks after the epoch, no assertion
  of the code fails and no null timer is read.  What can go wrong is an exhausted allocator, an
  overflowing time point, and one use after free: an \<open>addTimer\<close> outside the loop thread that
  reads \<open>timer->sequence()\<close> after the loop has deleted the timer.  In every other run each
  allocated timer is either queued or in a task not run yet, the two sets have the same size, a
  wait is armed or a handler due whenever a timer is queued, and the destructor deletes every
  queued timer: what it leaves allocated is exactly the timers of the tasks not run.
\<close>

theorem timer_queue_safe:
  assumes "alloc_ok alloc" and "list_all event_ok evs"
  shows "case fold_result (queue_event alloc exec) evs (TimerQueue_new tid, [], w) of
      Inl e \<Rightarrow> environment_fault e \<or> e = Use_After_Free \<and>
        (\<exists>es i rest q r w'. evs = es @ AddReturns i # rest \<and>
          fold_result (queue_event alloc exec) es (TimerQueue_new tid, [], w) = Inr (q, r, w') \<and>
          i < length r \<and> heap q (r ! i) = None)
    | Inr (q, r, w') \<Rightarrow> dom (heap q) = snd ` set (timers q) \<union> set (pending (tasks q)) \<and>
        length (timers q) = length (activeTimers q) \<and>
        (timers q = [] \<or> armed q \<noteq> None \<or> 0 < completed q) \<and>
        (\<exists>q'. TimerQueue_delete q = Inr q' \<and> dom (heap q') = set (pending (tasks q)))"
proof (cases "fold_result (queue_event alloc exec) evs (TimerQueue_new tid, [], w)")
  case (Inl e)
  have "case fold_result (queue_event alloc exec) evs (TimerQueue_new tid, [], w) of
      Inl e \<Rightarrow> environment_fault e \<or> e = Use_After_Free \<and>
        (\<exists>es ev rest s'. evs = es @ ev # rest \<and>
          fold_result (queue_event alloc exec) es (TimerQueue_new tid, [], w) = Inr s' \<and> late_return ev s')
    | Inr s' \<Rightarrow> loop_ok s'"
    by (rule queue_events_ok [OF loop_ok_new assms(2,1)])
  then show ?thesis unfolding Inl sum.case late_return_def by fast
next
  case (Inr s)
  then obtain q r w' where s: "s = (q, r, w')" and q: "queue_ok [] q" "watched q"
    using queue_events_ok [OF loop_ok_new assms(2,1), of exec tid w] by (cases s) (simp add: loop_ok_def)
  obtain q' where "TimerQueue_delete q = Inr q'" "dom (heap q') = set (pending (tasks q))"
    using TimerQueue_delete_ok [OF q(1)] by auto
  then show ?thesis
    using Inr s q queue_okD(6) [OF q(1)] sizes_agree_ok(1) [OF q(1)] by (auto simp: watched_def waiting_def)
qed

definition one_cell :: "(nat \<Rightarrow> 'c timer option) \<Rightarrow> nat option" where
  "one_cell h = (if h 16 = None then Some 16 else None)"

lemma one_cell_ok: "alloc_ok one_cell"
  by (simp add: alloc_ok_def one_cell_def uintptr_max_def)

definition some_events :: "unit event list" where
  "some_events = [Call 7 (Add () (Timestamp 5) (Double 3 0) 1), RunTask 2, AddReturns 0, Expire,
     Handle (Timestamp 8) 9, Expire]"

definition cancel_first :: "unit \<Rightarrow> nat \<Rightarrow> unit command list \<times> nat" where
  "cancel_first c n = ([Cancel \<lparr>timer_ptr = 16, timer_seq = 1\<rparr> 9], n + 1)"

theorem timer_queue_safe_witness:
  "case fold_result (queue_event one_cell cancel_first) some_events (TimerQueue_new 0, [], 0 :: nat) of
      Inl e \<Rightarrow> environment_fault e \<or> e = Use_After_Free \<and>
        (\<exists>es i rest q r w'. some_events = es @ AddReturns i # rest \<and>
          fold_result (queue_event one_cell cancel_first) es (TimerQueue_new 0, [], 0) = Inr (q, r, w') \<and>
          i < length r \<and> heap q (r ! i) = None)
    | Inr (q, r, w') \<Rightarrow> dom (heap q) = snd ` set (timers q) \<union> set (pending (tasks q)) \<and>
        length (timers q) = length (activeTimers q) \<and>
        (timers q = [] \<or> armed q \<noteq> None \<or> 0 < completed q) \<and>
        (\<exists>q'. TimerQueue_delete q = Inr q' \<and> dom (heap q') = set (pending (tasks q)))"
  by (rule timer_queue_safe [OF one_cell_ok]) (simp add: some_events_def vaild_def)

text \<open>A concrete queue: one repeating timer, taken out or waiting.\<close>

definition ticking :: "unit timer" where
  "ticking = \<lparr>expiration = Timestamp 5, interval = Double 2 0, repeat = True, callback = (), sequence = 1\<rparr>"

definition one_taken :: "unit timer_queue" where
  "one_taken = (TimerQueue_new 0)\<lparr>heap := (\<lambda>_. None)(16 \<mapsto> ticking)\<rparr>"

lemma one_taken_ok: "queue_ok [16] one_taken"
  by (simp add: queue_ok_def one_taken_def TimerQueue_new_def active_of_def timer_ok_def ticking_def uintptr_max_def)

definition one_waiting :: "unit timer_queue" where
  "one_waiting = one_taken\<lparr>timers := [(Timestamp 5, 16)], activeTimers := [(16, 1)]\<rparr>"

lemma one_waiting_ok: "queue_ok [] one_waiting"
  by (simp add: queue_ok_def one_waiting_def one_taken_def TimerQueue_new_def active_of_def timer_ok_def
      ticking_def uintptr_max_def)

text \<open>
  C27: \<open>getExpired\<close> takes out exactly the timers due.  On a queue in its invariant it returns
  the entries whose expiration is at most \<open>now\<close>, in ascending order of expiration, leaves
  the later ones queued, deletes no timer, and passes its four assertions.
\<close>

theorem getExpired_spec:
  assumes "queue_ok [] q"
  shows "\<exists>q'. getExpired now q = Inr (filter (\<lambda>e. fst e \<le> now) (timers q), q') \<and>
    sorted (map fst (filter (\<lambda>e. fst e \<le> now) (timers q))) \<and>
    timers q' = filter (\<lambda>e. now < fst e) (timers q) \<and> heap q' = heap q \<and>
    queue_ok (map snd (filter (\<lambda>e. fst e \<le> now) (timers q))) q'"
proof -
  obtain q' where q': "getExpired now q = Inr (filter (\<lambda>e. fst e \<le> now) (timers q), q')"
      "queue_ok (map snd (filter (\<lambda>e. fst e \<le> now) (timers q))) q'"
      "timers q' = filter (\<lambda>e. now < fst e) (timers q)"
      "q' = q\<lparr>timers := timers q', activeTimers := activeTimers q'\<rparr>"
    by (rule getExpired_ok [OF assms, of now])
  have "sorted_wrt (\<lambda>a b. fst a \<le> fst b) (timers q)"
    by (rule sorted_wrt_mono_rel [OF _ queue_okD(1) [OF assms]]) (auto simp: less_prod_def' split: prod.splits)
  then have "sorted (map fst (filter (\<lambda>e. fst e \<le> now) (timers q)))"
    by (simp add: sorted_map sorted_wrt_filter)
  moreover have "heap q' = heap q" by (subst q'(4)) simp
  ultimately show ?thesis using q' by blast
qed

theorem getExpired_spec_witness:
  "\<exists>q'. getExpired (Timestamp 9) one_waiting =
      Inr (filter (\<lambda>e. fst e \<le> Timestamp 9) (timers one_waiting), q') \<and>
    sorted (map fst (filter (\<lambda>e. fst e \<le> Timestamp 9) (timers one_waiting))) \<and>
    timers q' = filter (\<lambda>e. Timestamp 9 < fst e) (timers one_waiting) \<and>
    heap q' = heap one_waiting \<and>
    queue_ok (map snd (filter (\<lambda>e. fst e \<le> Timestamp 9) (timers one_waiting))) q'"
  by (rule getExpired_spec [OF one_waiting_ok])

text \<open>
  C29: \<open>cancel\<close> in the loop thread.  A timer that is active under this id is freed, no longer
  queued, and every other timer stays as it was.  An id that is not active (never added, already
  run, or one whose address a younger timer now has) changes no timer: it is only remembered in
  \<open>cancelingTimers_\<close>, and only while callbacks run.
\<close>

theorem cancelInThisThread_spec:
  assumes "queue_ok X q"
  shows "\<exists>q'. cancelInThisThread i q = Inr q' \<and> queue_ok X q' \<and>
    (if (timer_ptr i, timer_seq i) \<in> set (activeTimers q)
     then heap q' = (heap q)(timer_ptr i := None) \<and> timer_ptr i \<notin> snd ` set (timers q') \<and>
       timers q' = filter (\<lambda>e. snd e \<noteq> timer_ptr i) (timers q)
     else heap q' = heap q \<and> timers q' = timers q \<and> activeTimers q' = activeTimers q \<and>
       set (cancelingTimers q') = (if callingExpiredTimers q then {(timer_ptr i, timer_seq i)} else {}) \<union>
         set (cancelingTimers q))"
proof (cases "(timer_ptr i, timer_seq i) \<in> set (activeTimers q)")
  case True
  obtain q' where q': "cancelInThisThread i q = Inr q'" "queue_ok X q'"
      "set (timers q') = {e \<in> set (timers q). snd e \<noteq> timer_ptr i}"
      "q' = q\<lparr>timers := timers q', heap := (heap q)(timer_ptr i := None), activeTimers := activeTimers q'\<rparr>"
    by (rule cancel_active [OF assms True]) blast
  have "timers q' = filter (\<lambda>e. snd e \<noteq> timer_ptr i) (timers q)"
    by (rule stdset.elems_unique)
      (use q'(3) queue_okD(1) [OF assms] queue_okD(1) [OF q'(2)] in \<open>simp_all add: sorted_wrt_filter\<close>)
  moreover have "heap q' = (heap q)(timer_ptr i := None)" by (subst q'(4)) simp
  ultimately show ?thesis using True q'(1,2) by auto
next
  case False
  then show ?thesis using cancel_inactive [OF assms False] assms
    by (auto simp: set_emplace_def set_insort_key)
qed

theorem cancelInThisThread_spec_witness:
  "\<exists>q'. cancelInThisThread \<lparr>timer_ptr = 16, timer_seq = 1\<rparr> one_waiting = Inr q' \<and> queue_ok [] q' \<and>
    heap one_waiting 16 = Some ticking \<and> heap q' = (heap one_waiting)(16 := None) \<and>
    16 \<notin> snd ` set (timers q') \<and> timers q' = []"
  using cancelInThisThread_spec [OF one_waiting_ok, of "\<lparr>timer_ptr = 16, timer_seq = 1\<rparr>"]
  by (simp add: one_waiting_def one_taken_def)

text \<open>Which expired timers \<open>reset\<close> queues again.\<close>

definition rearmed :: "'c timer_queue \<Rightarrow> nat \<Rightarrow> 'c timer \<Rightarrow> bool" where
  "rearmed q p t \<longleftrightarrow> heap q p = Some t \<and> repeat t \<and> (p, sequence t) \<notin> set (cancelingTimers q)"

lemma reset_entry_effect:
  assumes ok: "queue_ok (snd e # X) q" and r: "reset_entry now e q = Inr q'" and now: "vaild now"
  shows "queue_ok X q'" and "cancelingTimers q' = cancelingTimers q"
    and "p \<noteq> snd e \<Longrightarrow> heap q' p = heap q p"
    and "set (timers q') = set (timers q) \<union>
      {(e', snd e) |e' t. rearmed q (snd e) t \<and> addTime now (interval t) = Inr e'}"
    and "snd e \<in> dom (heap q') \<longleftrightarrow> (\<exists>t. rearmed q (snd e) t)"
proof -
  let ?p = "snd e"
  obtain t where t: "heap q ?p = Some t" "deref ?p q = Inr t" by (rule deref_taken [OF ok]) auto
  show "queue_ok X q'" using reset_entry_ok [OF ok now] r by (simp add: ensures_def)
  have "cancelingTimers q' = cancelingTimers q \<and> (p \<noteq> ?p \<longrightarrow> heap q' p = heap q p) \<and>
      set (timers q') = set (timers q) \<union> {(e', ?p) |e' t. rearmed q ?p t \<and> addTime now (interval t) = Inr e'} \<and>
      (?p \<in> dom (heap q') \<longleftrightarrow> (\<exists>t. rearmed q ?p t))" for p
  proof (cases "rearmed q ?p t")
    case False
    then have "q' = q\<lparr>heap := (heap q)(?p := None)\<rparr>"
      using r t by (auto simp: reset_entry_def delete_timer_def rearmed_def)
    then show ?thesis using False t by (auto simp: rearmed_def)
  next
    case True
    then obtain e' where e': "addTime now (interval t) = Inr e'"
      using r t by (auto simp: reset_entry_def rearmed_def Timer_restart_def and_then_eq_Inr)
    let ?t = "t\<lparr>expiration := e'\<rparr>" and ?q = "q\<lparr>heap := (heap q)(?p \<mapsto> t\<lparr>expiration := e'\<rparr>)\<rparr>"
    have "timer_ok ?t" using queue_okD(9) [OF ok t(1)] by (simp add: timer_ok_def)
    from queue_ok_taken_update [OF ok this] obtain b r' where r': "TimerQueue_insert ?p ?q = Inr (b, r')"
        "set (timers r') = insert (e', ?p) (set (timers q))"
        "r' = ?q\<lparr>timers := timers r', activeTimers := activeTimers r'\<rparr>"
      by (rule TimerQueue_insert_ok [of _ _ _ ?t]) auto
    have "q' = r'" using r t True e' r'(1) by (simp add: reset_entry_def rearmed_def Timer_restart_def)
    moreover have "cancelingTimers r' = cancelingTimers q" "heap r' = heap ?q" by (subst r'(3), simp)+
    moreover have "rearmed q ?p u \<longleftrightarrow> u = t" for u using True by (auto simp: rearmed_def)
    ultimately show ?thesis using r'(2) e' by auto
  qed
  then show "cancelingTimers q' = cancelingTimers q" "p \<noteq> ?p \<Longrightarrow> heap q' p = heap q p"
    "set (timers q') = set (timers q) \<union> {(e', ?p) |e' t. rearmed q ?p t \<and> addTime now (interval t) = Inr e'}"
    "?p \<in> dom (heap q') \<longleftrightarrow> (\<exists>t. rearmed q ?p t)" by blast+
qed

text \<open>
  \<open>reset\<close> queues again exactly the repeating timers nobody cancelled.  Of the timers just
  run, one that repeats and whose id is not in \<open>cancelingTimers_\<close> is queued at \<open>now\<close> plus
  its interval; every other one is deleted; the timers queued meanwhile stay.
\<close>

theorem reset_entries_spec:
  assumes "queue_ok (map snd es) q" and "vaild now" and "fold_result (reset_entry now) es q = Inr q'"
  shows "set (timers q') = set (timers q) \<union>
      {(e', p) |e' p t. p \<in> snd ` set es \<and> rearmed q p t \<and> addTime now (interval t) = Inr e'} \<and>
    dom (heap q') = dom (heap q) - {p \<in> snd ` set es. \<not> (\<exists>t. rearmed q p t)}"
  using assms
proof (induction es arbitrary: q)
  case Nil
  then show ?case by simp
next
  case (Cons e es)
  have ok: "queue_ok (snd e # map snd es) q" using Cons.prems(1) by simp
  obtain r where r: "reset_entry now e q = Inr r" "fold_result (reset_entry now) es r = Inr q'"
    using Cons.prems(3) by (auto simp: and_then_eq_Inr)
  note eff = reset_entry_effect [OF ok r(1) Cons.prems(2)]
  have IH: "set (timers q') = set (timers r) \<union>
      {(e', p) |e' p t. p \<in> snd ` set es \<and> rearmed r p t \<and> addTime now (interval t) = Inr e'}"
    "dom (heap q') = dom (heap r) - {p \<in> snd ` set es. \<not> (\<exists>t. rearmed r p t)}"
    using Cons.IH [OF eff(1) Cons.prems(2) r(2)] by simp_all
  have new: "snd e \<notin> snd ` set es" using queue_okD(4) [OF ok] by simp
  have same: "rearmed r p t = rearmed q p t" if "p \<in> snd ` set es" for p t
  proof -
    have "p \<noteq> snd e" using that new by blast
    from eff(3) [OF this] show ?thesis by (simp add: rearmed_def eff(2))
  qed
  have "{(e', p) |e' p t. p \<in> snd ` set es \<and> rearmed r p t \<and> addTime now (interval t) = Inr e'} =
      {(e', p) |e' p t. p \<in> snd ` set es \<and> rearmed q p t \<and> addTime now (interval t) = Inr e'}"
    using same by blast
  moreover have "{p \<in> snd ` set es. \<not> (\<exists>t. rearmed r p t)} = {p \<in> snd ` set es. \<not> (\<exists>t. rearmed q p t)}"
    using same by blast
  moreover have "dom (heap r) = dom (heap q) - (if \<exists>t. rearmed q (snd e) t then {} else {snd e})"
  proof -
    have "p \<in> dom (heap r) \<longleftrightarrow> p \<in> dom (heap q) - (if \<exists>t. rearmed q (snd e) t then {} else {snd e})" for p
    proof (cases "p = snd e")
      case True
      then show ?thesis using eff(5) by (auto simp: rearmed_def)
    next
      case False
      then show ?thesis using eff(3) [of p] by (auto simp: dom_def)
    qed
    then show ?thesis by blast
  qed
  ultimately show ?case unfolding IH eff(4) by auto
qed

lemma one_taken_reset:
  "fold_result (reset_entry (Timestamp 7)) [(Timestamp 5, 16)] one_taken =
     Inr (one_taken\<lparr>heap := (\<lambda>_. None)(16 \<mapsto> ticking\<lparr>expiration := Timestamp 2000007\<rparr>),
       timers := [(Timestamp 2000007, 16)], activeTimers := [(16, 1)]\<rparr>)"
proof -
  have "addTime (Timestamp 7) (Double 2 0) = Inr (Timestamp 2000007)"
    using addTime_whole_seconds [of 2 "Timestamp 7"] by (simp add: double_of_int_def in_int64_def)
  then show ?thesis
    by (simp add: reset_entry_def deref_def one_taken_def TimerQueue_new_def ticking_def Timer_restart_def
        TimerQueue_insert_def sizes_agree_def set_emplace_def)
qed

theorem reset_entries_spec_witness:
  "set (timers (one_taken\<lparr>heap := (\<lambda>_. None)(16 \<mapsto> ticking\<lparr>expiration := Timestamp 2000007\<rparr>),
       timers := [(Timestamp 2000007, 16)], activeTimers := [(16, 1)]\<rparr>)) =
     set (timers one_taken) \<union> {(e', p) |e' p t. p \<in> snd ` set [(Timestamp 5, 16)] \<and> rearmed one_taken p t \<and>
       addTime (Timestamp 7) (interval t) = Inr e'}"
  by (rule conjunct1 [OF reset_entries_spec [OF _ _ one_taken_reset]])
    (simp_all add: vaild_def one_taken_ok)

text \<open>
  a timer due within a second makes the loop spin.  \<open>resetTimer\<close> divides the
  microseconds to go by a million and waits whole seconds, so a wait of less than a second is
  armed with 0: its handler finds nothing expired, runs no callback and arms 0 again.
\<close>

theorem short_wait_spins:
  assumes "queue_ok [] q" and "timers q = (when, p) # rest" and "now < when" and "vaild now"
    and "in_int64 (microSecondsSinceEpoch when - clock)" and "microSecondsSinceEpoch when - clock < 1000000"
  shows "\<exists>q'. handleTimer alloc exec now clock (q, w) = Inr (q', w) \<and>
    timers q' = timers q \<and> heap q' = heap q \<and> armed q' = Some 0"
proof -
  have least: "when \<le> fst e" if "e \<in> set (timers q)" for e
    using stdset.first_is_least [OF queue_okD(1) [OF assms(1)] assms(2) that]
    by (cases e) (auto simp: less_eq_prod_def)
  have none: "filter (\<lambda>e. fst e \<le> now) (timers q) = []" "filter (\<lambda>e. now < fst e) (timers q) = timers q"
    using least assms(3) by (force simp: filter_empty_conv filter_id_conv)+
  obtain r where r: "getExpired now q = Inr ([], r)" "queue_ok [] r" "timers r = timers q"
      "r = q\<lparr>timers := timers r, activeTimers := activeTimers r\<rparr>"
    using getExpired_ok [OF assms(1), of now] none by auto
  obtain t where t: "heap r p = Some t" "deref p r = Inr t" "expiration t = when"
    using deref_timer [OF r(2), of "(when, p)"] r(3) assms(2) by auto
  have "vaild when" using assms(3,4) by (auto simp: vaild_def timestamp_less_iff)
  moreover have "heap r = heap q" by (subst r(4)) simp
  moreover have "0 \<le> max 100 d \<Longrightarrow> max 100 d < 1000000 \<Longrightarrow> max 100 d div 1000000 = 0" for d :: int
    by (rule div_pos_pos_trivial)
  ultimately show ?thesis
    using r(1,3) t assms(2,5,6)
    by (auto simp: handleTimer_def TimerQueue_reset_def deref_def resetTimer_def checked_int64_def
        TimerQueue_update_def kMicroSecondsPerSecond_def split: if_splits)
qed

theorem short_wait_spins_witness:
  "\<exists>q'. handleTimer one_cell (\<lambda>_ w. ([], w)) (Timestamp 3) 3 (one_waiting, ()) = Inr (q', ()) \<and>
    timers q' = timers one_waiting \<and> heap q' = heap one_waiting \<and> armed q' = Some 0"
  by (rule short_wait_spins [OF one_waiting_ok, of "Timestamp 5" 16 "[]"])
    (simp_all add: one_waiting_def timestamp_less_iff vaild_def in_int64_def)

text \<open>
  \<open>addTimer\<close> called outside the loop thread may read a deleted timer.  The timer is the
  loop's as soon as it is dispatched; when the loop runs the task, the wait and the handler of a
  timer that is already due before the caller reaches \<open>return TimerId(timer,
  timer->sequence())\<close>, the timer has been deleted.
\<close>

theorem addTimer_other_thread_race:
  assumes "tid \<noteq> 0" and "Timestamp 0 < when" and "when \<le> now" and "in_int64 (microSecondsSinceEpoch when)"
  shows "fold_result (queue_event one_cell (\<lambda>_ w. ([], w)))
      [Call tid (Add cb when (Double 0 0) clk), RunTask 0, Expire, Handle now c, AddReturns 0]
      (TimerQueue_new 0, [], ()) = Inl Use_After_Free"
proof -
  have le: "(when, 16) < (now, uintptr_max)"
    using assms(3) by (auto simp: less_prod_def' uintptr_max_def le_less)
  show ?thesis using assms(1,2,4) le
    by (simp add: addTimer_dispatch_def one_cell_def IOLoop_dispatch_def isInLoopThread_def TimerQueue_new_def
        IOLoop_post_def queue_event_def call_from_def run_task_def addTimerInThisThread_def TimerQueue_insert_def
        sizes_agree_def deref_def set_emplace_def resetTimer_def checked_int64_def TimerQueue_update_def
        handleTimer_def getExpired_def set_split_def set_erase_def run_entry_def TimerQueue_reset_def
        reset_entry_def delete_timer_def Timestamp_default_def vaild_def addTimer_return_def)
qed

theorem addTimer_other_thread_race_witness:
  "fold_result (queue_event one_cell (\<lambda>_ w. ([], w)))
      [Call 1 (Add () (Timestamp 5) (Double 0 0) 5), RunTask 0, Expire, Handle (Timestamp 6) 6, AddReturns 0]
      (TimerQueue_new 0, [], ()) = Inl Use_After_Free"
  by (rule addTimer_other_thread_race) (simp_all add: timestamp_less_iff timestamp_le_iff in_int64_def)

end
