(* ===== verification/Event_Loop.thy ===== *)
theory Event_Loop
  imports Timer_Queue
begin

text \<open>
  \<open>Net/IOLoop.h/.cpp\<close>: one loop per thread, checks that an operation runs in the loop's
  thread, \<open>loop\<close> and \<open>quit\<close>, and the timer calls that delegate to the queue of
  \<open>Timer_Queue\<close>.  The handlers given to asio's \<open>io_context\<close> are the list \<open>posted\<close>; in
  which order its \<open>run\<close> takes them is asio's business, so \<open>run\<close> is a parameter of \<open>loop\<close>.
  The handlers other components post are values of a parameter type.
\<close>

section \<open>State\<close>

datatype 'h handler = QuitInThisThread | Handler 'h

record 'h io_loop =
  threadId :: nat
  posted :: "'h handler list"
  work :: bool
  stopped :: bool
  quit_set :: bool

text \<open>\<open>t_inThisThreadLoop\<close>: the threads that have created a loop.\<close>

type_synonym loop_threads = "nat set"

definition IOLoop_new :: "nat \<Rightarrow> loop_threads \<Rightarrow> ('h io_loop \<times> loop_threads) result" where
  "IOLoop_new tid inThisThreadLoop = (if tid \<in> inThisThreadLoop then Inl Fatal_Log
     else Inr (\<lparr>threadId = tid, posted = [], work = True, stopped = False, quit_set = False\<rparr>,
               insert tid inThisThreadLoop))"

definition inLoopThread :: "nat \<Rightarrow> 'h io_loop \<Rightarrow> bool" where
  "inLoopThread tid l \<longleftrightarrow> tid = threadId l"

definition abortNotInLoopThread :: "'h io_loop result" where
  "abortNotInLoopThread = Inl Fatal_Log"

definition assertInLoopThread :: "nat \<Rightarrow> 'h io_loop \<Rightarrow> 'h io_loop result" where
  "assertInLoopThread tid l = (if \<not> inLoopThread tid l then abortNotInLoopThread else Inr l)"

definition loop_post :: "'h handler \<Rightarrow> 'h io_loop \<Rightarrow> 'h io_loop" where
  "loop_post cb l = l\<lparr>posted := posted l @ [cb]\<rparr>"

definition loop_dispatch ::
  "nat \<Rightarrow> ('s \<Rightarrow> 's result) \<Rightarrow> 'h handler \<Rightarrow> 'h io_loop \<times> 's \<Rightarrow> ('h io_loop \<times> 's) result" where
  "loop_dispatch tid run cb = (\<lambda>(l, s).
     if inLoopThread tid l then and_then (run s) (\<lambda>s. Inr (l, s)) else Inr (loop_post cb l, s))"

definition quit :: "'h io_loop \<Rightarrow> 'h io_loop" where
  "quit l = loop_post QuitInThisThread (l\<lparr>quit_set := True\<rparr>)"

definition quitInThisThread :: "nat \<Rightarrow> 'h io_loop \<Rightarrow> 'h io_loop result" where
  "quitInThisThread tid l = and_then (assertInLoopThread tid l) (\<lambda>l.
     Inr (l\<lparr>work := False, stopped := True\<rparr>))"

text \<open>
  The destructor's \<open>quit\<close>.  It leaves \<open>t_inThisThreadLoop\<close> set.
\<close>

definition IOLoop_delete :: "'h io_loop \<times> loop_threads \<Rightarrow> 'h io_loop \<times> loop_threads" where
  "IOLoop_delete = (\<lambda>(l, inThisThreadLoop). (if \<not> quit_set l then quit l else l, inThisThreadLoop))"

text \<open>\<open>ioContext_run\<close> is \<open>io_context::run\<close>; \<open>None\<close> when it does not return.\<close>

definition loop ::
  "('h io_loop \<Rightarrow> 's \<Rightarrow> ('h io_loop \<times> 's) result option) \<Rightarrow> nat \<Rightarrow> 'h io_loop \<Rightarrow> 's \<Rightarrow>
    ('h io_loop \<times> 's) result option" where
  "loop ioContext_run tid l s = (case assertInLoopThread tid l of
     Inl e \<Rightarrow> Some (Inl e)
   | Inr l \<Rightarrow> ioContext_run l s)"

section \<open>Timers of a loop\<close>

definition runAt ::
  "((nat \<Rightarrow> 'c timer option) \<Rightarrow> nat option) \<Rightarrow> nat \<Rightarrow> int \<Rightarrow> timestamp \<Rightarrow> 'c \<Rightarrow> 'c timer_queue \<Rightarrow>
    (timer_id \<times> 'c timer_queue) result" where
  "runAt alloc tid clock when cb q = addTimer alloc tid clock cb when (Double 0 0) q"

definition runAfter ::
  "((nat \<Rightarrow> 'c timer option) \<Rightarrow> nat option) \<Rightarrow> nat \<Rightarrow> int \<Rightarrow> timestamp \<Rightarrow> double \<Rightarrow> 'c \<Rightarrow> 'c timer_queue \<Rightarrow>
    (timer_id \<times> 'c timer_queue) result" where
  "runAfter alloc tid clock now delay cb q =
     and_then (addTime now delay) (\<lambda>time. runAt alloc tid clock time cb q)"

definition runEvery ::
  "((nat \<Rightarrow> 'c timer option) \<Rightarrow> nat option) \<Rightarrow> nat \<Rightarrow> int \<Rightarrow> timestamp \<Rightarrow> double \<Rightarrow> 'c \<Rightarrow> 'c timer_queue \<Rightarrow>
    (timer_id \<times> 'c timer_queue) result" where
  "runEvery alloc tid clock now iv cb q =
     and_then (addTime now iv) (\<lambda>time. addTimer alloc tid clock cb time iv q)"

definition loop_cancel :: "nat \<Rightarrow> int \<Rightarrow> timer_id \<Rightarrow> 'c timer_queue \<Rightarrow> 'c timer_queue result" where
  "loop_cancel tid clock timerId q = TimerQueue_cancel tid clock timerId q"

section \<open>Lemmas\<close>

lemmas loop_thread_defs = assertInLoopThread_def inLoopThread_def abortNotInLoopThread_def

section \<open>Properties\<close>

text \<open>
  loops belong to their threads.  \<open>loop\<close> in another thread than the loop's aborts, and
  so does the quit handler; a thread that created a loop can never create another, not even
  after the first was destroyed, because nothing resets \<open>t_inThisThreadLoop\<close>.
\<close>

theorem loop_thread_guards:
  "(tid \<noteq> threadId l \<longrightarrow> loop run tid l s = Some (Inl Fatal_Log) \<and> quitInThisThread tid l = Inl Fatal_Log) \<and>
   (\<forall>l' ts'. IOLoop_new tid ts = Inr (l', ts') \<longrightarrow>
      threadId l' = tid \<and> IOLoop_new tid (snd (IOLoop_delete (l', ts'))) = Inl Fatal_Log)"
  by (auto simp: loop_def loop_thread_defs quitInThisThread_def IOLoop_new_def IOLoop_delete_def split: if_splits)

theorem loop_thread_guards_witness:
  "loop (\<lambda>l s. Some (Inr (l, s))) 1 \<lparr>threadId = 0, posted = [Handler ()], work = True, stopped = False, quit_set = False\<rparr> () =
    Some (Inl Fatal_Log)"
  by (rule loop_thread_guards [THEN conjunct1, THEN mp, THEN conjunct1]) simp

text \<open>
  \<open>runEvery\<close> in the loop thread.  With whole seconds the timer is queued under the id
  returned, due one interval from now, repeating with that interval.
\<close>

theorem runEvery_spec:
  assumes ok: "queue_ok [] q" and alloc: "alloc_ok alloc" and secs: "0 < n" "n < 9000000000"
    and range: "in_int64 (microSecondsSinceEpoch now + n * 1000000)"
    and r: "runEvery alloc (loopThread q) clock now (double_of_int n) cb q = Inr (i, q')"
  shows "queue_ok [] q' \<and> (\<exists>t. heap q' (timer_ptr i) = Some t \<and> sequence t = timer_seq i \<and> repeat t \<and>
    callback t = cb \<and> expiration t = Timestamp (microSecondsSinceEpoch now + n * 1000000))"
proof -
  let ?at = "Timestamp (microSecondsSinceEpoch now + n * 1000000)"
  have add: "addTimer alloc (loopThread q) clock cb ?at (double_of_int n) q = Inr (i, q')"
    using r addTime_whole_seconds [of n now] secs range by (simp add: runEvery_def)
  then have "queue_ok [] q'" using addTimer_ok [OF ok alloc, of "loopThread q" clock cb ?at "double_of_int n"] by simp
  obtain p where p: "alloc (heap q) = Some p" "heap q p = None" "0 < p" "p < uintptr_max"
    using add alloc by (auto simp: addTimer_def addTimer_dispatch_def alloc_ok_def split: option.splits)
  define t where "t = \<lparr>expiration = ?at, interval = double_of_int n, repeat = True, callback = cb,
    sequence = s_numCreated q + 1\<rparr>"
  define qa where "qa = q\<lparr>heap := (heap q)(p \<mapsto> t), s_numCreated := s_numCreated q + 1\<rparr>"
  have taken: "queue_ok [p] qa"
    using queue_ok_alloc [OF ok p(2,3,4), of t] secs(1) by (simp add: qa_def t_def timer_ok_def double_of_int_def)
  obtain q1 where q1: "addTimerInThisThread clock p qa = Inr q1" "addTimer_return p q1 = Inr i" "q' = q1"
    using add p(1) secs(1)
    by (auto simp: addTimer_def addTimer_dispatch_def IOLoop_dispatch_def isInLoopThread_def run_task_def
        qa_def t_def double_of_int_def and_then_eq_Inr)
  have "heap q1 = heap qa" using addTimerInThisThread_ok [OF taken, of clock] q1(1) by (simp add: ensures_def)
  then show ?thesis using \<open>queue_ok [] q'\<close> q1(2,3) p(3)
    by (auto simp: addTimer_return_def deref_def qa_def t_def)
qed

definition ticking_queue :: "unit timer_queue" where
  "ticking_queue = (TimerQueue_new 0)\<lparr>heap := (\<lambda>_. None)(16 \<mapsto>
      \<lparr>expiration = Timestamp 2000007, interval = Double 2 0, repeat = True, callback = (), sequence = 1\<rparr>),
     s_numCreated := 1, timers := [(Timestamp 2000007, 16)], activeTimers := [(16, 1)], armed := Some 2\<rparr>"

theorem runEvery_spec_witness:
  "queue_ok [] ticking_queue \<and> (\<exists>t. heap ticking_queue 16 = Some t \<and> sequence t = 1 \<and> repeat t \<and>
    callback t = () \<and> expiration t = Timestamp (7 + 2 * 1000000))"
proof -
  have t: "addTime (Timestamp 7) (double_of_int 2) = Inr (Timestamp 2000007)"
    using addTime_whole_seconds [of 2 "Timestamp 7"] by (simp add: in_int64_def)
  have "runEvery one_cell 0 0 (Timestamp 7) (double_of_int 2) () (TimerQueue_new 0) =
      Inr (\<lparr>timer_ptr = 16, timer_seq = 1\<rparr>, ticking_queue)"
    unfolding runEvery_def t
    by (simp add: addTimer_def addTimer_dispatch_def one_cell_def IOLoop_dispatch_def isInLoopThread_def
        TimerQueue_new_def run_task_def addTimerInThisThread_def TimerQueue_insert_def sizes_agree_def deref_def
        set_emplace_def resetTimer_def checked_int64_def in_int64_def TimerQueue_update_def addTimer_return_def
        ticking_queue_def double_of_int_def kMicroSecondsPerSecond_def)
  then show ?thesis
    using runEvery_spec [of "TimerQueue_new 0" one_cell 2 "Timestamp 7" 0 "()" "\<lparr>timer_ptr = 16, timer_seq = 1\<rparr>"]
    by (simp add: one_cell_ok in_int64_def) (simp add: TimerQueue_new_def)
qed

end
