(* ===== verification/Loop_Pool.thy ===== *)
theory Loop_Pool
  imports Event_Loop "HOL-Library.Multiset"
begin

text \<open>
  \<open>Net/IOLoopThreadPool.h/.cpp\<close>: the pool of I/O loops a server spreads its connections
  over, by round robin or by file descriptor.  Loops are named by their address; starting a
  thread (\<open>IOLoopThread::start\<close>) is a parameter that returns the new loop's address.
\<close>

section \<open>State and operations\<close>

record loop_pool =
  baseLoop :: nat
  baseThread :: nat
  threads :: "nat list"
  io_contexts :: "nat list"
  next_index :: "32 word"
  started :: bool
  numThreads :: "32 word"

definition IOLoopThreadPool_new :: "nat \<Rightarrow> nat \<Rightarrow> loop_pool" where
  "IOLoopThreadPool_new base tid = \<lparr>baseLoop = base, baseThread = tid, threads = [], io_contexts = [],
     next_index = 0, started = False, numThreads = 0\<rparr>"

definition setThreadNum :: "int32 \<Rightarrow> loop_pool \<Rightarrow> loop_pool" where
  "setThreadNum n p = p\<lparr>numThreads := n\<rparr>"

text \<open>The \<open>i\<close>-th thread's loop is \<open>start i\<close> (0 for a null pointer, which the assertion refuses).\<close>

definition pool_add :: "(nat \<Rightarrow> nat) \<Rightarrow> nat \<Rightarrow> loop_pool \<Rightarrow> loop_pool result" where
  "pool_add start i p = (if start i = 0 then Inl Assert_Failed
     else Inr (p\<lparr>threads := threads p @ [i], io_contexts := io_contexts p @ [start i]\<rparr>))"

definition pool_run :: "(nat \<Rightarrow> nat) \<Rightarrow> loop_pool \<Rightarrow> loop_pool result" where
  "pool_run start p = (if started p then Inl Assert_Failed
     else fold_result (pool_add start) [0..<unat (numThreads p)] (p\<lparr>started := True\<rparr>))"

definition pool_guard :: "nat \<Rightarrow> loop_pool \<Rightarrow> loop_pool result" where
  "pool_guard tid p = (if tid \<noteq> baseThread p then Inl Fatal_Log
     else if \<not> started p then Inl Assert_Failed else Inr p)"

definition getNextLoop :: "nat \<Rightarrow> loop_pool \<Rightarrow> (nat \<times> loop_pool) result" where
  "getNextLoop tid p = and_then (pool_guard tid p) (\<lambda>p.
     if io_contexts p = [] then Inr (baseLoop p, p)
     else if unat (next_index p) \<ge> length (io_contexts p) then Inl Out_Of_Bounds
     else let l = io_contexts p ! unat (next_index p);
              n = next_index p + 1;
              n = (if unat n \<ge> length (io_contexts p) then 0 else n)
          in Inr (l, p\<lparr>next_index := n\<rparr>))"

text \<open>The overload on a descriptor: an \<open>int\<close> converted to \<open>size_t\<close> for the modulus.\<close>

definition getNextLoop_fd :: "nat \<Rightarrow> int32 \<Rightarrow> loop_pool \<Rightarrow> nat result" where
  "getNextLoop_fd tid fd p = and_then (pool_guard tid p) (\<lambda>p.
     if io_contexts p = [] then Inr (baseLoop p)
     else Inr (io_contexts p ! (size_of_int (sint fd) mod length (io_contexts p))))"

definition getAllIOContext :: "loop_pool \<Rightarrow> nat list result" where
  "getAllIOContext p = (if \<not> started p then Inl Assert_Failed
     else if io_contexts p = [] then Inr (replicate 1 (baseLoop p)) else Inr (io_contexts p))"

text \<open>The destructor stops the threads in the order they were started.\<close>

definition IOLoopThreadPool_delete :: "loop_pool \<Rightarrow> nat list" where
  "IOLoopThreadPool_delete p = threads p"

section \<open>Lemmas\<close>

definition pool_ok :: "loop_pool \<Rightarrow> bool" where
  "pool_ok p \<longleftrightarrow> length (io_contexts p) = length (threads p) \<and> length (io_contexts p) < 2 ^ 32 \<and>
     (io_contexts p \<noteq> [] \<longrightarrow> unat (next_index p) < length (io_contexts p))"

lemma pool_add_all:
  assumes "\<forall>i\<in>set is. start i \<noteq> 0"
  shows "fold_result (pool_add start) is p =
    Inr (p\<lparr>threads := threads p @ is, io_contexts := io_contexts p @ map start is\<rparr>)"
  using assms by (induction "is" arbitrary: p) (simp_all add: pool_add_def)

lemma getNextLoop_ok:
  assumes "pool_ok p" and "started p" and "io_contexts p \<noteq> []"
  shows "getNextLoop (baseThread p) p = Inr (io_contexts p ! unat (next_index p),
    p\<lparr>next_index := (if unat (next_index p) + 1 = length (io_contexts p) then 0 else next_index p + 1)\<rparr>)"
proof -
  have less: "unat (next_index p) < length (io_contexts p)" "length (io_contexts p) < 2 ^ 32"
    using assms by (simp_all add: pool_ok_def)
  then have u: "unat (next_index p + 1) = (unat (next_index p) + 1) mod 2 ^ 32"
    by (simp add: unat_word_ariths)
  show ?thesis
  proof (cases "unat (next_index p) + 1 = 2 ^ 32")
    case True
    then show ?thesis using less by simp
  next
    case False
    then have "unat (next_index p + 1) = unat (next_index p) + 1" using u less by simp
    then show ?thesis using assms less by (auto simp: getNextLoop_def pool_guard_def Let_def)
  qed
qed

lemma pool_step:
  assumes ok: "pool_ok p" and "started p" and ne: "io_contexts p \<noteq> []"
  obtains p' where "getNextLoop (baseThread p) p = Inr (io_contexts p ! unat (next_index p), p')"
    "pool_ok p'" "started p'" "io_contexts p' = io_contexts p" "baseThread p' = baseThread p"
    "unat (next_index p') = (unat (next_index p) + 1) mod length (io_contexts p)"
proof -
  let ?n = "length (io_contexts p)"
  let ?p' = "p\<lparr>next_index := (if unat (next_index p) + 1 = ?n then 0 else next_index p + 1)\<rparr>"
  have less: "unat (next_index p) < ?n" "?n < 2 ^ 32" using assms by (simp_all add: pool_ok_def)
  have "unat (next_index p + 1) = unat (next_index p) + 1" if "unat (next_index p) + 1 \<noteq> ?n"
    using less that by (simp add: unat_word_ariths)
  then have "unat (next_index ?p') = (unat (next_index p) + 1) mod ?n" using less by auto
  moreover have "(unat (next_index p) + 1) mod ?n < ?n" using ne by simp
  moreover have "pool_ok ?p'" using ok calculation by (simp add: pool_ok_def)
  ultimately show ?thesis using that [OF getNextLoop_ok [OF assms]] assms(2) by simp
qed

text \<open>The loops that successive calls return.\<close>

fun next_loops :: "nat \<Rightarrow> nat \<Rightarrow> loop_pool \<Rightarrow> (nat list \<times> loop_pool) result" where
  "next_loops tid 0 p = Inr ([], p)"
| "next_loops tid (Suc k) p =
     and_then (getNextLoop tid p) (\<lambda>(l, p). and_then (next_loops tid k p) (\<lambda>(ls, p). Inr (l # ls, p)))"

lemma next_loops_ok:
  assumes "pool_ok p" and "started p" and "io_contexts p \<noteq> []"
  shows "\<exists>p'. next_loops (baseThread p) k p =
    Inr (map (\<lambda>j. io_contexts p ! ((unat (next_index p) + j) mod length (io_contexts p))) [0..<k], p')"
  using assms
proof (induction k arbitrary: p)
  case 0
  then show ?case by simp
next
  case (Suc k)
  let ?n = "length (io_contexts p)" and ?i = "unat (next_index p)"
  obtain p1 where p1: "getNextLoop (baseThread p) p = Inr (io_contexts p ! ?i, p1)"
      "pool_ok p1" "started p1" "io_contexts p1 = io_contexts p" "baseThread p1 = baseThread p"
      "unat (next_index p1) = (?i + 1) mod ?n"
    by (rule pool_step [OF Suc.prems])
  obtain p2 where p2: "next_loops (baseThread p) k p1 =
      Inr (map (\<lambda>j. io_contexts p ! (((?i + 1) mod ?n + j) mod ?n)) [0..<k], p2)"
    using Suc.IH [OF p1(2,3)] p1(4,5,6) Suc.prems(3) by auto
  have "?i < ?n" using Suc.prems by (simp add: pool_ok_def)
  have shift: "map (\<lambda>j. io_contexts p ! ((?i + j) mod ?n)) [0..<Suc k] =
      io_contexts p ! ?i # map (\<lambda>j. io_contexts p ! (((?i + 1) mod ?n + j) mod ?n)) [0..<k]"
  proof -
    have "[0..<Suc k] = 0 # map Suc [0..<k]" by (simp add: upt_conv_Cons map_Suc_upt del: upt_Suc)
    then show ?thesis using \<open>?i < ?n\<close> by (simp add: mod_add_left_eq del: upt_Suc)
  qed
  show ?case using p1(1) p2 by (simp only: shift next_loops.simps and_then_Inr split_conv) blast
qed

text \<open>A full round visits every index once.\<close>

lemma round_indices: "mset (map (\<lambda>j. (i + j) mod n) [0..<n]) = mset [0..<n]"
proof (cases "n = 0")
  case False
  have "inj_on (\<lambda>j. (i + j) mod n) {0..<n}"
  proof (rule inj_onI)
    fix a b assume ab: "a \<in> {0..<n}" "b \<in> {0..<n}" "(i + a) mod n = (i + b) mod n"
    have shifted: "(i + c) mod n = (if i mod n + c < n then i mod n + c else i mod n + c - n)" if "c < n" for c
    proof -
      have "i mod n < n" using False by simp
      then have "i mod n + c - n < n" using that by linarith
      then have "(i mod n + c) mod n = (if i mod n + c < n then i mod n + c else i mod n + c - n)"
        by (cases "i mod n + c < n") (simp_all only: le_mod_geq not_less mod_less if_True if_False, simp)
      then show ?thesis by (simp add: mod_add_left_eq)
    qed
    show "a = b" using ab shifted [of a] shifted [of b] by (auto split: if_splits)
  qed
  moreover have "(\<lambda>j. (i + j) mod n) ` {0..<n} \<subseteq> {0..<n}" using False by auto
  ultimately have "(\<lambda>j. (i + j) mod n) ` {0..<n} = {0..<n}"
    by (intro card_subset_eq) (simp_all add: card_image)
  then show ?thesis
    using \<open>inj_on _ _\<close> by (intro set_eq_iff_mset_eq_distinct [THEN iffD1]) (simp_all add: distinct_map)
qed simp

section \<open>Properties\<close>

text \<open>
  \<open>run\<close> starts the pool once.  It starts exactly \<open>numThreads_\<close> threads in order and
  lists their loops, after which \<open>getAllIOContext\<close> returns them (the base loop alone when
  there are none); a second \<open>run\<close>, or asking before the first, fails its assertion.
\<close>

theorem pool_run_spec:
  assumes "\<forall>i. start i \<noteq> 0"
  shows "\<exists>p. pool_run start (setThreadNum n (IOLoopThreadPool_new base tid)) = Inr p \<and> pool_ok p \<and>
    IOLoopThreadPool_delete p = [0..<unat n] \<and>
    getAllIOContext p = Inr (if n = 0 then [base] else map start [0..<unat n]) \<and>
    pool_run start p = Inl Assert_Failed \<and>
    getAllIOContext (setThreadNum n (IOLoopThreadPool_new base tid)) = Inl Assert_Failed"
proof -
  let ?p = "(setThreadNum n (IOLoopThreadPool_new base tid))\<lparr>started := True,
    threads := [0..<unat n], io_contexts := map start [0..<unat n]\<rparr>"
  have "unat n < 2 ^ LENGTH(32)" by (rule unsigned_less)
  then have "unat n < 2 ^ 32" by simp
  moreover have pos: "n \<noteq> 0 \<Longrightarrow> 0 < unat n" by (simp add: unat_gt_0)
  ultimately have "pool_ok ?p" by (auto simp: pool_ok_def setThreadNum_def IOLoopThreadPool_new_def)
  moreover have "pool_run start (setThreadNum n (IOLoopThreadPool_new base tid)) = Inr ?p"
    using assms by (simp add: pool_run_def pool_add_all setThreadNum_def IOLoopThreadPool_new_def)
  ultimately show ?thesis
    by (auto simp: IOLoopThreadPool_delete_def getAllIOContext_def pool_run_def setThreadNum_def
        IOLoopThreadPool_new_def pos)
qed

theorem pool_run_spec_witness:
  "\<exists>p. pool_run (\<lambda>i. i + 100) (setThreadNum 3 (IOLoopThreadPool_new 7 0)) = Inr p \<and> pool_ok p \<and>
    IOLoopThreadPool_delete p = [0..<unat (3 :: int32)] \<and>
    getAllIOContext p = Inr (if (3 :: int32) = 0 then [7] else map (\<lambda>i. i + 100) [0..<unat (3 :: int32)]) \<and>
    pool_run (\<lambda>i. i + 100) p = Inl Assert_Failed \<and>
    getAllIOContext (setThreadNum 3 (IOLoopThreadPool_new 7 0)) = Inl Assert_Failed"
  by (rule pool_run_spec) simp

text \<open>
  C33: \<open>getNextLoop\<close> is fair.  In the base loop's thread, \<open>m\<close> rounds of as many calls as
  there are loops return every loop \<open>m\<close> times (as often as it is listed), wherever the round
  robin stands, and no call reads outside the vector.
\<close>

theorem getNextLoop_fair:
  assumes "pool_ok p" and "started p" and "io_contexts p \<noteq> []"
  shows "\<exists>ls p'. next_loops (baseThread p) (m * length (io_contexts p)) p = Inr (ls, p') \<and>
    (\<forall>l. count (mset ls) l = m * count (mset (io_contexts p)) l)"
proof -
  let ?n = "length (io_contexts p)" and ?i = "unat (next_index p)"
  let ?f = "\<lambda>j. io_contexts p ! ((?i + j) mod ?n)"
  obtain p' where p': "next_loops (baseThread p) (m * ?n) p = Inr (map ?f [0..<m * ?n], p')"
    using next_loops_ok [OF assms] by blast
  have round: "mset (map ?f [k..<k + ?n]) = mset (io_contexts p)" for k
  proof -
    have "map ?f [k..<k + ?n] = map ((!) (io_contexts p)) (map (\<lambda>j. (?i + k + j) mod ?n) [0..<?n])"
      by (rule nth_equalityI) (simp_all add: ac_simps)
    then have "mset (map ?f [k..<k + ?n]) =
        image_mset ((!) (io_contexts p)) (mset (map (\<lambda>j. (?i + k + j) mod ?n) [0..<?n]))"
      by (simp only: mset_map)
    also have "\<dots> = mset (map ((!) (io_contexts p)) [0..<?n])" unfolding round_indices by (simp only: mset_map)
    finally show ?thesis by (simp only: map_nth)
  qed
  have "count (mset (map ?f [0..<m * ?n])) l = m * count (mset (io_contexts p)) l" for l
  proof (induction m)
    case (Suc m)
    have "[0..<Suc m * ?n] = [0..<m * ?n] @ [m * ?n..<m * ?n + ?n]"
      using upt_add_eq_append [of 0 "m * ?n" ?n] by (simp add: add.commute)
    then show ?case using Suc round [of "m * ?n"] by (simp only: map_append mset_append count_union) simp
  qed simp
  with p' show ?thesis by blast
qed

theorem getNextLoop_fair_witness:
  "\<exists>ls p'. next_loops 0 (2 * length [101, 102, 103 :: nat])
      \<lparr>baseLoop = 7, baseThread = 0, threads = [0, 1, 2], io_contexts = [101, 102, 103], next_index = 2,
       started = True, numThreads = 3\<rparr> = Inr (ls, p') \<and>
    (\<forall>l. count (mset ls) l = 2 * count (mset [101, 102, 103]) l)"
  using getNextLoop_fair [of "\<lparr>baseLoop = 7, baseThread = 0, threads = [0, 1, 2],
      io_contexts = [101, 102, 103], next_index = 2, started = True, numThreads = 3\<rparr>" 2]
  by (simp add: pool_ok_def)

text \<open>
  the descriptor overload never leaves the vector, whatever descriptor it is given
  (negative ones included), always gives one descriptor the same loop, and spreads
  consecutive descriptors over consecutive loops.
\<close>

theorem getNextLoop_fd_spec:
  assumes "started p" and "io_contexts p \<noteq> []"
  shows "\<exists>l\<in>set (io_contexts p). getNextLoop_fd (baseThread p) fd p = Inr l \<and>
    (0 \<le> sint fd \<longrightarrow> l = io_contexts p ! (nat (sint fd) mod length (io_contexts p)))"
proof -
  have "sint fd < 2 ^ 31" using sint_lt [of fd] by simp
  then have "0 \<le> sint fd \<longrightarrow> size_of_int (sint fd) = nat (sint fd)" by (simp add: size_simps)
  then show ?thesis using assms
    by (intro bexI [of _ "io_contexts p ! (size_of_int (sint fd) mod length (io_contexts p))"])
      (auto simp: getNextLoop_fd_def pool_guard_def)
qed

theorem getNextLoop_fd_spec_witness:
  "\<exists>l\<in>set [101, 102, 103].
    getNextLoop_fd 0 (- 5) \<lparr>baseLoop = 7, baseThread = 0, threads = [0, 1, 2], io_contexts = [101, 102, 103],
      next_index = 2, started = True, numThreads = 3\<rparr> = Inr l \<and>
    (0 \<le> sint (- 5 :: int32) \<longrightarrow> l = [101, 102, 103] ! (nat (sint (- 5 :: int32)) mod length [101, 102, 103 :: nat]))"
  using getNextLoop_fd_spec [of "\<lparr>baseLoop = 7, baseThread = 0, threads = [0, 1, 2],
      io_contexts = [101, 102, 103], next_index = 2, started = True, numThreads = 3\<rparr>" "- 5"]
  by simp

end
