(* ===== verification/Tcp_Connection.thy ===== *)
theory Tcp_Connection
  imports Buffer
begin

text \<open>
  \<open>Net/TcpConnection.h/.cpp\<close>: one connection as a state machine over the completions of its
  asynchronous reads and writes, the tasks posted to its loop and the calls of its users.

  A pending read keeps the offset in \<open>inputBuffer_\<close> where its bytes go and how many have
  arrived; arriving bytes are stored there without a check, as the kernel does, so a store
  outside the vector is the fault \<open>Out_Of_Bounds\<close>.  A pending write keeps the offset, the
  number of bytes and the size the output vector had: if the vector has grown since (its
  storage may have moved) the read of those bytes is the fault \<open>Use_After_Free\<close>; if only
  its content has moved, the bytes sent are the ones that are at the offset now.
\<close>

section \<open>State\<close>

datatype stateE = kDisconnected | kConnecting | kConnected | kDisconnecting

datatype read_stage = Header | Body

record read_op =
  stage :: read_stage
  target :: nat
  want :: nat
  got :: nat

record write_op =
  source :: nat
  count_bytes :: nat
  storage :: nat

text \<open>
  \<open>SendPieceTask\<close> carries a \<open>StringPiece\<close>: the pointer into the caller's string, which is
  looked up in \<open>strings\<close> when the task runs.
\<close>

datatype conn_task = SendTask "byte list" | SendPieceTask nat | ShutdownTask | ForceCloseTask

text \<open>
  The last six fields record history: the states \<open>connectionCallback_\<close> was called in, the bytes
  accepted by \<open>sendInThisThread\<close> and those put on the wire, how many bytes at the front of the
  output buffer writes put on the wire before they failed, whether a write ever sent
  bytes from a place the content had moved away from, and whether a message was sent that is
  empty or longer than an \<open>int\<close> can say.
\<close>

record tcp_connection =
  loopTid :: nat
  state :: stateE
  inputBuffer :: buffer
  outputBuffer :: buffer
  reading :: "read_op option"
  writes :: "write_op list"
  conn_tasks :: "conn_task list"
  send_shut :: bool
  strings :: "nat \<Rightarrow> byte list option"
  upDowns :: "stateE list"
  accepted_bytes :: "byte list"
  wire :: "byte list"
  half_written :: nat
  torn :: bool
  odd_sent :: bool

text \<open>The calls a callback or another thread makes on the connection.\<close>

datatype conn_call = Send "byte list" | Shutdown | ForceClose

text \<open>
  The callbacks, \<open>None\<close> for an empty \<open>std::function\<close>: each returns the calls it makes on
  the connection and the user's new state; the message callback may take bytes from the input
  buffer and may fail.
\<close>

record 'w callbacks =
  connectionCallback :: "(stateE \<Rightarrow> 'w \<Rightarrow> conn_call list \<times> 'w) option"
  messageCallback :: "(buffer \<Rightarrow> 'w \<Rightarrow> (buffer \<times> conn_call list \<times> 'w) result) option"
  closeCallback :: "('w \<Rightarrow> conn_call list \<times> 'w) option"

definition setConnectionCallback ::
  "(stateE \<Rightarrow> 'w \<Rightarrow> conn_call list \<times> 'w) option \<Rightarrow> 'w callbacks \<Rightarrow> 'w callbacks" where
  "setConnectionCallback cb k = k\<lparr>connectionCallback := cb\<rparr>"

definition setMessageCallback ::
  "(buffer \<Rightarrow> 'w \<Rightarrow> (buffer \<times> conn_call list \<times> 'w) result) option \<Rightarrow> 'w callbacks \<Rightarrow> 'w callbacks" where
  "setMessageCallback cb k = k\<lparr>messageCallback := cb\<rparr>"

definition setCloseCallback :: "('w \<Rightarrow> conn_call list \<times> 'w) option \<Rightarrow> 'w callbacks \<Rightarrow> 'w callbacks" where
  "setCloseCallback cb k = k\<lparr>closeCallback := cb\<rparr>"

text \<open>
  A connected socket, by what the calls the code makes on it answer: its descriptor, whether
  \<open>remote_endpoint()\<close> returns (it throws when the peer has reset the connection) and whether
  \<open>set_option\<close> does.
\<close>

record tcp_socket =
  native_handle :: int32
  peer_known :: bool
  options_settable :: bool

definition sound_socket :: "int32 \<Rightarrow> tcp_socket" where
  "sound_socket fd = \<lparr>native_handle = fd, peer_known = True, options_settable = True\<rparr>"

lemma sound_socket_simps [simp]:
  "native_handle (sound_socket fd) = fd" "peer_known (sound_socket fd)" "options_settable (sound_socket fd)"
  by (simp_all add: sound_socket_def)

definition usable :: "tcp_socket \<Rightarrow> bool" where
  "usable socket \<longleftrightarrow> peer_known socket \<and> options_settable socket"

text \<open>The constructor sets two options of the socket; the exception of \<open>set_option\<close> leaves it.\<close>

definition TcpConnection_new :: "nat \<Rightarrow> tcp_socket \<Rightarrow> tcp_connection result" where
  "TcpConnection_new tid socket =
     and_then (Buffer_new kInitialSize) (\<lambda>i. and_then (Buffer_new kInitialSize) (\<lambda>out.
     if \<not> options_settable socket then Inl Runtime_Error
     else Inr \<lparr>loopTid = tid, state = kConnecting, inputBuffer = i, outputBuffer = out, reading = None,
       writes = [], conn_tasks = [], send_shut = False, strings = (\<lambda>_. None), upDowns = [],
       accepted_bytes = [], wire = [], half_written = 0, torn = False, odd_sent = False\<rparr>))"

definition TcpConnection_delete :: "tcp_connection \<Rightarrow> unit result" where
  "TcpConnection_delete c = (if state c = kDisconnected then Inr () else Inl Assert_Failed)"

definition connected :: "tcp_connection \<Rightarrow> bool" where
  "connected c \<longleftrightarrow> state c = kConnected"

definition setState :: "stateE \<Rightarrow> tcp_connection \<Rightarrow> tcp_connection" where
  "setState s c = c\<lparr>state := s\<rparr>"

definition conn_assertInLoopThread :: "nat \<Rightarrow> tcp_connection \<Rightarrow> tcp_connection result" where
  "conn_assertInLoopThread tid c = (if tid = loopTid c then Inr c else Inl Fatal_Log)"

section \<open>Sending\<close>

definition conn_write :: "tcp_connection \<Rightarrow> tcp_connection" where
  "conn_write c = c\<lparr>writes := writes c @
     [\<lparr>source = readerIndex (outputBuffer c), count_bytes = readableBytes (outputBuffer c),
       storage = length (vec (outputBuffer c))\<rparr>]\<rparr>"

definition sendInThisThread :: "nat \<Rightarrow> string_piece \<Rightarrow> tcp_connection \<Rightarrow> tcp_connection result" where
  "sendInThisThread tid str c =
     and_then (conn_assertInLoopThread tid c) (\<lambda>c.
     if state c = kDisconnected then Inr c
     else
       let write_in_progress = (readableBytes (outputBuffer c) = 0);
           n = size_of_int (sint (piece_length str)) in
       and_then (append_data (piece_ptr str) n (outputBuffer c)) (\<lambda>out.
       let c = c\<lparr>outputBuffer := out, accepted_bytes := accepted_bytes c @ take n (piece_ptr str),
                 odd_sent := (odd_sent c \<or> n = 0 \<or> 2 ^ 31 \<le> n)\<rparr> in
       Inr (if write_in_progress then conn_write c else c)))"

definition shutdownInThisThread :: "nat \<Rightarrow> tcp_connection \<Rightarrow> tcp_connection result" where
  "shutdownInThisThread tid c =
     and_then (conn_assertInLoopThread tid c) (\<lambda>c.
     Inr (if readableBytes (outputBuffer c) = 0 then c\<lparr>send_shut := True\<rparr> else c))"

definition conn_post :: "conn_task \<Rightarrow> tcp_connection \<Rightarrow> tcp_connection" where
  "conn_post t c = c\<lparr>conn_tasks := conn_tasks c @ [t]\<rparr>"

text \<open>\<open>send(Buffer*)\<close>: the caller's buffer is emptied into a string.\<close>

definition send_buffer :: "nat \<Rightarrow> buffer \<Rightarrow> tcp_connection \<Rightarrow> (buffer \<times> tcp_connection) result" where
  "send_buffer tid buf c =
     (if connected c then
        and_then (retrieveAllAsString buf) (\<lambda>(s, buf).
        if tid = loopTid c then and_then (sendInThisThread tid (piece_of_string s) c) (\<lambda>c. Inr (buf, c))
        else Inr (buf, conn_post (SendTask s) c))
      else Inr (buf, c))"

text \<open>
  \<open>send(std::string&&)\<close>: \<open>k\<close> is the address of the caller's string; from another thread
  only a \<open>StringPiece\<close> on it is bound to the posted task.
\<close>

definition send_string :: "nat \<Rightarrow> nat \<Rightarrow> byte list \<Rightarrow> tcp_connection \<Rightarrow> tcp_connection result" where
  "send_string tid k message c =
     (if connected c then
        if tid = loopTid c then sendInThisThread tid (piece_of_string message) c
        else Inr (conn_post (SendPieceTask k) (c\<lparr>strings := (strings c)(k \<mapsto> message)\<rparr>))
      else Inr c)"

definition conn_shutdown :: "nat \<Rightarrow> tcp_connection \<Rightarrow> tcp_connection result" where
  "conn_shutdown tid c =
     (if state c = kConnected then
        let c = setState kDisconnecting c in
        if tid = loopTid c then shutdownInThisThread tid c else Inr (conn_post ShutdownTask c)
      else Inr c)"

definition forceClose :: "tcp_connection \<Rightarrow> tcp_connection" where
  "forceClose c =
     (if state c = kConnected \<or> state c = kDisconnecting
      then conn_post ForceCloseTask (setState kDisconnecting c) else c)"

section \<open>Callbacks and closing\<close>

definition run_call :: "conn_call \<Rightarrow> tcp_connection \<Rightarrow> tcp_connection result" where
  "run_call call c = (case call of
     Send s \<Rightarrow> send_string (loopTid c) 0 s c
   | Shutdown \<Rightarrow> conn_shutdown (loopTid c) c
   | ForceClose \<Rightarrow> Inr (forceClose c))"

definition call_connection :: "'w callbacks \<Rightarrow> tcp_connection \<times> 'w \<Rightarrow> (tcp_connection \<times> 'w) result" where
  "call_connection k = (\<lambda>(c, w). case connectionCallback k of
     None \<Rightarrow> Inl Bad_Function_Call
   | Some f \<Rightarrow> let (calls, w) = f (state c) w in
       and_then (fold_result run_call calls (c\<lparr>upDowns := upDowns c @ [state c]\<rparr>)) (\<lambda>c. Inr (c, w)))"

definition call_connection_if_set ::
  "'w callbacks \<Rightarrow> tcp_connection \<times> 'w \<Rightarrow> (tcp_connection \<times> 'w) result" where
  "call_connection_if_set k cw = (if connectionCallback k = None then Inr cw else call_connection k cw)"

definition call_close_if_set :: "'w callbacks \<Rightarrow> tcp_connection \<times> 'w \<Rightarrow> (tcp_connection \<times> 'w) result" where
  "call_close_if_set k = (\<lambda>(c, w). case closeCallback k of
     None \<Rightarrow> Inr (c, w)
   | Some f \<Rightarrow> let (calls, w) = f w in and_then (fold_result run_call calls c) (\<lambda>c. Inr (c, w)))"

definition handleClose :: "nat \<Rightarrow> 'w callbacks \<Rightarrow> tcp_connection \<times> 'w \<Rightarrow> (tcp_connection \<times> 'w) result" where
  "handleClose tid k = (\<lambda>(c, w).
     and_then (conn_assertInLoopThread tid c) (\<lambda>c.
     if \<not> (state c = kConnected \<or> state c = kDisconnecting) then Inl Assert_Failed
     else and_then (call_connection_if_set k (setState kDisconnected c, w)) (call_close_if_set k)))"

definition forceCloseInThisThread ::
  "nat \<Rightarrow> 'w callbacks \<Rightarrow> tcp_connection \<times> 'w \<Rightarrow> (tcp_connection \<times> 'w) result" where
  "forceCloseInThisThread tid k = (\<lambda>(c, w).
     and_then (conn_assertInLoopThread tid c) (\<lambda>c.
     if state c = kConnected \<or> state c = kDisconnecting then handleClose tid k (c, w) else Inr (c, w)))"

section \<open>Reading\<close>

definition readHeader :: "tcp_connection \<Rightarrow> tcp_connection" where
  "readHeader c = c\<lparr>reading := Some \<lparr>stage = Header, target = writerIndex (inputBuffer c), want = 4, got = 0\<rparr>\<rparr>"

definition readBody :: "nat \<Rightarrow> tcp_connection \<Rightarrow> tcp_connection" where
  "readBody len c = c\<lparr>reading := Some \<lparr>stage = Body, target = writerIndex (inputBuffer c), want = len, got = 0\<rparr>\<rparr>"

definition readHeader_done :: "nat \<Rightarrow> tcp_connection \<Rightarrow> tcp_connection result" where
  "readHeader_done n c =
     and_then (hasWritten n (inputBuffer c)) (\<lambda>b.
     and_then (peekInt32 b) (\<lambda>len.
     and_then (ensureWritableBytes (size_of_int (sint len)) b) (\<lambda>b.
     Inr (readBody (size_of_int (sint len)) (c\<lparr>inputBuffer := b\<rparr>)))))"

definition readBody_done ::
  "'w callbacks \<Rightarrow> nat \<Rightarrow> tcp_connection \<times> 'w \<Rightarrow> (tcp_connection \<times> 'w) result" where
  "readBody_done k n = (\<lambda>(c, w).
     and_then (hasWritten n (inputBuffer c)) (\<lambda>b.
     case messageCallback k of
       None \<Rightarrow> Inl Bad_Function_Call
     | Some f \<Rightarrow> and_then (f b w) (\<lambda>(b, calls, w).
         and_then (fold_result run_call calls (c\<lparr>inputBuffer := b\<rparr>)) (\<lambda>c. Inr (readHeader c, w)))))"

definition read_complete ::
  "'w callbacks \<Rightarrow> read_op \<Rightarrow> tcp_connection \<times> 'w \<Rightarrow> (tcp_connection \<times> 'w) result" where
  "read_complete k r = (\<lambda>(c, w).
     let c = c\<lparr>reading := None\<rparr> in
     case stage r of
       Header \<Rightarrow> and_then (readHeader_done (want r) c) (\<lambda>c. Inr (c, w))
     | Body \<Rightarrow> readBody_done k (want r) (c, w))"

text \<open>
  Bytes arrive for the pending read; when it has all it asked for (a body of length 0 needs
  none) its handler runs.
\<close>

definition arrive :: "'w callbacks \<Rightarrow> byte list \<Rightarrow> tcp_connection \<times> 'w \<Rightarrow> (tcp_connection \<times> 'w) result" where
  "arrive k bs = (\<lambda>(c, w). case reading c of
     None \<Rightarrow> Inr (c, w)
   | Some r \<Rightarrow>
       let bs = take (want r - got r) bs in
       and_then (store_bytes (target r + got r) bs (inputBuffer c)) (\<lambda>b.
       let r = r\<lparr>got := got r + length bs\<rparr>; c = c\<lparr>inputBuffer := b, reading := Some r\<rparr> in
       if got r = want r then read_complete k r (c, w) else Inr (c, w)))"

definition read_fail :: "'w callbacks \<Rightarrow> tcp_connection \<times> 'w \<Rightarrow> (tcp_connection \<times> 'w) result" where
  "read_fail k = (\<lambda>(c, w). case reading c of
     None \<Rightarrow> Inr (c, w)
   | Some r \<Rightarrow> handleClose (loopTid c) k (c\<lparr>reading := None\<rparr>, w))"

section \<open>Write completion\<close>

definition write_done :: "nat \<Rightarrow> tcp_connection \<Rightarrow> tcp_connection result" where
  "write_done i c = (if length (writes c) \<le> i then Inr c else
     let op = writes c ! i; out = outputBuffer c in
     if length (vec out) \<noteq> storage op then Inl Use_After_Free
     else
       let c = c\<lparr>writes := take i (writes c) @ drop (Suc i) (writes c),
                 wire := wire c @ segment (source op) (source op + count_bytes op) (vec out),
                 torn := (torn c \<or> source op \<noteq> readerIndex out)\<rparr> in
       and_then (retrieve (count_bytes op) out) (\<lambda>out.
       let c = c\<lparr>outputBuffer := out\<rparr> in
       if readableBytes out \<noteq> 0 then Inr (conn_write c)
       else if state c = kDisconnecting then shutdownInThisThread (loopTid c) c
       else Inr c))"

text \<open>
  A write that fails may have put the first \<open>n\<close> of its bytes on the wire; its handler gets their
  number but only logs: they stay in the output buffer, and no new write starts.
\<close>

definition write_fail :: "nat \<Rightarrow> nat \<Rightarrow> tcp_connection \<Rightarrow> tcp_connection result" where
  "write_fail i n c = (if length (writes c) \<le> i then Inr c else
     let op = writes c ! i; n = min n (count_bytes op); out = outputBuffer c in
     if n \<noteq> 0 \<and> length (vec out) \<noteq> storage op then Inl Use_After_Free
     else Inr (c\<lparr>writes := take i (writes c) @ drop (Suc i) (writes c),
       wire := wire c @ segment (source op) (source op + n) (vec out), half_written := half_written c + n,
       torn := (torn c \<or> n \<noteq> 0 \<and> source op \<noteq> readerIndex out)\<rparr>))"

section \<open>Opening, destroying, and the events of one connection\<close>

definition connectEstablished :: "nat \<Rightarrow> 'w callbacks \<Rightarrow> tcp_connection \<times> 'w \<Rightarrow> (tcp_connection \<times> 'w) result" where
  "connectEstablished tid k = (\<lambda>(c, w).
     and_then (conn_assertInLoopThread tid c) (\<lambda>c.
     if state c \<noteq> kConnecting then Inl Assert_Failed
     else and_then (call_connection_if_set k (setState kConnected c, w)) (\<lambda>(c, w). Inr (readHeader c, w))))"

definition connectDestroyed :: "nat \<Rightarrow> 'w callbacks \<Rightarrow> tcp_connection \<times> 'w \<Rightarrow> (tcp_connection \<times> 'w) result" where
  "connectDestroyed tid k = (\<lambda>(c, w).
     and_then (conn_assertInLoopThread tid c) (\<lambda>c.
     if state c = kConnected then call_connection k (setState kDisconnected c, w) else Inr (c, w)))"

definition run_conn_task :: "'w callbacks \<Rightarrow> conn_task \<Rightarrow> tcp_connection \<times> 'w \<Rightarrow> (tcp_connection \<times> 'w) result" where
  "run_conn_task k t = (\<lambda>(c, w). case t of
     SendTask s \<Rightarrow> and_then (sendInThisThread (loopTid c) (piece_of_string s) c) (\<lambda>c. Inr (c, w))
   | SendPieceTask p \<Rightarrow> (case strings c p of
        None \<Rightarrow> Inl Use_After_Free
      | Some s \<Rightarrow> and_then (sendInThisThread (loopTid c) (piece_of_string s) c) (\<lambda>c. Inr (c, w)))
   | ShutdownTask \<Rightarrow> and_then (shutdownInThisThread (loopTid c) c) (\<lambda>c. Inr (c, w))
   | ForceCloseTask \<Rightarrow> forceCloseInThisThread (loopTid c) k (c, w))"

text \<open>
  What can happen to a connection: the server's two calls, a call of a user in some thread
  (\<open>SendFrom\<close> with the address of the string), the string of a caller ending its life, the loop
  running a posted task, and the socket.
\<close>

datatype conn_event =
    Established | Destroyed | SendFrom nat nat "byte list" | SendBufferFrom nat buffer
  | ShutdownFrom nat | ForceCloseFrom | StringDies nat | RunConnTask
  | Arrive "byte list" | ReadFail | WriteDone nat | WriteFail nat nat

definition conn_event ::
  "'w callbacks \<Rightarrow> conn_event \<Rightarrow> tcp_connection \<times> 'w \<Rightarrow> (tcp_connection \<times> 'w) result" where
  "conn_event k ev = (\<lambda>(c, w). case ev of
     Established \<Rightarrow> connectEstablished (loopTid c) k (c, w)
   | Destroyed \<Rightarrow> connectDestroyed (loopTid c) k (c, w)
   | SendFrom tid p s \<Rightarrow> and_then (send_string tid p s c) (\<lambda>c. Inr (c, w))
   | SendBufferFrom tid b \<Rightarrow> and_then (send_buffer tid b c) (\<lambda>(_, c). Inr (c, w))
   | ShutdownFrom tid \<Rightarrow> and_then (conn_shutdown tid c) (\<lambda>c. Inr (c, w))
   | ForceCloseFrom \<Rightarrow> Inr (forceClose c, w)
   | StringDies p \<Rightarrow> Inr (c\<lparr>strings := (strings c)(p := None)\<rparr>, w)
   | RunConnTask \<Rightarrow> (case conn_tasks c of
        [] \<Rightarrow> Inr (c, w)
      | t # ts \<Rightarrow> run_conn_task k t (c\<lparr>conn_tasks := ts\<rparr>, w))
   | Arrive bs \<Rightarrow> arrive k bs (c, w)
   | ReadFail \<Rightarrow> read_fail k (c, w)
   | WriteDone i \<Rightarrow> and_then (write_done i c) (\<lambda>c. Inr (c, w))
   | WriteFail i n \<Rightarrow> and_then (write_fail i n c) (\<lambda>c. Inr (c, w)))"

section \<open>Lemmas\<close>

text \<open>Appending through whatever \<open>makeSpace\<close> does, when it returns.\<close>

lemma ensureWritableBytes_Inr:
  assumes ok: "buf_ok b" and len: "len < 2 ^ 31" and r: "ensureWritableBytes len b = Inr b'"
  shows "buf_ok b' \<and> content b' = content b \<and> writerIndex b' + len \<le> length (vec b')"
proof -
  note inv = buf_okD [OF ok]
  consider (room) "writerIndex b + len \<le> max_size"
    | (move) "max_size < writerIndex b + len" "len + 8 \<le> length (vec b) - writerIndex b + readerIndex b"
    | (grow) "max_size < writerIndex b + len" "length (vec b) - writerIndex b + readerIndex b < len + 8"
    by linarith
  then show ?thesis
  proof cases
    case room
    then show ?thesis using ensureWritableBytes_ok [OF ok room] r by auto
  next
    case move
    have more: "length (vec b) - writerIndex b < len" using move inv by linarith
    let ?b = "b\<lparr>vec := overwrite 8 (content b) (vec b), readerIndex := 8, writerIndex := 8 + length (content b)\<rparr>"
    have n: "length (content b) = writerIndex b - readerIndex b"
      using ok by (simp add: length_content readable_ok)
    have fits: "8 + length (content b) + len \<le> length (vec b)" using inv move n more by linarith
    then have "buf_ok ?b" using inv by (simp add: buffer_defs)
    moreover have "content ?b = content b" using fits by (simp add: content_def [of ?b])
    moreover have "ensureWritableBytes len b = Inr ?b"
      using makeSpace_move [OF ok move(2) more] calculation(1) fits more ok
      by (simp add: ensureWritableBytes_def writable_ok)
    ultimately show ?thesis using r fits by auto
  next
    case grow
    have "length (vec b) - writerIndex b < len" using grow inv by linarith
    moreover have "vector_resize (size_add (writerIndex b) len) (vec b) = Inl Length_Error"
      using grow inv len by (simp add: vector_resize_def size_simps)
    moreover have "size_add (writableBytes b) (prependableBytes b) < size_add len kCheapPrepend"
      using grow inv len by (simp add: writable_ok [OF ok] buffer_defs size_simps)
    ultimately show ?thesis using r
      by (simp add: ensureWritableBytes_def makeSpace_def writable_ok [OF ok])
  qed
qed

lemma append_data_Inr:
  assumes ok: "buf_ok b" and len: "len < 2 ^ 31" and r: "append_data data len b = Inr b'"
  shows "buf_ok b' \<and> content b' = content b @ take len data \<and> len \<le> length data"
proof -
  obtain b1 where b1: "ensureWritableBytes len b = Inr b1" "\<not> length data < len"
      "and_then (store_bytes (writerIndex b1) (take len data) b1) (hasWritten len) = Inr b'"
    using r by (auto simp: append_data_def and_then_eq_Inr split: if_splits)
  have e: "buf_ok b1" "content b1 = content b" "writerIndex b1 + len \<le> length (vec b1)"
    using ensureWritableBytes_Inr [OF ok len b1(1)] by auto
  have "length (take len data) = len" using b1(2) by simp
  then show ?thesis using store_hasWritten_ok [OF e(1), of "take len data"] b1(2,3) e(2,3) by auto
qed

text \<open>What the calls of a callback leave alone.\<close>

definition conn_keeps :: "tcp_connection \<Rightarrow> tcp_connection \<Rightarrow> bool" where
  "conn_keeps c c' \<longleftrightarrow> reading c' = reading c \<and> inputBuffer c' = inputBuffer c \<and> loopTid c' = loopTid c \<and>
     upDowns c' = upDowns c \<and> half_written c' = half_written c \<and>
     (state c' = state c \<or> state c = kConnected \<and> state c' = kDisconnecting)"

lemma conn_keeps_refl [simp]: "conn_keeps c c"
  by (simp add: conn_keeps_def)

lemma conn_keeps_trans: "conn_keeps c c' \<Longrightarrow> conn_keeps c' c'' \<Longrightarrow> conn_keeps c c''"
  by (auto simp: conn_keeps_def)

lemmas conn_op_defs = conn_assertInLoopThread_def conn_write_def sendInThisThread_def shutdownInThisThread_def
  conn_post_def send_string_def conn_shutdown_def forceClose_def setState_def run_call_def

lemma sendInThisThread_keeps: "sendInThisThread tid p c = Inr c' \<Longrightarrow> conn_keeps c c' \<and> state c' = state c"
  by (auto simp: sendInThisThread_def conn_assertInLoopThread_def conn_write_def conn_keeps_def Let_def
      and_then_eq_Inr split: if_splits)

lemma shutdownInThisThread_keeps: "shutdownInThisThread tid c = Inr c' \<Longrightarrow> conn_keeps c c' \<and> state c' = state c"
  by (auto simp: shutdownInThisThread_def conn_assertInLoopThread_def conn_keeps_def and_then_eq_Inr split: if_splits)

lemma send_string_keeps: "send_string tid p s c = Inr c' \<Longrightarrow> conn_keeps c c'"
  using sendInThisThread_keeps
  by (auto simp: send_string_def conn_post_def split: if_splits) (simp_all add: conn_keeps_def)

lemma send_buffer_keeps: "send_buffer tid b c = Inr (b', c') \<Longrightarrow> conn_keeps c c'"
  using sendInThisThread_keeps
  by (auto simp: send_buffer_def conn_post_def and_then_eq_Inr split: if_splits) (simp_all add: conn_keeps_def)

lemma conn_shutdown_keeps: "conn_shutdown tid c = Inr c' \<Longrightarrow> conn_keeps c c'"
  using shutdownInThisThread_keeps [of tid "setState kDisconnecting c" c']
  by (auto simp: conn_shutdown_def conn_post_def setState_def conn_keeps_def Let_def split: if_splits)

lemma forceClose_keeps: "conn_keeps c (forceClose c)"
  by (simp add: forceClose_def conn_post_def setState_def conn_keeps_def)

text \<open>
  The bytes on the wire and the content of the output buffer together are what was accepted,
  the bytes of a failed write counted once; the one pending write covers a non-empty front part
  of the content, and after a failed one none starts.
\<close>

definition wire_ok :: "tcp_connection \<Rightarrow> bool" where
  "wire_ok c \<longleftrightarrow> torn c \<or> odd_sent c \<or>
     buf_ok (outputBuffer c) \<and> half_written c \<le> length (content (outputBuffer c)) \<and>
     accepted_bytes c = wire c @ drop (half_written c) (content (outputBuffer c)) \<and>
     (writes c = [] \<or> (\<exists>op. writes c = [op] \<and> half_written c = 0 \<and> 0 < count_bytes op \<and>
        count_bytes op \<le> length (content (outputBuffer c))))"

lemma wire_ok_update [simp]:
  "wire_ok (c\<lparr>state := s\<rparr>) = wire_ok c" "wire_ok (c\<lparr>inputBuffer := i\<rparr>) = wire_ok c"
  "wire_ok (c\<lparr>reading := r\<rparr>) = wire_ok c" "wire_ok (c\<lparr>conn_tasks := t\<rparr>) = wire_ok c"
  "wire_ok (c\<lparr>send_shut := b\<rparr>) = wire_ok c" "wire_ok (c\<lparr>strings := m\<rparr>) = wire_ok c"
  "wire_ok (c\<lparr>upDowns := u\<rparr>) = wire_ok c"
  by (simp_all add: wire_ok_def)

lemma conn_write_ok:
  assumes "buf_ok (outputBuffer c)" and "accepted_bytes c = wire c @ content (outputBuffer c)"
    and "half_written c = 0" and "writes c = []" and "content (outputBuffer c) \<noteq> []"
  shows "wire_ok (conn_write c)"
  using assms by (simp add: wire_ok_def conn_write_def length_content [symmetric])

lemma sendInThisThread_wire:
  assumes w: "wire_ok c" and r: "sendInThisThread tid p c = Inr c'"
  shows "wire_ok c'"
proof (cases "state c = kDisconnected")
  case True
  then show ?thesis using r w by (auto simp: sendInThisThread_def conn_assertInLoopThread_def split: if_splits)
next
  case False
  define n where "n = size_of_int (sint (piece_length p))"
  obtain out where out: "append_data (piece_ptr p) n (outputBuffer c) = Inr out" and
      c': "c' = (let c1 = c\<lparr>outputBuffer := out, accepted_bytes := accepted_bytes c @ take n (piece_ptr p),
          odd_sent := (odd_sent c \<or> n = 0 \<or> 2 ^ 31 \<le> n)\<rparr>
        in if readableBytes (outputBuffer c) = 0 then conn_write c1 else c1)"
    using r False by (auto simp: sendInThisThread_def conn_assertInLoopThread_def Let_def and_then_eq_Inr n_def
        split: if_splits)
  show ?thesis
  proof (cases "torn c \<or> odd_sent c \<or> n = 0 \<or> 2 ^ 31 \<le> n")
    case True
    then show ?thesis using c' by (auto simp: wire_ok_def conn_write_def Let_def)
  next
    case nt: False
    then have ok: "buf_ok (outputBuffer c)" "half_written c \<le> length (content (outputBuffer c))"
        "accepted_bytes c = wire c @ drop (half_written c) (content (outputBuffer c))"
        "writes c = [] \<or> (\<exists>op. writes c = [op] \<and> half_written c = 0 \<and> 0 < count_bytes op \<and>
          count_bytes op \<le> length (content (outputBuffer c)))"
      using w by (auto simp: wire_ok_def)
    have app: "buf_ok out" "content out = content (outputBuffer c) @ take n (piece_ptr p)" "n \<le> length (piece_ptr p)"
      using append_data_Inr [OF ok(1) _ out] nt by auto
    show ?thesis
    proof (cases "readableBytes (outputBuffer c) = 0")
      case empty: True
      then have "content (outputBuffer c) = []" using length_content [OF ok(1)] by simp
      then show ?thesis using c' empty ok app nt
        by (auto simp: Let_def intro!: conn_write_ok)
    next
      case False
      then show ?thesis using c' ok app by (auto simp: wire_ok_def Let_def)
    qed
  qed
qed

lemma shutdownInThisThread_wire: "wire_ok c \<Longrightarrow> shutdownInThisThread tid c = Inr c' \<Longrightarrow> wire_ok c'"
  by (auto simp: shutdownInThisThread_def conn_assertInLoopThread_def and_then_eq_Inr split: if_splits)

lemma send_string_wire: "wire_ok c \<Longrightarrow> send_string tid k s c = Inr c' \<Longrightarrow> wire_ok c'"
  by (auto simp: send_string_def conn_post_def sendInThisThread_wire split: if_splits)

lemma send_buffer_wire: "wire_ok c \<Longrightarrow> send_buffer tid b c = Inr (b', c') \<Longrightarrow> wire_ok c'"
  by (auto simp: send_buffer_def conn_post_def and_then_eq_Inr sendInThisThread_wire split: if_splits)

lemma conn_shutdown_wire: "wire_ok c \<Longrightarrow> conn_shutdown tid c = Inr c' \<Longrightarrow> wire_ok c'"
  using shutdownInThisThread_wire [of "setState kDisconnecting c" tid c']
  by (auto simp: conn_shutdown_def conn_post_def setState_def Let_def split: if_splits)

lemma forceClose_wire [simp]: "wire_ok (forceClose c) = wire_ok c"
  by (simp add: forceClose_def conn_post_def setState_def)

lemma write_done_wire:
  assumes w: "wire_ok c" and r: "write_done i c = Inr c'"
  shows "wire_ok c'"
proof (cases "length (writes c) \<le> i")
  case True
  then show ?thesis using r w by (simp add: write_done_def)
next
  case False
  let ?op = "writes c ! i" and ?out = "outputBuffer c"
  let ?c = "c\<lparr>writes := take i (writes c) @ drop (Suc i) (writes c),
      wire := wire c @ segment (source ?op) (source ?op + count_bytes ?op) (vec ?out),
      torn := (torn c \<or> source ?op \<noteq> readerIndex ?out)\<rparr>"
  obtain out where out: "retrieve (count_bytes ?op) ?out = Inr out" and
      c': "(if readableBytes out \<noteq> 0 then Inr (conn_write (?c\<lparr>outputBuffer := out\<rparr>))
        else if state c = kDisconnecting then shutdownInThisThread (loopTid c) (?c\<lparr>outputBuffer := out\<rparr>)
        else Inr (?c\<lparr>outputBuffer := out\<rparr>)) = Inr c'"
    using r False by (auto simp: write_done_def Let_def and_then_eq_Inr split: if_splits)
  show ?thesis
  proof (cases "torn c \<or> odd_sent c \<or> source ?op \<noteq> readerIndex ?out")
    case True
    then have "torn c' \<or> odd_sent c'"
      using c' by (auto simp: shutdownInThisThread_def conn_assertInLoopThread_def conn_write_def split: if_splits)
    then show ?thesis by (auto simp: wire_ok_def)
  next
    case nt: False
    then have ok: "buf_ok ?out" "accepted_bytes c = wire c @ content ?out" "writes c = [?op]" "i = 0"
        "count_bytes ?op \<le> length (content ?out)" "half_written c = 0"
      using w False nt by (cases i; auto simp: wire_ok_def)+
    have sent: "segment (source ?op) (source ?op + count_bytes ?op) (vec ?out) = take (count_bytes ?op) (content ?out)"
      using peek_bytes_ok [OF ok(1,5)] nt by (auto simp: peek_bytes_def split: if_splits)
    have ret: "buf_ok out" "content out = drop (count_bytes ?op) (content ?out)"
      using retrieve_ok [OF ok(1,5)] out by auto
    have acc: "accepted_bytes c = (wire c @ take (count_bytes ?op) (content ?out)) @ content out"
      using ok(2) ret(2) by simp
    have nil: "take i (writes c) @ drop (Suc i) (writes c) = []" by (subst ok(3)) (simp add: ok(4))
    have base: "wire_ok (?c\<lparr>outputBuffer := out\<rparr>)"
      unfolding sent nil using acc ret(1) ok(6) by (simp add: wire_ok_def)
    have "wire_ok (conn_write (?c\<lparr>outputBuffer := out\<rparr>))" if "readableBytes out \<noteq> 0"
    proof -
      have "content out \<noteq> []" using that length_content [OF ret(1)] by auto
      then show ?thesis unfolding sent nil using acc ret(1) ok(6) by (intro conn_write_ok) simp_all
    qed
    then show ?thesis using c' base shutdownInThisThread_wire [OF base] by (auto split: if_splits)
  qed
qed

lemma write_fail_wire:
  assumes w: "wire_ok c" and r: "write_fail i n c = Inr c'"
  shows "wire_ok c'"
proof (cases "length (writes c) \<le> i")
  case True
  then show ?thesis using r w by (simp add: write_fail_def)
next
  case False
  let ?op = "writes c ! i" and ?out = "outputBuffer c"
  let ?n = "min n (count_bytes ?op)"
  have c': "c' = c\<lparr>writes := take i (writes c) @ drop (Suc i) (writes c),
      wire := wire c @ segment (source ?op) (source ?op + ?n) (vec ?out), half_written := half_written c + ?n,
      torn := (torn c \<or> ?n \<noteq> 0 \<and> source ?op \<noteq> readerIndex ?out)\<rparr>"
    using r False by (auto simp: write_fail_def Let_def split: if_splits)
  show ?thesis
  proof (cases "torn c' \<or> odd_sent c'")
    case False
    then have nt: "\<not> torn c" "\<not> odd_sent c" "?n = 0 \<or> source ?op = readerIndex ?out" by (auto simp: c')
    then have ok: "buf_ok ?out" "accepted_bytes c = wire c @ content ?out" "writes c = [?op]" "i = 0"
        "count_bytes ?op \<le> length (content ?out)" "half_written c = 0"
      using w \<open>\<not> length (writes c) \<le> i\<close> by (cases i; auto simp: wire_ok_def)+
    have n: "?n \<le> length (content ?out)" using ok(5) by simp
    have sent: "segment (source ?op) (source ?op + ?n) (vec ?out) = take ?n (content ?out)"
      using peek_bytes_ok [OF ok(1) n] nt(3) by (auto simp: peek_bytes_def split: if_splits)
    have nil: "take i (writes c) @ drop (Suc i) (writes c) = []" by (subst ok(3)) (simp add: ok(4))
    show ?thesis unfolding c' sent nil using ok(1,2,6) n by (simp add: wire_ok_def)
  qed (auto simp: wire_ok_def)
qed

lemma write_fail_keeps:
  assumes "write_fail i n c = Inr c'"
  shows "state c' = state c \<and> upDowns c' = upDowns c \<and> loopTid c' = loopTid c \<and> inputBuffer c' = inputBuffer c \<and>
    reading c' = reading c \<and> send_shut c' = send_shut c \<and> outputBuffer c' = outputBuffer c \<and>
    (torn c \<longrightarrow> torn c') \<and> odd_sent c' = odd_sent c \<and> accepted_bytes c' = accepted_bytes c \<and> (\<exists>bs. wire c' = wire c @ bs)"
  using assms by (auto simp: write_fail_def Let_def split: if_splits)

text \<open>Both invariants through the calls of a callback.\<close>

lemma run_calls_ok:
  assumes "fold_result run_call calls c = Inr c'"
  shows "conn_keeps c c' \<and> (wire_ok c \<longrightarrow> wire_ok c')"
  using assms
proof (induction calls arbitrary: c)
  case Nil
  then show ?case by simp
next
  case (Cons call calls)
  then obtain c1 where c1: "run_call call c = Inr c1" "fold_result run_call calls c1 = Inr c'"
    by (auto simp: and_then_eq_Inr)
  have "conn_keeps c c1 \<and> (wire_ok c \<longrightarrow> wire_ok c1)"
  proof (cases call)
    case (Send s)
    then show ?thesis using c1(1) send_string_keeps send_string_wire by (simp add: run_call_def)
  next
    case Shutdown
    then show ?thesis using c1(1) conn_shutdown_keeps conn_shutdown_wire by (simp add: run_call_def)
  next
    case ForceClose
    then show ?thesis using c1(1) forceClose_keeps by (auto simp: run_call_def)
  qed
  then show ?case using Cons.IH [OF c1(2)] conn_keeps_trans by blast
qed

lemma call_connection_ok:
  assumes "call_connection k (c, w) = Inr (c', w')"
  shows "conn_keeps (c\<lparr>upDowns := upDowns c @ [state c]\<rparr>) c' \<and> (wire_ok c \<longrightarrow> wire_ok c')"
  using assms run_calls_ok [of _ "c\<lparr>upDowns := upDowns c @ [state c]\<rparr>" c']
  by (auto simp: call_connection_def and_then_eq_Inr split: option.splits prod.splits)

lemma call_connection_if_set_ok:
  assumes "call_connection_if_set k (c, w) = Inr (c', w')"
  shows "conn_keeps (if connectionCallback k = None then c else c\<lparr>upDowns := upDowns c @ [state c]\<rparr>) c' \<and>
    (wire_ok c \<longrightarrow> wire_ok c')"
  using assms call_connection_ok [of k c w c' w'] by (auto simp: call_connection_if_set_def split: if_splits)

lemma call_close_if_set_ok:
  assumes "call_close_if_set k (c, w) = Inr (c', w')"
  shows "conn_keeps c c' \<and> (wire_ok c \<longrightarrow> wire_ok c')"
  using assms run_calls_ok [of _ c c']
  by (auto simp: call_close_if_set_def and_then_eq_Inr split: option.splits prod.splits)

text \<open>The callbacks the user has seen, by the state.\<close>

fun history :: "stateE \<Rightarrow> stateE list" where
  "history kConnecting = []"
| "history kConnected = [kConnected]"
| "history kDisconnecting = [kConnected]"
| "history kDisconnected = [kConnected, kDisconnected]"

fun rank :: "stateE \<Rightarrow> nat" where
  "rank kConnecting = 0"
| "rank kConnected = 1"
| "rank kDisconnecting = 2"
| "rank kDisconnected = 3"

text \<open>One event: the state only goes forward, with the callbacks that go with it.\<close>

definition moves_on :: "'w callbacks \<Rightarrow> tcp_connection \<Rightarrow> tcp_connection \<Rightarrow> bool" where
  "moves_on k c c' \<longleftrightarrow> loopTid c' = loopTid c \<and> rank (state c) \<le> rank (state c') \<and>
     (state c \<noteq> kConnecting \<or> state c' \<in> {kConnecting, kConnected, kDisconnecting}) \<and>
     (connectionCallback k \<noteq> None \<longrightarrow> upDowns c = history (state c) \<longrightarrow> upDowns c' = history (state c')) \<and>
     (wire_ok c \<longrightarrow> wire_ok c')"

definition moves :: "'w callbacks \<Rightarrow> tcp_connection \<Rightarrow> tcp_connection \<Rightarrow> bool" where
  "moves k c c' \<longleftrightarrow> moves_on k c c' \<and> half_written c' = half_written c"

lemmas moves_defs = moves_def moves_on_def

lemma moves_keeps: "conn_keeps c c' \<Longrightarrow> (wire_ok c \<longrightarrow> wire_ok c') \<Longrightarrow> moves k c c'"
  by (cases "state c") (auto simp: conn_keeps_def moves_defs)

lemma handleClose_ok:
  assumes "handleClose tid k (c, w) = Inr (c', w')"
  shows "(state c = kConnected \<or> state c = kDisconnecting) \<and> state c' = kDisconnected \<and> reading c' = reading c \<and>
    moves k c c'"
proof -
  obtain c1 w1 where g: "state c = kConnected \<or> state c = kDisconnecting" and
      c1: "call_connection_if_set k (setState kDisconnected c, w) = Inr (c1, w1)" and
      c2: "call_close_if_set k (c1, w1) = Inr (c', w')"
    using assms by (auto simp: handleClose_def conn_assertInLoopThread_def and_then_eq_Inr split: if_splits)
  show ?thesis
    using call_connection_if_set_ok [OF c1] call_close_if_set_ok [OF c2] g
    by (auto simp: conn_keeps_def moves_defs setState_def split: if_splits)
qed

lemma moves_refl [simp]: "moves k c c"
  by (simp add: moves_defs)

lemma moves_io [simp]:
  "moves k (c\<lparr>inputBuffer := b\<rparr>) c' = moves k c c'" "moves k (c\<lparr>reading := r\<rparr>) c' = moves k c c'"
  "moves k (c\<lparr>conn_tasks := t\<rparr>) c' = moves k c c'"
  "moves k c (c'\<lparr>inputBuffer := b\<rparr>) = moves k c c'" "moves k c (c'\<lparr>reading := r\<rparr>) = moves k c c'"
  "moves k c (c'\<lparr>strings := m\<rparr>) = moves k c c'"
  by (simp_all add: moves_defs)

lemma moves_readHeader [simp]: "moves k c (readHeader c') = moves k c c'"
  by (simp add: readHeader_def)

lemma run_calls_moves: "fold_result run_call calls c = Inr c' \<Longrightarrow> moves k c c'"
  using run_calls_ok moves_keeps by blast

lemma read_complete_moves:
  assumes "read_complete k r (c, w) = Inr (c', w')"
  shows "moves k c c'"
proof (cases "stage r")
  case Header
  then show ?thesis using assms
    by (auto simp: read_complete_def readHeader_done_def readBody_def and_then_eq_Inr)
next
  case Body
  then obtain b f calls v where
      "fold_result run_call calls (c\<lparr>reading := None, inputBuffer := b\<rparr>) = Inr v" "c' = readHeader v"
    using assms by (auto simp: read_complete_def readBody_done_def and_then_eq_Inr split: option.splits)
  then show ?thesis using run_calls_moves [of calls "c\<lparr>reading := None, inputBuffer := b\<rparr>" v k] by simp
qed

lemma arrive_moves:
  assumes "arrive k bs (c, w) = Inr (c', w')"
  shows "moves k c c'"
proof (cases "reading c")
  case (Some r)
  let ?bs = "take (want r - got r) bs"
  let ?r = "r\<lparr>got := got r + length ?bs\<rparr>"
  obtain b where b: "(if got ?r = want ?r then read_complete k ?r (c\<lparr>inputBuffer := b, reading := Some ?r\<rparr>, w)
      else Inr (c\<lparr>inputBuffer := b, reading := Some ?r\<rparr>, w)) = Inr (c', w')"
    using assms Some by (auto simp: arrive_def Let_def and_then_eq_Inr)
  show ?thesis
  proof (cases "got ?r = want ?r")
    case True
    then have "read_complete k ?r (c\<lparr>inputBuffer := b, reading := Some ?r\<rparr>, w) = Inr (c', w')" using b by simp
    from read_complete_moves [OF this] show ?thesis by simp
  next
    case False
    then show ?thesis using b by auto
  qed
qed (use assms in \<open>simp add: arrive_def\<close>)

lemma connectEstablished_moves:
  assumes "connectEstablished tid k (c, w) = Inr (c', w')"
  shows "moves k c c'"
proof -
  obtain c1 where g: "state c = kConnecting" and
      c1: "call_connection_if_set k (setState kConnected c, w) = Inr (c1, w')" "c' = readHeader c1"
    using assms by (auto simp: connectEstablished_def conn_assertInLoopThread_def and_then_eq_Inr split: if_splits)
  show ?thesis using call_connection_if_set_ok [OF c1(1)] g c1(2)
    by (auto simp: conn_keeps_def moves_defs setState_def readHeader_def split: if_splits)
qed

lemma connectDestroyed_moves:
  assumes "connectDestroyed tid k (c, w) = Inr (c', w')"
  shows "moves k c c'"
proof (cases "state c = kConnected")
  case True
  then have "call_connection k (setState kDisconnected c, w) = Inr (c', w')"
    using assms by (auto simp: connectDestroyed_def conn_assertInLoopThread_def split: if_splits)
  from call_connection_ok [OF this] show ?thesis using True
    by (auto simp: conn_keeps_def moves_defs setState_def)
next
  case False
  then show ?thesis using assms by (auto simp: connectDestroyed_def conn_assertInLoopThread_def split: if_splits)
qed

lemma write_done_state: "write_done i c = Inr c' \<Longrightarrow>
    state c' = state c \<and> upDowns c' = upDowns c \<and> loopTid c' = loopTid c \<and> half_written c' = half_written c"
  by (auto simp: write_done_def Let_def and_then_eq_Inr shutdownInThisThread_def conn_assertInLoopThread_def
      conn_write_def split: if_splits)

lemma run_conn_task_moves:
  assumes "run_conn_task k t (c, w) = Inr (c', w')"
  shows "moves k c c'"
proof -
  have send: "sendInThisThread tid p c = Inr c' \<Longrightarrow> moves k c c'" for tid p
    using sendInThisThread_keeps sendInThisThread_wire moves_keeps by blast
  show ?thesis
  proof (cases t)
    case (SendTask s)
    then show ?thesis using assms send by (auto simp: run_conn_task_def and_then_eq_Inr)
  next
    case (SendPieceTask p)
    then show ?thesis using assms send by (auto simp: run_conn_task_def and_then_eq_Inr split: option.splits)
  next
    case ShutdownTask
    then show ?thesis using assms shutdownInThisThread_keeps shutdownInThisThread_wire moves_keeps
      by (fastforce simp: run_conn_task_def and_then_eq_Inr)
  next
    case ForceCloseTask
    then have "forceCloseInThisThread (loopTid c) k (c, w) = Inr (c', w')"
      using assms by (simp add: run_conn_task_def)
    then show ?thesis using handleClose_ok [of "loopTid c" k c w c' w']
      by (auto simp: forceCloseInThisThread_def conn_assertInLoopThread_def split: if_splits)
  qed
qed

lemma conn_event_moves:
  assumes "conn_event k ev (c, w) = Inr (c', w')" and "\<And>i n. ev \<noteq> WriteFail i (Suc n)"
  shows "moves k c c'"
proof (cases ev)
  case Established
  then show ?thesis using assms connectEstablished_moves by (auto simp: conn_event_def)
next
  case Destroyed
  then show ?thesis using assms connectDestroyed_moves by (auto simp: conn_event_def)
next
  case (SendFrom tid p s)
  then have "send_string tid p s c = Inr c'" using assms by (auto simp: conn_event_def and_then_eq_Inr)
  then show ?thesis using send_string_keeps send_string_wire moves_keeps by blast
next
  case (SendBufferFrom tid b)
  then obtain b' where "send_buffer tid b c = Inr (b', c')" using assms by (auto simp: conn_event_def and_then_eq_Inr)
  then show ?thesis using send_buffer_keeps send_buffer_wire moves_keeps by blast
next
  case (ShutdownFrom tid)
  then have "conn_shutdown tid c = Inr c'" using assms by (auto simp: conn_event_def and_then_eq_Inr)
  then show ?thesis using conn_shutdown_keeps conn_shutdown_wire moves_keeps by blast
next
  case ForceCloseFrom
  then have "c' = forceClose c" using assms by (simp add: conn_event_def)
  then show ?thesis using moves_keeps [OF forceClose_keeps] by simp
next
  case (StringDies p)
  then have "c' = c\<lparr>strings := (strings c)(p := None)\<rparr>" using assms by (simp add: conn_event_def)
  then show ?thesis by simp
next
  case RunConnTask
  then show ?thesis using assms run_conn_task_moves
    by (force simp: conn_event_def split: list.splits)
next
  case (Arrive bs)
  then show ?thesis using assms arrive_moves by (auto simp: conn_event_def)
next
  case ReadFail
  then show ?thesis using assms handleClose_ok [of "loopTid c" k "c\<lparr>reading := None\<rparr>" w c' w']
    by (auto simp: conn_event_def read_fail_def split: option.splits)
next
  case (WriteDone i)
  then have "write_done i c = Inr c'" using assms by (auto simp: conn_event_def and_then_eq_Inr)
  then show ?thesis using write_done_state [of i c c'] write_done_wire [of c i c'] by (simp add: moves_defs)
next
  case (WriteFail i n)
  then have "write_fail i n c = Inr c'" using assms by (auto simp: conn_event_def and_then_eq_Inr)
  moreover have "n = 0" using WriteFail assms(2) by (cases n) auto
  ultimately show ?thesis using write_fail_keeps [of i n c c'] write_fail_wire [of c i n c']
    by (auto simp: moves_defs write_fail_def Let_def split: if_splits)
qed

lemma conn_event_moves_on:
  assumes "conn_event k ev (c, w) = Inr (c', w')"
  shows "moves_on k c c'"
proof (cases "\<exists>i n. ev = WriteFail i (Suc n)")
  case True
  then obtain i n where "write_fail i n c = Inr c'" using assms by (auto simp: conn_event_def and_then_eq_Inr)
  then show ?thesis using write_fail_keeps [of i n c c'] write_fail_wire [of c i n c'] by (simp add: moves_on_def)
next
  case False
  then show ?thesis using conn_event_moves [OF assms] by (simp add: moves_def)
qed

lemma conn_events_invariant:
  assumes "fold_result (conn_event k) evs (c, w) = Inr (c', w')"
    and "connectionCallback k \<noteq> None \<longrightarrow> upDowns c = history (state c)" and "wire_ok c"
  shows "rank (state c) \<le> rank (state c') \<and>
    (connectionCallback k \<noteq> None \<longrightarrow> upDowns c' = history (state c')) \<and> wire_ok c' \<and>
    ((\<forall>i n. WriteFail i (Suc n) \<notin> set evs) \<longrightarrow> half_written c' = half_written c)"
  using assms
proof (induction evs arbitrary: c w)
  case Nil
  then show ?case by simp
next
  case (Cons ev evs)
  then obtain c1 w1 where c1: "conn_event k ev (c, w) = Inr (c1, w1)"
      "fold_result (conn_event k) evs (c1, w1) = Inr (c', w')"
    by (auto simp: and_then_eq_Inr)
  have m: "moves_on k c c1" by (rule conn_event_moves_on [OF c1(1)])
  have h: "half_written c1 = half_written c" if "\<forall>i n. WriteFail i (Suc n) \<notin> set (ev # evs)"
    using conn_event_moves [OF c1(1)] that by (auto simp: moves_def)
  have "rank (state c1) \<le> rank (state c') \<and>
    (connectionCallback k \<noteq> None \<longrightarrow> upDowns c' = history (state c')) \<and> wire_ok c' \<and>
    ((\<forall>i n. WriteFail i (Suc n) \<notin> set evs) \<longrightarrow> half_written c' = half_written c1)"
    by (rule Cons.IH [OF c1(2)]) (use m Cons.prems in \<open>auto simp: moves_on_def\<close>)
  then show ?case using m h by (auto simp: moves_on_def)
qed

lemma TcpConnection_new_ok:
  assumes "TcpConnection_new tid socket = Inr c"
  shows "state c = kConnecting" "upDowns c = []" "wire_ok c" "reading c = None" "writes c = []"
    "conn_tasks c = []" "loopTid c = tid" "torn c = False" "odd_sent c = False"
    "wire c = []" "accepted_bytes c = []" "half_written c = 0"
proof -
  obtain b where b: "Buffer_new kInitialSize = Inr b" "buf_ok b" "content b = []"
    using Buffer_new_ok [of kInitialSize] by (auto simp: kInitialSize_def)
  then show "state c = kConnecting" "upDowns c = []" "wire_ok c" "reading c = None" "writes c = []"
    "conn_tasks c = []" "loopTid c = tid" "torn c = False" "odd_sent c = False"
    "wire c = []" "accepted_bytes c = []" "half_written c = 0"
    using assms by (auto simp: TcpConnection_new_def wire_ok_def split: if_splits)
qed

text \<open>
  A connection without a pending write whose output buffer is not empty starts no write any more,
  until a message is sent that is empty or too long.
\<close>

definition stalled :: "byte list \<Rightarrow> bool \<Rightarrow> tcp_connection \<Rightarrow> bool" where
  "stalled sent sh c \<longleftrightarrow> odd_sent c \<or> writes c = [] \<and> buf_ok (outputBuffer c) \<and> content (outputBuffer c) \<noteq> [] \<and>
     wire c = sent \<and> send_shut c = sh"

lemma stalled_update [simp]:
  "stalled b h (c\<lparr>state := s\<rparr>) = stalled b h c" "stalled b h (c\<lparr>inputBuffer := i\<rparr>) = stalled b h c"
  "stalled b h (c\<lparr>reading := r\<rparr>) = stalled b h c" "stalled b h (c\<lparr>conn_tasks := t\<rparr>) = stalled b h c"
  "stalled b h (c\<lparr>strings := m\<rparr>) = stalled b h c" "stalled b h (c\<lparr>upDowns := v\<rparr>) = stalled b h c"
  "stalled b h (setState s c) = stalled b h c" "stalled b h (readHeader c) = stalled b h c"
  "stalled b h (conn_post u c) = stalled b h c" "stalled b h (forceClose c) = stalled b h c"
  by (simp_all add: stalled_def setState_def readHeader_def conn_post_def forceClose_def)

lemma send_stalled:
  assumes "stalled b h c" and r: "sendInThisThread tid p c = Inr c'"
  shows "stalled b h c'"
proof (cases "state c = kDisconnected \<or> odd_sent c'")
  case True
  then show ?thesis using assms
    by (auto simp: stalled_def sendInThisThread_def conn_assertInLoopThread_def split: if_splits)
next
  case False
  define n where "n = size_of_int (sint (piece_length p))"
  obtain out where out: "append_data (piece_ptr p) n (outputBuffer c) = Inr out" and
      c': "c' = (let c1 = c\<lparr>outputBuffer := out, accepted_bytes := accepted_bytes c @ take n (piece_ptr p),
          odd_sent := (odd_sent c \<or> n = 0 \<or> 2 ^ 31 \<le> n)\<rparr>
        in if readableBytes (outputBuffer c) = 0 then conn_write c1 else c1)"
    using r False by (auto simp: sendInThisThread_def conn_assertInLoopThread_def Let_def and_then_eq_Inr n_def
        split: if_splits)
  have odd: "\<not> odd_sent c" "n < 2 ^ 31" using False c' by (auto simp: Let_def conn_write_def split: if_splits)
  then have ok: "buf_ok (outputBuffer c)" "content (outputBuffer c) \<noteq> []" using assms(1) by (auto simp: stalled_def)
  have "readableBytes (outputBuffer c) \<noteq> 0" using length_content [OF ok(1)] ok(2) by (metis length_0_conv)
  moreover have "buf_ok out" "content out \<noteq> []" using append_data_Inr [OF ok(1) odd(2) out] ok(2) by auto
  ultimately show ?thesis using assms(1) odd c' by (auto simp: stalled_def)
qed

lemma shutdown_stalled:
  assumes "stalled b h c" and "shutdownInThisThread tid c = Inr c'"
  shows "stalled b h c'"
proof (cases "odd_sent c")
  case False
  then have ok: "buf_ok (outputBuffer c)" "content (outputBuffer c) \<noteq> []" using assms(1) by (auto simp: stalled_def)
  then show ?thesis using assms length_content [OF ok(1)]
    by (auto simp: shutdownInThisThread_def conn_assertInLoopThread_def and_then_eq_Inr split: if_splits)
qed (use assms in \<open>auto simp: stalled_def shutdownInThisThread_def conn_assertInLoopThread_def and_then_eq_Inr split: if_splits\<close>)

lemma run_call_stalled: "stalled b h c \<Longrightarrow> run_call call c = Inr c' \<Longrightarrow> stalled b h c'"
  using send_stalled [of b h c _ _ c'] shutdown_stalled [of b h "setState kDisconnecting c" _ c']
  by (cases call) (auto simp: run_call_def send_string_def conn_shutdown_def Let_def split: if_splits)

lemma run_calls_stalled: "stalled b h c \<Longrightarrow> fold_result run_call calls c = Inr c' \<Longrightarrow> stalled b h c'"
  by (induction calls arbitrary: c) (auto simp: and_then_eq_Inr intro: run_call_stalled)

lemma call_connection_stalled: "stalled b h c \<Longrightarrow> call_connection k (c, w) = Inr (c', w') \<Longrightarrow> stalled b h c'"
  using run_calls_stalled [of b h "c\<lparr>upDowns := upDowns c @ [state c]\<rparr>" _ c']
  by (auto simp: call_connection_def and_then_eq_Inr split: option.splits prod.splits)

lemma call_close_stalled: "stalled b h c \<Longrightarrow> call_close_if_set k (c, w) = Inr (c', w') \<Longrightarrow> stalled b h c'"
  using run_calls_stalled by (fastforce simp: call_close_if_set_def and_then_eq_Inr split: option.splits prod.splits)

lemma handleClose_stalled:
  assumes "stalled b h c" and "handleClose tid k (c, w) = Inr (c', w')"
  shows "stalled b h c'"
proof -
  obtain c1 w1 where "call_connection_if_set k (setState kDisconnected c, w) = Inr (c1, w1)"
      "call_close_if_set k (c1, w1) = Inr (c', w')"
    using assms(2) by (auto simp: handleClose_def conn_assertInLoopThread_def and_then_eq_Inr split: if_splits)
  then show ?thesis using call_connection_stalled [of b h "setState kDisconnected c" k w c1 w1] call_close_stalled [of b h c1] assms(1)
    by (auto simp: call_connection_if_set_def split: if_splits)
qed

lemma read_complete_stalled:
  assumes "stalled b h c" and "read_complete k r (c, w) = Inr (c', w')"
  shows "stalled b h c'"
proof (cases "stage r")
  case Header
  then show ?thesis using assms by (auto simp: read_complete_def readHeader_done_def readBody_def and_then_eq_Inr)
next
  case Body
  then obtain i calls v where "fold_result run_call calls (c\<lparr>reading := None, inputBuffer := i\<rparr>) = Inr v" "c' = readHeader v"
    using assms by (auto simp: read_complete_def readBody_done_def and_then_eq_Inr split: option.splits)
  then show ?thesis using run_calls_stalled [of b h "c\<lparr>reading := None, inputBuffer := i\<rparr>" calls v] assms(1) by simp
qed

lemma arrive_stalled:
  assumes st: "stalled b h c" and r: "arrive k bs (c, w) = Inr (c', w')"
  shows "stalled b h c'"
proof (cases "reading c")
  case (Some rd)
  let ?rd = "rd\<lparr>got := got rd + length (take (want rd - got rd) bs)\<rparr>"
  obtain i where i: "(if got ?rd = want ?rd then read_complete k ?rd (c\<lparr>inputBuffer := i, reading := Some ?rd\<rparr>, w)
      else Inr (c\<lparr>inputBuffer := i, reading := Some ?rd\<rparr>, w)) = Inr (c', w')"
    using r Some by (auto simp: arrive_def Let_def and_then_eq_Inr)
  show ?thesis
  proof (cases "got ?rd = want ?rd")
    case True
    then have "read_complete k ?rd (c\<lparr>inputBuffer := i, reading := Some ?rd\<rparr>, w) = Inr (c', w')" using i by simp
    from read_complete_stalled [OF _ this] show ?thesis using st by simp
  qed (use i st in auto)
qed (use assms in \<open>simp add: arrive_def\<close>)

lemma write_stalled:
  assumes st: "stalled b h c" and r: "write_done i c = Inr c' \<or> write_fail j n c = Inr c'"
  shows "stalled b h c'"
proof (cases "odd_sent c")
  case True
  then have "odd_sent c'" using r
    by (auto simp: write_done_def write_fail_def Let_def and_then_eq_Inr shutdownInThisThread_def conn_assertInLoopThread_def
      conn_write_def split: if_splits)
  then show ?thesis by (simp add: stalled_def)
qed (use assms in \<open>auto simp: stalled_def write_done_def write_fail_def\<close>)

lemma conn_event_stalled:
  assumes st: "stalled b h c" and r: "conn_event k ev (c, w) = Inr (c', w')"
  shows "stalled b h c'"
proof (cases ev)
  case (SendBufferFrom t x)
  then show ?thesis using assms send_stalled [OF st, of _ _ c']
    by (auto simp: conn_event_def send_buffer_def and_then_eq_Inr split: if_splits)
next
  case Established
  then show ?thesis using assms call_connection_stalled [of b h "setState kConnected c"]
    by (fastforce simp: conn_event_def connectEstablished_def conn_assertInLoopThread_def and_then_eq_Inr
      call_connection_if_set_def split: if_splits)
next
  case Destroyed
  then show ?thesis using assms call_connection_stalled [of b h "setState kDisconnected c"]
    by (auto simp: conn_event_def connectDestroyed_def conn_assertInLoopThread_def split: if_splits)
next
  case RunConnTask
  show ?thesis
  proof (cases "conn_tasks c")
    case (Cons t ts)
    then have "run_conn_task k t (c\<lparr>conn_tasks := ts\<rparr>, w) = Inr (c', w')" using r RunConnTask by (simp add: conn_event_def)
    then show ?thesis
      using st send_stalled [of b h "c\<lparr>conn_tasks := ts\<rparr>" _ _ c'] shutdown_stalled [of b h "c\<lparr>conn_tasks := ts\<rparr>" _ c']
        handleClose_stalled [of b h "c\<lparr>conn_tasks := ts\<rparr>" _ k w c' w']
      by (cases t) (auto simp: run_conn_task_def and_then_eq_Inr forceCloseInThisThread_def conn_assertInLoopThread_def
        split: option.splits if_splits)
  qed (use assms RunConnTask in \<open>simp add: conn_event_def\<close>)
next
  case (WriteDone i)
  then show ?thesis using r write_stalled [OF st, of i c' 0 0] by (auto simp: conn_event_def and_then_eq_Inr)
next
  case (WriteFail i n)
  then show ?thesis using r write_stalled [OF st, of 0 c' i n] by (auto simp: conn_event_def and_then_eq_Inr)
next
  case ReadFail
  then show ?thesis using assms handleClose_stalled [of b h "c\<lparr>reading := None\<rparr>"]
    by (auto simp: conn_event_def read_fail_def split: option.splits)
qed (use assms send_stalled [OF st, of _ _ c'] shutdown_stalled [of b h "setState kDisconnecting c" _ c'] arrive_stalled [OF st]
  in \<open>auto simp: conn_event_def and_then_eq_Inr send_string_def conn_shutdown_def Let_def split: if_splits\<close>)

lemma conn_events_stalled:
  "stalled b h c \<Longrightarrow> fold_result (conn_event k) evs (c, w) = Inr (c', w') \<Longrightarrow> stalled b h c'"
proof (induction evs arbitrary: c w)
  case (Cons ev evs)
  then obtain c1 w1 where c1: "conn_event k ev (c, w) = Inr (c1, w1)" "fold_result (conn_event k) evs (c1, w1) = Inr (c', w')"
    by (auto simp: and_then_eq_Inr)
  show ?case by (rule Cons.IH [OF conn_event_stalled [OF Cons.prems(1) c1(1)] c1(2)])
qed simp

text \<open>Sending in the loop thread when the message fits behind the content.\<close>

lemma buf_ok_reader: "buf_ok b \<Longrightarrow> readerIndex b = writerIndex b - length (content b)"
  using buf_okD(1) [of b] by (simp add: length_content readable_ok)

lemma send_string_loop:
  assumes "connected c" and "tid = loopTid c" and "length s < 2 ^ 31"
  shows "send_string tid k s c = and_then (append_all s (outputBuffer c)) (\<lambda>out.
     let c' = c\<lparr>outputBuffer := out, accepted_bytes := accepted_bytes c @ s, odd_sent := (odd_sent c \<or> s = [])\<rparr> in
     Inr (if readableBytes (outputBuffer c) = 0 then conn_write c' else c'))"
proof -
  have "size_of_int (sint (word_of_nat (length s) :: int32)) = length s"
    using assms(3) by (simp add: sint_int32_of_nat size_simps)
  then show ?thesis using assms
    by (simp add: send_string_def sendInThisThread_def conn_assertInLoopThread_def connected_def
        piece_of_string_def append_all_def Let_def not_le cong: if_cong)
qed

lemma append_all_fits:
  assumes "buf_ok b" and "writerIndex b + length s \<le> length (vec b)"
  obtains b' where "append_all s b = Inr b'" "buf_ok b'" "content b' = content b @ s"
    "readerIndex b' = readerIndex b" "writerIndex b' = writerIndex b + length s" "length (vec b') = length (vec b)"
proof -
  obtain b' where b': "append_data s (length s) b = Inr b'" "buf_ok b'" "content b' = content b @ s"
      "writerIndex b' = writerIndex b + length s" "length (vec b') = length (vec b)"
    using append_data_fits [OF assms, of s] by auto
  have "length (content b) \<le> writerIndex b"
    using length_content [OF assms(1)] readable_ok [OF assms(1)] by simp
  then have "readerIndex b' = readerIndex b"
    using buf_ok_reader [OF assms(1)] buf_ok_reader [OF b'(2)] b'(3,4) by simp
  then show ?thesis using that b' by (simp add: append_all_def)
qed

lemma sint_int32_of_int:
  assumes "- 2147483648 \<le> i" and "i < 2147483648"
  shows "sint (word_of_int i :: int32) = i"
  using assms by (simp add: signed_of_int signed_take_bit_int_eq_self)

section \<open>Properties\<close>

text \<open>A connection as constructed, and callbacks that make no calls, on which the witnesses run.\<close>

definition fresh_connection :: tcp_connection where
  "fresh_connection = \<lparr>loopTid = 0, state = kConnecting,
     inputBuffer = \<lparr>vec = replicate 1032 0, readerIndex = 8, writerIndex = 8\<rparr>,
     outputBuffer = \<lparr>vec = replicate 1032 0, readerIndex = 8, writerIndex = 8\<rparr>,
     reading = None, writes = [], conn_tasks = [], send_shut = False, strings = (\<lambda>_. None), upDowns = [],
     accepted_bytes = [], wire = [], half_written = 0, torn = False, odd_sent = False\<rparr>"

lemma fresh_connection_new: "TcpConnection_new 0 (sound_socket fd) = Inr fresh_connection"
  by (simp add: sound_socket_def TcpConnection_new_def Buffer_new_def fresh_connection_def buffer_defs size_simps
      readableBytes_def writableBytes_def Let_def)

definition silent :: "unit callbacks" where
  "silent = \<lparr>connectionCallback = Some (\<lambda>_ w. ([], w)), messageCallback = Some (\<lambda>b w. Inr (retrieveAll b, [], w)),
     closeCallback = Some (\<lambda>w. ([], w))\<rparr>"

definition open_connection :: tcp_connection where
  "open_connection = fresh_connection\<lparr>state := kConnected, upDowns := [kConnected],
     reading := Some \<lparr>stage = Header, target = 8, want = 4, got = 0\<rparr>\<rparr>"

lemma open_connection_event: "conn_event silent Established (fresh_connection, ()) = Inr (open_connection, ())"
  by (simp add: conn_event_def connectEstablished_def conn_assertInLoopThread_def fresh_connection_def silent_def
      call_connection_if_set_def call_connection_def setState_def readHeader_def open_connection_def)

text \<open>
  C8: the state of a connection only goes forward, and its user sees it come up once and go
  down once.  Whatever events happen to a new connection, in any order, and whatever calls its
  callbacks make, when the code returns without fault the state never went back along
  connecting, connected, disconnecting, disconnected, and \<open>connectionCallback_\<close> has been
  called exactly: never while connecting, once (connected) until it is disconnected, and a second and
  last time (disconnected) when it is.
\<close>

theorem connection_lifecycle:
  assumes "TcpConnection_new tid socket = Inr c" and "connectionCallback k \<noteq> None"
    and "fold_result (conn_event k) (evs @ evs') (c, w) = Inr (c', w')"
  shows "\<exists>c1 w1. fold_result (conn_event k) evs (c, w) = Inr (c1, w1) \<and>
    rank (state c1) \<le> rank (state c') \<and> upDowns c1 = history (state c1) \<and> upDowns c' = history (state c')"
proof -
  obtain c1 w1 where c1: "fold_result (conn_event k) evs (c, w) = Inr (c1, w1)"
      "fold_result (conn_event k) evs' (c1, w1) = Inr (c', w')"
    using assms(3) by (auto simp: fold_result_append and_then_eq_Inr)
  have "upDowns c1 = history (state c1)" "wire_ok c1"
    using conn_events_invariant [OF c1(1)] TcpConnection_new_ok [OF assms(1)] assms(2) by auto
  then show ?thesis using conn_events_invariant [OF c1(2)] assms(2) c1(1) by auto
qed

theorem connection_lifecycle_witness:
  "\<exists>c1 w1. fold_result (conn_event silent) [Established] (fresh_connection, ()) = Inr (c1, w1) \<and>
    rank (state c1) \<le> rank (state open_connection) \<and> upDowns c1 = history (state c1) \<and>
    upDowns open_connection = history (state open_connection)"
  by (rule connection_lifecycle [of 0 "sound_socket 0" fresh_connection silent "[Established]" "[]", OF fresh_connection_new])
    (simp_all add: open_connection_event, simp add: silent_def)

text \<open>
  C9: the bytes of a connection are sent in order, once and without gaps.  After any events, if
  no message was empty (or longer than an \<open>int\<close> can say) and no write was overtaken by
  a move of the buffer's content, the bytes accepted from the user are the bytes on the wire
  followed by the content of the output buffer without those bytes at its front that a write put on
  the wire before it failed, and at most one write is pending, none after such a failure.  If no
  write failed part of the way, there are no such bytes.
\<close>

theorem connection_sends_in_order:
  assumes "TcpConnection_new tid socket = Inr c" and "fold_result (conn_event k) evs (c, w) = Inr (c', w')"
    and "\<not> torn c'" and "\<not> odd_sent c'"
  shows "accepted_bytes c' = wire c' @ drop (half_written c') (content (outputBuffer c')) \<and>
    half_written c' \<le> length (content (outputBuffer c')) \<and>
    length (writes c') \<le> (if half_written c' = 0 then 1 else 0) \<and>
    ((\<forall>i n. WriteFail i (Suc n) \<notin> set evs) \<longrightarrow> half_written c' = 0)"
proof -
  have "connectionCallback k \<noteq> None \<longrightarrow> upDowns c = history (state c)" "wire_ok c" "half_written c = 0"
    using TcpConnection_new_ok [OF assms(1)] by auto
  then have "wire_ok c'" "(\<forall>i n. WriteFail i (Suc n) \<notin> set evs) \<longrightarrow> half_written c' = 0"
    using conn_events_invariant [OF assms(2)] by simp_all
  then show ?thesis using assms(3,4) by (auto simp: wire_ok_def)
qed

definition sent_one :: tcp_connection where
  "sent_one = open_connection\<lparr>outputBuffer := \<lparr>vec = overwrite 8 [5, 6] (replicate 1032 0), readerIndex = 8, writerIndex = 8\<rparr>,
     accepted_bytes := [5, 6], wire := [5, 6]\<rparr>"

lemma sent_one_run:
  "fold_result (conn_event silent) [Established, SendFrom 0 1 [5, 6], WriteDone 0] (fresh_connection, ()) =
     Inr (sent_one, ())"
proof -
  let ?out = "\<lparr>vec = overwrite 8 [5, 6] (replicate 1032 0), readerIndex = 8, writerIndex = 10\<rparr>"
  have send: "send_string 0 1 [5, 6] open_connection = Inr (sent_one\<lparr>wire := [], outputBuffer := ?out,
      writes := [\<lparr>source = 8, count_bytes = 2, storage = 1032\<rparr>]\<rparr>)"
    by (subst send_string_loop)
      (simp_all add: open_connection_def fresh_connection_def connected_def append_all_def append_data_def
        ensureWritableBytes_def writableBytes_def readableBytes_def size_simps store_bytes_def hasWritten_def
        conn_write_def sent_one_def)
  have "write_done 0 (sent_one\<lparr>wire := [], outputBuffer := ?out,
      writes := [\<lparr>source = 8, count_bytes = 2, storage = 1032\<rparr>]\<rparr>) = Inr sent_one"
    by (simp add: write_done_def retrieve_def retrieveAll_def readableBytes_def size_simps buffer_defs sent_one_def
        open_connection_def fresh_connection_def)
  with send show ?thesis by (simp add: open_connection_event) (simp add: conn_event_def open_connection_def fresh_connection_def)
qed

definition part_sent :: tcp_connection where
  "part_sent = sent_one\<lparr>outputBuffer := \<lparr>vec = overwrite 8 [5, 6] (replicate 1032 0), readerIndex = 8, writerIndex = 10\<rparr>,
     wire := [5], half_written := 1\<rparr>"

lemma part_sent_starts:
  "fold_result (conn_event silent) [Established, SendFrom 0 1 [5, 6]] (fresh_connection, ()) =
     Inr (part_sent\<lparr>wire := [], half_written := 0, writes := [\<lparr>source = 8, count_bytes = 2, storage = 1032\<rparr>]\<rparr>, ())"
proof -
  have "send_string 0 1 [5, 6] open_connection =
      Inr (part_sent\<lparr>wire := [], half_written := 0, writes := [\<lparr>source = 8, count_bytes = 2, storage = 1032\<rparr>]\<rparr>)"
    by (subst send_string_loop)
      (simp_all add: open_connection_def fresh_connection_def connected_def append_all_def append_data_def
        ensureWritableBytes_def writableBytes_def readableBytes_def size_simps store_bytes_def hasWritten_def
        conn_write_def part_sent_def sent_one_def)
  then show ?thesis by (simp add: open_connection_event) (simp add: conn_event_def open_connection_def fresh_connection_def)
qed

lemma part_sent_fails:
  "write_fail 0 1 (part_sent\<lparr>wire := [], half_written := 0, writes := [\<lparr>source = 8, count_bytes = 2, storage = 1032\<rparr>]\<rparr>) =
     Inr part_sent"
  by (simp add: write_fail_def part_sent_def sent_one_def open_connection_def fresh_connection_def overwrite_def segment_def)

lemma part_sent_run:
  "fold_result (conn_event silent) [Established, SendFrom 0 1 [5, 6], WriteFail 0 1] (fresh_connection, ()) =
     Inr (part_sent, ())"
  using part_sent_starts part_sent_fails
  by (auto simp: and_then_eq_Inr) (simp_all add: conn_event_def)

theorem connection_sends_in_order_witness:
  "accepted_bytes part_sent = wire part_sent @ drop (half_written part_sent) (content (outputBuffer part_sent)) \<and>
    half_written part_sent \<le> length (content (outputBuffer part_sent)) \<and>
    length (writes part_sent) \<le> (if half_written part_sent = 0 then 1 else 0)"
proof -
  have "\<not> torn part_sent" "\<not> odd_sent part_sent"
    by (simp_all add: part_sent_def sent_one_def open_connection_def fresh_connection_def)
  from connection_sends_in_order [OF fresh_connection_new part_sent_run this] show ?thesis by simp
qed



text \<open>
  closing a connection twice aborts.  \<open>handleClose\<close> does not cancel the pending read;
  when \<open>forceClose\<close> has closed an open connection, the next read error (the peer closing its
  end) calls \<open>handleClose\<close> again, whose assertion then fails, whatever the callbacks are.
\<close>

theorem forceClose_then_read_error:
  assumes "connected c \<or> state c = kDisconnecting" and "reading c \<noteq> None" and "conn_tasks c = []"
    and "fold_result (conn_event k) [ForceCloseFrom, RunConnTask] (c, w) = Inr cw"
  shows "state (fst cw) = kDisconnected \<and> conn_event k ReadFail cw = Inl Assert_Failed"
proof -
  obtain c' w' where cw: "cw = (c', w')" by (cases cw)
  have "forceClose c = c\<lparr>state := kDisconnecting, conn_tasks := [ForceCloseTask]\<rparr>"
    using assms(1,3) by (auto simp: forceClose_def conn_post_def setState_def connected_def)
  then have "handleClose (loopTid c) k (c\<lparr>state := kDisconnecting, conn_tasks := []\<rparr>, w) = Inr (c', w')"
    using assms(4) cw by (simp add: conn_event_def run_conn_task_def forceCloseInThisThread_def conn_assertInLoopThread_def)
  from handleClose_ok [OF this] have "state c' = kDisconnected" "reading c' = reading c" by simp_all
  then show ?thesis using assms(2) cw
    by (auto simp: conn_event_def read_fail_def handleClose_def conn_assertInLoopThread_def)
qed

theorem forceClose_then_read_error_witness:
  "state (fst (open_connection\<lparr>state := kDisconnected, upDowns := [kConnected, kDisconnected]\<rparr>, ())) = kDisconnected \<and>
   conn_event silent ReadFail (open_connection\<lparr>state := kDisconnected, upDowns := [kConnected, kDisconnected]\<rparr>, ()) =
     Inl Assert_Failed"
  by (rule forceClose_then_read_error [of open_connection _ "()"])
    (simp_all add: open_connection_def fresh_connection_def connected_def conn_event_def forceClose_def conn_post_def
      setState_def run_conn_task_def forceCloseInThisThread_def conn_assertInLoopThread_def handleClose_def
      call_connection_if_set_def call_connection_def call_close_if_set_def silent_def)

text \<open>
  \<open>send(std::string&&)\<close> from another thread reads a dead string.  What is posted to the
  loop is only a pointer to the caller's string, so when the string's life ends before the loop
  runs the task, the task reads freed memory.
\<close>

theorem send_string_other_thread_dangles:
  assumes "connected c" and "tid \<noteq> loopTid c" and "conn_tasks c = []"
  shows "fold_result (conn_event k) [SendFrom tid p s, StringDies p, RunConnTask] (c, w) = Inl Use_After_Free"
  using assms by (simp add: conn_event_def send_string_def conn_post_def run_conn_task_def)

theorem send_string_other_thread_dangles_witness:
  "fold_result (conn_event silent) [SendFrom 3 9 [65], StringDies 9, RunConnTask] (open_connection, ()) = Inl Use_After_Free"
  by (rule send_string_other_thread_dangles) (simp_all add: open_connection_def fresh_connection_def connected_def)

text \<open>
  an empty message makes the next one be sent twice and then aborts.  After an empty
  \<open>send\<close> the output buffer is still empty, so the next \<open>send\<close> starts a second write.
  When two writes have completed, the message is on the wire and the buffer is empty, but a third
  write of the same bytes is pending; its completion retrieves them a second time and fails the
  assertion.
\<close>

theorem empty_send_duplicates:
  assumes "connected c" and "writes c = []" and "outputBuffer c = \<lparr>vec = v, readerIndex = 8, writerIndex = 8\<rparr>"
    and "s \<noteq> []" and "length s < 2 ^ 31" and "8 + length s \<le> length v" and "length v \<le> max_size"
  shows "\<exists>c' op. fold_result (conn_event k)
      [SendFrom (loopTid c) p [], SendFrom (loopTid c) p s, WriteDone 0, WriteDone 0] (c, w) = Inr (c', w) \<and>
    wire c' = wire c @ s \<and> accepted_bytes c' = accepted_bytes c @ s \<and> content (outputBuffer c') = [] \<and>
    writes c' = [op] \<and> segment (source op) (source op + count_bytes op) (vec (outputBuffer c')) = s \<and>
    conn_event k (WriteDone 0) (c', w) = Inl Assert_Failed"
proof -
  have ok: "buf_ok (outputBuffer c)" "content (outputBuffer c) = []" "readableBytes (outputBuffer c) = 0"
    using assms by (simp_all add: buffer_defs content_def readableBytes_def size_simps)
  have nil: "append_all [] (outputBuffer c) = Inr (outputBuffer c)"
    using assms by (simp add: append_all_def append_data_def ensureWritableBytes_def store_bytes_def overwrite_def
        hasWritten_def size_add_def)
  obtain b where b: "append_all s (outputBuffer c) = Inr b" "buf_ok b" "content b = s" "readerIndex b = 8"
      "writerIndex b = 8 + length s" "length (vec b) = length v"
    by (rule append_all_fits [OF ok(1), of s]) (use assms ok in auto)
  have rb: "readableBytes b = length s" using length_content [OF b(2)] b(3) by simp
  have seg: "segment 8 (8 + length s) (vec b) = s" using b(3,4,5) by (simp add: content_def)
  have ret: "retrieve 0 b = Inr b" "retrieve (length s) b = Inr (retrieveAll b)"
    using assms(4,5) rb b(4) by (simp_all add: retrieve_def size_add_def)
  let ?e = "c\<lparr>odd_sent := True,
    writes := [\<lparr>source = 8, count_bytes = 0, storage = length v\<rparr>]\<rparr>"
  have s1: "send_string (loopTid c) p [] c = Inr ?e"
    using assms(1,2,3) nil ok(3) by (simp add: send_string_loop conn_write_def)
  have ce: "connected ?e" using assms(1) by (simp add: connected_def)
  let ?w = "\<lparr>source = 8, count_bytes = length s, storage = length v\<rparr>"
  let ?f = "?e\<lparr>outputBuffer := b, accepted_bytes := accepted_bytes c @ s,
    writes := [\<lparr>source = 8, count_bytes = 0, storage = length v\<rparr>, ?w]\<rparr>"
  have s2: "send_string (loopTid c) p s ?e = Inr ?f"
    using b(1,4,6) ok(3) rb by (subst send_string_loop [OF ce _ assms(5)]) (simp_all add: conn_write_def)
  let ?g = "?f\<lparr>writes := [?w, ?w]\<rparr>"
  have d1: "write_done 0 ?f = Inr ?g"
    using b(4,6) ret(1) rb assms(4) by (simp add: write_done_def conn_write_def)
  let ?h = "?g\<lparr>writes := [?w], wire := wire c @ s, outputBuffer := retrieveAll b\<rparr>"
  have d2: "write_done 0 ?g = Inr ?h"
    using b(4,6) ret(2) seg assms(1) by (simp add: write_done_def retrieveAll_def readableBytes_def size_simps connected_def Let_def kCheapPrepend_def)
  have d3: "write_done 0 ?h = Inl Assert_Failed"
    using b(6) assms(4) by (simp add: write_done_def retrieveAll_def readableBytes_def size_simps retrieve_def Let_def kCheapPrepend_def)
  have "fold_result (conn_event k)
      [SendFrom (loopTid c) p [], SendFrom (loopTid c) p s, WriteDone 0, WriteDone 0] (c, w) = Inr (?h, w)"
    using s1 s2 d1 d2 by (simp add: conn_event_def)
  then show ?thesis using d3 seg
    by (intro exI [of _ ?h] exI [of _ ?w]) (simp add: conn_event_def retrieveAll_def content_def)
qed

theorem empty_send_duplicates_witness:
  "\<exists>c' op. fold_result (conn_event silent)
      [SendFrom (loopTid open_connection) 1 [], SendFrom (loopTid open_connection) 1 [7], WriteDone 0, WriteDone 0]
      (open_connection, ()) = Inr (c', ()) \<and>
    wire c' = wire open_connection @ [7] \<and> accepted_bytes c' = accepted_bytes open_connection @ [7] \<and>
    content (outputBuffer c') = [] \<and> writes c' = [op] \<and>
    segment (source op) (source op + count_bytes op) (vec (outputBuffer c')) = [7] \<and>
    conn_event silent (WriteDone 0) (c', ()) = Inl Assert_Failed"
  by (rule empty_send_duplicates [where v = "replicate 1032 0"])
    (simp_all add: open_connection_def fresh_connection_def connected_def)

text \<open>
  sending while a write is pending may send wrong bytes.  A message appended while a write
  is pending can make the buffer move its content to the front of the vector; the pending write
  still sends from the old place, where the bytes of the new message are now.
\<close>

theorem send_during_write_tears:
  assumes c: "connected c" "buf_ok (outputBuffer c)" "n = length (content (outputBuffer c))" "0 < n"
    and pending: "writes c = [\<lparr>source = r, count_bytes = n, storage = length (vec (outputBuffer c))\<rparr>]"
    and r: "r = readerIndex (outputBuffer c)" "8 + n \<le> r" "r - 8 \<le> length s"
    and s: "length s < 2 ^ 31" "length (vec (outputBuffer c)) < r + n + length s"
      "8 + n + length s \<le> length (vec (outputBuffer c))"
  shows "\<exists>c'. fold_result (conn_event k) [SendFrom (loopTid c) p s, WriteDone 0] (c, w) = Inr (c', w) \<and>
    wire c' = wire c @ take n (drop (r - 8 - n) s) \<and> accepted_bytes c' = accepted_bytes c @ s \<and> torn c'"
proof -
  let ?b = "outputBuffer c"
  have wr: "writerIndex ?b = r + n"
    using buf_okD(1) [OF c(2)] length_content [OF c(2)] readable_ok [OF c(2)] c(3) r(1) by simp
  note inv = buf_okD [OF c(2)]
  let ?m = "?b\<lparr>vec := overwrite 8 (content ?b) (vec ?b), readerIndex := 8, writerIndex := 8 + length (content ?b)\<rparr>"
  have more: "length (vec ?b) - writerIndex ?b < length s" using s(2) wr inv by linarith
  have fits: "length s + 8 \<le> length (vec ?b) - writerIndex ?b + readerIndex ?b"
    using s(3) wr r(1,2) inv by linarith
  have vm: "length (vec ?m) = length (vec ?b)" using c(3) s(3) by simp
  have okm: "buf_ok ?m" using c(3) s(3) inv by (simp add: buffer_defs)
  have cm: "content ?m = content ?b" using c(3) s(3) by (simp add: content_def [of ?m])
  have nf: "\<not> length (vec ?b) - (8 + length (content ?b)) < length s" using c(3) s(3) by linarith
  have "writableBytes ?m = length (vec ?b) - (8 + length (content ?b))" using writable_ok [OF okm] vm by simp
  then have ens: "ensureWritableBytes (length s) ?b = Inr ?m" "ensureWritableBytes (length s) ?m = Inr ?m"
    using makeSpace_move [OF c(2) fits more] more nf writable_ok [OF c(2)]
    by (simp_all add: ensureWritableBytes_def)
  then have same: "append_all s ?b = append_all s ?m" by (simp add: append_all_def append_data_def)
  obtain b where b: "append_all s ?m = Inr b" "buf_ok b" "content b = content ?b @ s" "readerIndex b = 8"
      "writerIndex b = 8 + n + length s" "length (vec b) = length (vec ?b)"
    by (rule append_all_fits [OF okm, of s]) (use c(3) s(3) cm vm in auto)
  have "readableBytes ?b \<noteq> 0" using length_content [OF c(2)] c(3,4) by simp
  then have send: "send_string (loopTid c) p s c = Inr (c\<lparr>outputBuffer := b,
      accepted_bytes := accepted_bytes c @ s, odd_sent := (odd_sent c \<or> s = [])\<rparr>)"
    using same b(1) by (simp add: send_string_loop [OF c(1) refl s(1)])
  have nb: "n \<le> length (content b)" using b(3) c(3) by simp
  obtain b' where b': "retrieve n b = Inr b'" "buf_ok b'" "content b' = s"
    using retrieve_ok [OF b(2) nb] b(3) c(3) by auto
  have "length s > 0" using r(2,3) c(4) by linarith
  moreover have "readableBytes b' = length s" using length_content [OF b'(2)] b'(3) by simp
  ultimately have rb': "readableBytes b' \<noteq> 0" by linarith
  have "segment r (r + n) (vec b) = take n (drop (r - 8) (content b))"
  proof -
    have "r + n \<le> 8 + n + length s" using r(2,3) by linarith
    then show ?thesis using r(2) b(4,5) by (simp add: content_def drop_segment take_segment)
  qed
  also have "\<dots> = take n (drop (r - 8 - n) s)" using b(3) c(3) r(2) by (simp add: add.commute)
  finally have seg: "segment r (r + n) (vec b) = take n (drop (r - 8 - n) s)" .
  have "r \<noteq> 8" using r(2) c(4) by simp
  then show ?thesis using send pending seg b(4,6) b'(1) rb'
    by (simp add: conn_event_def write_done_def conn_write_def)
qed

definition half_sent :: tcp_connection where
  "half_sent = open_connection\<lparr>
     outputBuffer := \<lparr>vec = replicate 508 1 @ replicate 10 2 @ replicate 514 0, readerIndex = 508, writerIndex = 518\<rparr>,
     writes := [\<lparr>source = 508, count_bytes = 10, storage = 1032\<rparr>]\<rparr>"

theorem send_during_write_tears_witness:
  "\<exists>c'. fold_result (conn_event silent) [SendFrom (loopTid half_sent) 1 (replicate 600 3), WriteDone 0] (half_sent, ()) =
      Inr (c', ()) \<and> wire c' = wire half_sent @ take 10 (drop (508 - 8 - 10) (replicate 600 3)) \<and>
    accepted_bytes c' = accepted_bytes half_sent @ replicate 600 3 \<and> torn c'"
  by (rule send_during_write_tears)
    (simp_all add: half_sent_def open_connection_def fresh_connection_def connected_def buffer_defs content_def)

text \<open>
  the length a peer sends is not checked.  When the header is the integer \<open>-n\<close> with
  \<open>9 \<le> n \<le> 12\<close>, \<open>readHeader\<close>'s handler cuts the input vector below its writer index and
  starts to read the body there: the first byte that arrives is stored outside the vector.
\<close>

theorem negative_length_overflows:
  assumes "9 \<le> n" and "n \<le> 12" and "bs \<noteq> []"
  shows "fold_result (conn_event k) [Arrive (be_bytes32 (word_of_int (- int n))), Arrive bs] (open_connection, w) =
    Inl Out_Of_Bounds"
proof -
  define hdr where "hdr = be_bytes32 (word_of_int (- int n))"
  define b1 where "b1 = \<lparr>vec = overwrite 8 hdr (replicate 1032 0), readerIndex = 8, writerIndex = 12\<rparr>"
  have hdr: "length hdr = 4" by (simp add: hdr_def)
  have len: "length (overwrite 8 hdr (replicate 1032 0)) = 1032" using hdr by simp
  have ok: "buf_ok b1" using len by (simp add: b1_def buffer_defs)
  have "content b1 = hdr" using hdr by (simp add: b1_def content_def)
  then have "peekInt32 b1 = Inr (word_of_int (- int n))"
    using peekInt32_ok [OF ok, of "word_of_int (- int n)" "[]"] by (simp add: hdr_def)
  moreover have "sint (word_of_int (- int n) :: int32) = - int n"
    using assms by (intro sint_int32_of_int) simp_all
  moreover have "ensureWritableBytes (size_of_int (- int n)) b1 = Inr (b1\<lparr>vec := take (12 - n) (vec b1)\<rparr>)"
    using ensureWritableBytes_negative [OF ok assms(1)] assms(2) by (simp add: b1_def)
  moreover have "hasWritten 4 \<lparr>vec = overwrite 8 hdr (replicate 1032 0), readerIndex = 8, writerIndex = 8\<rparr> = Inr b1"
    using len by (simp add: hasWritten_def writableBytes_def size_simps b1_def)
  moreover have "size_of_int (- int n) = size_lim - n" using assms by (intro size_of_int_neg) simp_all
  ultimately have head: "conn_event k (Arrive hdr) (open_connection, w) = Inr (open_connection\<lparr>
      inputBuffer := b1\<lparr>vec := take (12 - n) (vec b1)\<rparr>,
      reading := Some \<lparr>stage = Body, target = 12, want = size_lim - n, got = 0\<rparr>\<rparr>, w)"
    using hdr
    by (simp add: conn_event_def arrive_def open_connection_def fresh_connection_def store_bytes_def
        read_complete_def readHeader_done_def readBody_def b1_def)
  have "0 < length (take (size_lim - n) bs)" using assms by (cases bs) simp_all
  moreover have "length (take (12 - n) (vec b1)) \<le> 12" by simp
  ultimately have "\<not> 12 + length (take (size_lim - n) bs) \<le> length (take (12 - n) (vec b1))"
    by linarith
  then have "store_bytes 12 (take (size_lim - n) bs) (b1\<lparr>vec := take (12 - n) (vec b1)\<rparr>) = Inl Out_Of_Bounds"
    by (simp add: store_bytes_def del: length_take)
  then have "conn_event k (Arrive bs) (open_connection\<lparr>
      inputBuffer := b1\<lparr>vec := take (12 - n) (vec b1)\<rparr>,
      reading := Some \<lparr>stage = Body, target = 12, want = size_lim - n, got = 0\<rparr>\<rparr>, w) = Inl Out_Of_Bounds"
    by (simp add: conn_event_def arrive_def)
  with head show ?thesis unfolding hdr_def [symmetric] by simp
qed

theorem negative_length_overflows_witness:
  "fold_result (conn_event silent) [Arrive (be_bytes32 (word_of_int (- int 9))), Arrive [65]] (open_connection, ()) =
    Inl Out_Of_Bounds"
  by (rule negative_length_overflows) simp_all

end
