(* ===== verification/Tcp_Server.thy ===== *)
theory Tcp_Server
  imports Loop_Pool Tcp_Connection "HOL-Library.List_Lexorder" "HOL-Library.Char_ord"
begin

text \<open>
  \<open>Net/TcpServer.h/.cpp\<close> and \<open>Net/Accept.h/.cpp\<close>: the acceptor loop, the map from
  connection names to connections, and the tasks the server exchanges with the loops of its pool.
  A connection is the part the server uses: its name, its loop and its state (what happens inside
  it is \<open>Tcp_Connection\<close>).  Loop \<open>l\<close> runs its posted tasks in order; a dispatch to the
  loop whose thread is running is a direct call.
\<close>

section \<open>Names\<close>

fun dec :: "nat \<Rightarrow> string" where
  "dec n = (if n < 10 then [char_of (48 + n)] else dec (n div 10) @ [char_of (48 + n mod 10)])"

declare dec.simps [simp del]

text \<open>\<open>%d\<close> of a \<open>uint32_t\<close>: the bits read as an \<open>int\<close>.\<close>

definition print_int :: "int32 \<Rightarrow> string" where
  "print_int w = (if sint w < 0 then CHR ''-'' # dec (nat (- sint w)) else dec (nat (sint w)))"

text \<open>\<open>snprintf\<close> into a buffer of \<open>n\<close> characters, the terminating null included.\<close>

definition snprintf :: "nat \<Rightarrow> string \<Rightarrow> string" where
  "snprintf n s = take (n - 1) s"

definition connection_name :: "string \<Rightarrow> string \<Rightarrow> int32 \<Rightarrow> string" where
  "connection_name name ipPort i = name @ snprintf 64 (''-'' @ ipPort @ ''#'' @ print_int i)"

section \<open>State\<close>

record server_conn =
  conn_name :: string
  conn_loop :: nat
  conn_state :: stateE

datatype server_task = EstablishTask nat | DestroyTask nat | RemoveTask nat

text \<open>
  \<open>objects i\<close> is the \<open>i\<close>-th of the \<open>created\<close> connections,
  \<open>connections\<close> is \<open>connections_\<close>, \<open>inbox l\<close> the tasks posted to loop \<open>l\<close>.
\<close>

record tcp_server =
  base :: nat
  pool :: loop_pool
  server_started :: bool
  server_ipPort :: string
  server_name :: string
  nextConnId :: int32
  created :: nat
  objects :: "nat \<Rightarrow> server_conn"
  connections :: "string \<Rightarrow> nat option"
  inbox :: "nat \<Rightarrow> server_task list"
  accepting :: bool

definition TcpServer_new :: "nat \<Rightarrow> string \<Rightarrow> string \<Rightarrow> tcp_server" where
  "TcpServer_new lp ipPort name = \<lparr>base = lp, pool = IOLoopThreadPool_new lp lp, server_started = False,
     server_ipPort = ipPort, server_name = name, nextConnId = 1, created = 0,
     objects = (\<lambda>_. \<lparr>conn_name = [], conn_loop = 0, conn_state = kDisconnected\<rparr>), connections = (\<lambda>_. None),
     inbox = (\<lambda>_. []), accepting = False\<rparr>"

definition server_setThreadNum :: "int32 \<Rightarrow> tcp_server \<Rightarrow> tcp_server" where
  "server_setThreadNum n s = s\<lparr>pool := setThreadNum n (pool s)\<rparr>"

definition Acceptor_accept :: "tcp_server \<Rightarrow> tcp_server" where
  "Acceptor_accept s = s\<lparr>accepting := True\<rparr>"

definition Acceptor_start :: "tcp_server \<Rightarrow> tcp_server" where
  "Acceptor_start s = Acceptor_accept s"

definition TcpServer_start :: "(nat \<Rightarrow> nat) \<Rightarrow> tcp_server \<Rightarrow> tcp_server result" where
  "TcpServer_start start s = (if server_started s then Inr s
     else and_then (pool_run start (pool s)) (\<lambda>p.
       Inr (Acceptor_start (s\<lparr>server_started := True, pool := p\<rparr>))))"

section \<open>Connections\<close>

definition inbox_post :: "nat \<Rightarrow> server_task \<Rightarrow> tcp_server \<Rightarrow> tcp_server" where
  "inbox_post l t s = s\<lparr>inbox := (inbox s)(l := inbox s l @ [t])\<rparr>"

definition set_conn_state :: "nat \<Rightarrow> stateE \<Rightarrow> tcp_server \<Rightarrow> tcp_server" where
  "set_conn_state c x s = s\<lparr>objects := (objects s)(c := (objects s c)\<lparr>conn_state := x\<rparr>)\<rparr>"

definition conn_established :: "nat \<Rightarrow> tcp_server \<Rightarrow> tcp_server result" where
  "conn_established c s = (if conn_state (objects s c) \<noteq> kConnecting then Inl Assert_Failed
     else Inr (set_conn_state c kConnected s))"

definition conn_destroyed :: "nat \<Rightarrow> tcp_server \<Rightarrow> tcp_server result" where
  "conn_destroyed c s = Inr (if conn_state (objects s c) = kConnected
     then set_conn_state c kDisconnected s else s)"

definition removeConnectionInThisThread :: "nat \<Rightarrow> tcp_server \<Rightarrow> tcp_server result" where
  "removeConnectionInThisThread c s =
     (let name = conn_name (objects s c) in
      if connections s name = None then Inl Assert_Failed
      else Inr (inbox_post (conn_loop (objects s c)) (DestroyTask c)
        (s\<lparr>connections := (connections s)(name := None)\<rparr>)))"

definition removeConnection :: "nat \<Rightarrow> nat \<Rightarrow> tcp_server \<Rightarrow> tcp_server result" where
  "removeConnection tid c s = (if tid = base s then removeConnectionInThisThread c s
     else Inr (inbox_post (base s) (RemoveTask c) s))"

text \<open>
  \<open>newConnection\<close>: a loop, a name, the log line, which asks the socket for its peer and
  throws when that is gone, an entry in the map; then the dispatch to that loop.  The constructor
  of the connection throws when it cannot set the options of the socket.  Nothing catches an exception.
\<close>

definition add_connection :: "tcp_socket \<Rightarrow> tcp_server \<Rightarrow> (nat \<times> nat \<times> tcp_server) result" where
  "add_connection socket s =
     and_then (getNextLoop_fd (base s) (native_handle socket) (pool s)) (\<lambda>ioLoop.
     let name = connection_name (server_name s) (server_ipPort s) (nextConnId s);
         c = created s in
     if \<not> peer_known socket then Inl Runtime_Error
     else Inr (ioLoop, c, s\<lparr>nextConnId := nextConnId s + 1,
               created := c + 1,
               objects := (objects s)(c := \<lparr>conn_name = name, conn_loop = ioLoop, conn_state = kConnecting\<rparr>),
               connections := (connections s)(name \<mapsto> c)\<rparr>))"

definition newConnection :: "tcp_socket \<Rightarrow> tcp_server \<Rightarrow> tcp_server result" where
  "newConnection socket s = and_then (add_connection socket s) (\<lambda>(ioLoop, c, s).
     if \<not> options_settable socket then Inl Runtime_Error
     else if ioLoop = base s then conn_established c s else Inr (inbox_post ioLoop (EstablishTask c) s))"

text \<open>The completion of \<open>async_accept\<close>: the socket, or an error.\<close>

definition accept_done :: "tcp_socket option \<Rightarrow> tcp_server \<Rightarrow> tcp_server result" where
  "accept_done accepted s = (if \<not> accepting s then Inr s else
     and_then (case accepted of None \<Rightarrow> Inr s | Some socket \<Rightarrow> newConnection socket s) (\<lambda>s. Inr (Acceptor_accept s)))"

definition server_run_task :: "nat \<Rightarrow> server_task \<Rightarrow> tcp_server \<Rightarrow> tcp_server result" where
  "server_run_task l t s = (case t of
     EstablishTask c \<Rightarrow> conn_established c s
   | DestroyTask c \<Rightarrow> conn_destroyed c s
   | RemoveTask c \<Rightarrow> removeConnectionInThisThread c s)"

text \<open>
  Connection \<open>c\<close> closes in its loop (\<open>TcpConnection::handleClose\<close>, which needs an open
  state) and calls its close callback.
\<close>

definition conn_closes :: "nat \<Rightarrow> tcp_server \<Rightarrow> tcp_server result" where
  "conn_closes c s = (if created s \<le> c \<or> conn_state (objects s c) \<notin> {kConnected, kDisconnecting} then Inr s
     else removeConnection (conn_loop (objects s c)) c (set_conn_state c kDisconnected s))"

text \<open>The user shuts a connection down (\<open>TcpConnection::shutdown\<close>).\<close>

definition conn_shuts_down :: "nat \<Rightarrow> tcp_server \<Rightarrow> tcp_server" where
  "conn_shuts_down c s = (if c < created s \<and> conn_state (objects s c) = kConnected
     then set_conn_state c kDisconnecting s else s)"

text \<open>
  The destructor, in the thread of the base loop, goes through the map in the order of its keys:
  each pointer is reset and \<open>connectDestroyed\<close> dispatched to the connection's loop.
\<close>

definition connections_by_name :: "tcp_server \<Rightarrow> nat list" where
  "connections_by_name s = sort_key (\<lambda>c. conn_name (objects s c))
     (filter (\<lambda>c. connections s (conn_name (objects s c)) = Some c) [0..<created s])"

definition TcpServer_delete :: "tcp_server \<Rightarrow> tcp_server result" where
  "TcpServer_delete s = fold_result (\<lambda>c s.
     let s = s\<lparr>connections := (connections s)(conn_name (objects s c) := None)\<rparr> in
     if conn_loop (objects s c) = base s then conn_destroyed c s
     else Inr (inbox_post (conn_loop (objects s c)) (DestroyTask c) s)) (connections_by_name s) s"

datatype server_event = AcceptDone "tcp_socket option" | RunInbox nat | ConnCloses nat | ConnShutsDown nat

definition server_event :: "server_event \<Rightarrow> tcp_server \<Rightarrow> tcp_server result" where
  "server_event ev s = (case ev of
     AcceptDone accepted \<Rightarrow> accept_done accepted s
   | RunInbox l \<Rightarrow> (case inbox s l of
        [] \<Rightarrow> Inr s
      | t # ts \<Rightarrow> server_run_task l t (s\<lparr>inbox := (inbox s)(l := ts)\<rparr>))
   | ConnCloses c \<Rightarrow> conn_closes c s
   | ConnShutsDown c \<Rightarrow> Inr (conn_shuts_down c s))"

section \<open>Names are different\<close>

fun undec :: "nat \<Rightarrow> string \<Rightarrow> nat" where
  "undec a [] = a"
| "undec a (x # xs) = undec (10 * a + (of_char x - 48)) xs"

lemma undec_append: "undec a (xs @ ys) = undec (undec a xs) ys"
  by (induction xs arbitrary: a) simp_all

lemma undec_dec: "undec 0 (dec n) = n"
proof (induction n rule: dec.induct)
  case (1 n)
  show ?case
  proof (cases "n < 10")
    case True
    then show ?thesis by (subst dec.simps) simp
  next
    case False
    then show ?thesis using 1 by (subst dec.simps) (simp add: undec_append)
  qed
qed

lemma dec_inj: "dec m = dec n \<Longrightarrow> m = n"
  by (metis undec_dec)

lemma dec_digits: "x \<in> set (dec n) \<Longrightarrow> 48 \<le> (of_char x :: nat)"
proof (induction n rule: dec.induct)
  case (1 n)
  then show ?case by (subst (asm) (2) dec.simps) (auto split: if_splits)
qed

lemma dec_no_minus: "CHR ''-'' # s \<noteq> dec n"
proof
  assume "CHR ''-'' # s = dec n"
  then have "CHR ''-'' \<in> set (dec n)" by (metis list.set_intros(1))
  from dec_digits [OF this] show False by simp
qed

lemma print_int_inj: "print_int v = print_int w \<Longrightarrow> v = w"
proof -
  assume eq: "print_int v = print_int w"
  have "(sint v < 0) = (sint w < 0)"
    using eq dec_no_minus by (auto simp: print_int_def split: if_splits) (metis dec_no_minus)+
  then have "sint v = sint w"
    using eq by (auto simp: print_int_def dest!: dec_inj split: if_splits)
  then show "v = w" by (rule signed_word_eqI)
qed

lemma length_dec: "n < 10 ^ k \<Longrightarrow> 0 < k \<Longrightarrow> length (dec n) \<le> k"
proof (induction k arbitrary: n)
  case (Suc k)
  show ?case
  proof (cases "n < 10")
    case True
    then show ?thesis by (subst dec.simps) simp
  next
    case False
    then have "0 < k" using Suc.prems by (cases k) auto
    moreover have "n div 10 < 10 ^ k" using Suc.prems by (simp add: less_mult_imp_div_less mult.commute)
    ultimately have "length (dec (n div 10)) \<le> k" by (intro Suc.IH)
    then show ?thesis using False by (subst dec.simps) simp
  qed
qed simp

lemma length_print_int: "length (print_int w) \<le> 11"
proof -
  have "sint w < 2147483648" "- 2147483648 \<le> sint w"
    using sint_lt [of w] sint_ge [of w] by simp_all
  then have "nat (sint w) < 10 ^ 10" "nat (- sint w) < 10 ^ 10" by simp_all
  then have "length (dec (nat (sint w))) \<le> 10" "length (dec (nat (- sint w))) \<le> 10"
    by (simp_all add: length_dec)
  then show ?thesis by (simp add: print_int_def)
qed

text \<open>An address of at most 45 characters (the longest IPv6 text) leaves room for the number.\<close>

lemma connection_name_inj:
  assumes "length ipPort \<le> 45" and "connection_name name ipPort v = connection_name name ipPort w"
  shows "v = w"
proof -
  have "snprintf 64 (''-'' @ ipPort @ ''#'' @ print_int x) = ''-'' @ ipPort @ ''#'' @ print_int x" for x
    using assms(1) length_print_int [of x] by (simp add: snprintf_def)
  then have "print_int v = print_int w" using assms(2) by (simp add: connection_name_def)
  then show ?thesis by (rule print_int_inj)
qed

section \<open>Invariant\<close>

abbreviation state_of :: "tcp_server \<Rightarrow> nat \<Rightarrow> stateE" where
  "state_of s c \<equiv> conn_state (objects s c)"

definition mapped :: "tcp_server \<Rightarrow> nat \<Rightarrow> bool" where
  "mapped s c \<longleftrightarrow> connections s (conn_name (objects s c)) = Some c"

definition conn_number :: "nat \<Rightarrow> int32" where
  "conn_number c = word_of_nat (Suc c)"

text \<open>What does not depend on the tasks: the pool runs, names are numbered and lead to their connections.\<close>

definition names_ok :: "tcp_server \<Rightarrow> bool" where
  "names_ok s \<longleftrightarrow> started (pool s) \<and> baseThread (pool s) = base s \<and> length (server_ipPort s) \<le> 45 \<and>
     nextConnId s = conn_number (created s) \<and>
     (\<forall>c<created s. conn_name (objects s c) =
        connection_name (server_name s) (server_ipPort s) (conn_number c)) \<and>
     (\<forall>n c. connections s n = Some c \<longrightarrow> c < created s \<and> conn_name (objects s c) = n)"

text \<open>A connection is in the map until its removal has run; each task finds the state it needs.\<close>

definition conn_fits :: "tcp_server \<Rightarrow> nat \<Rightarrow> bool" where
  "conn_fits s c \<longleftrightarrow> (mapped s c \<longleftrightarrow> state_of s c \<noteq> kDisconnected \<or> RemoveTask c \<in> set (inbox s (base s)))"

definition task_fits :: "tcp_server \<Rightarrow> nat \<Rightarrow> server_task \<Rightarrow> bool" where
  "task_fits s l t \<longleftrightarrow> (case t of
     EstablishTask c \<Rightarrow> c < created s \<and> l = conn_loop (objects s c) \<and> state_of s c = kConnecting
   | DestroyTask c \<Rightarrow> c < created s \<and> state_of s c = kDisconnected \<and> \<not> mapped s c
   | RemoveTask c \<Rightarrow> c < created s \<and> l = base s \<and> state_of s c = kDisconnected)"

definition server_ok :: "tcp_server \<Rightarrow> bool" where
  "server_ok s \<longleftrightarrow> names_ok s \<and> (\<forall>c<created s. conn_fits s c) \<and>
     (\<forall>l. distinct (inbox s l) \<and> (\<forall>t\<in>set (inbox s l). task_fits s l t))"

lemma server_okI:
  assumes "names_ok s" and "\<And>c. c < created s \<Longrightarrow> conn_fits s c" and "\<And>l. distinct (inbox s l)"
    and "\<And>l t. t \<in> set (inbox s l) \<Longrightarrow> task_fits s l t"
  shows "server_ok s"
  using assms by (simp add: server_ok_def)

lemma server_okD:
  assumes "server_ok s"
  shows "names_ok s" "c < created s \<Longrightarrow> conn_fits s c" "distinct (inbox s l)"
    "t \<in> set (inbox s l) \<Longrightarrow> task_fits s l t"
  using assms by (simp_all add: server_ok_def)

lemma set_conn_state_simps [simp]:
  "created (set_conn_state c x s) = created s"
  "conn_name (objects (set_conn_state c x s) d) = conn_name (objects s d)"
  "conn_loop (objects (set_conn_state c x s) d) = conn_loop (objects s d)"
  "state_of (set_conn_state c x s) d = (if d = c then x else state_of s d)"
  "connections (set_conn_state c x s) = connections s" "inbox (set_conn_state c x s) = inbox s"
  "base (set_conn_state c x s) = base s" "mapped (set_conn_state c x s) d = mapped s d"
  "names_ok (set_conn_state c x s) = names_ok s"
  by (simp_all add: set_conn_state_def mapped_def names_ok_def) auto

lemma names_okD:
  assumes "names_ok s"
  shows "started (pool s)" "baseThread (pool s) = base s" "length (server_ipPort s) \<le> 45"
    "nextConnId s = conn_number (created s)"
    "c < created s \<Longrightarrow> conn_name (objects s c) = connection_name (server_name s) (server_ipPort s) (conn_number c)"
    "connections s n = Some c \<Longrightarrow> c < created s \<and> conn_name (objects s c) = n"
  using assms unfolding names_ok_def by blast+

lemma names_okI:
  assumes "started (pool s)" "baseThread (pool s) = base s" "length (server_ipPort s) \<le> 45"
    "nextConnId s = conn_number (created s)"
    "\<And>c. c < created s \<Longrightarrow> conn_name (objects s c) = connection_name (server_name s) (server_ipPort s) (conn_number c)"
    "\<And>n c. connections s n = Some c \<Longrightarrow> c < created s \<and> conn_name (objects s c) = n"
  shows "names_ok s"
  using assms unfolding names_ok_def by blast

lemma server_update [simp]:
  "names_ok (s\<lparr>inbox := b\<rparr>) = names_ok s" "mapped (s\<lparr>inbox := b\<rparr>) c = mapped s c"
  "names_ok (s\<lparr>accepting := a\<rparr>) = names_ok s" "mapped (s\<lparr>accepting := a\<rparr>) c = mapped s c"
  by (simp_all add: names_ok_def mapped_def)

lemma task_fits_update [simp]:
  "task_fits (s\<lparr>inbox := b\<rparr>) l t = task_fits s l t" "task_fits (s\<lparr>accepting := a\<rparr>) l t = task_fits s l t"
  by (cases t; simp add: task_fits_def)+

lemma server_ok_accepting [simp]: "server_ok (s\<lparr>accepting := a\<rparr>) = server_ok s"
  by (simp add: server_ok_def conn_fits_def)

text \<open>The first connections have different names.\<close>

lemma conn_number_inj: "conn_number c = conn_number d \<Longrightarrow> c < 2 ^ 32 - 1 \<Longrightarrow> d < 2 ^ 32 - 1 \<Longrightarrow> c = d"
proof -
  assume eq: "conn_number c = conn_number d" and "c < 2 ^ 32 - 1" "d < 2 ^ 32 - 1"
  then have "Suc c < 2 ^ LENGTH(32)" "Suc d < 2 ^ LENGTH(32)" by simp_all
  then have "Suc c = Suc d" using eq
    unfolding conn_number_def word_of_nat_eq_iff by (simp only: take_bit_nat_eq_self)
  then show "c = d" by simp
qed

lemma new_name_differs:
  assumes "names_ok s" and "created s < 2 ^ 32 - 1" and "c < created s"
  shows "conn_name (objects s c) \<noteq> connection_name (server_name s) (server_ipPort s) (nextConnId s)"
proof
  assume "conn_name (objects s c) = connection_name (server_name s) (server_ipPort s) (nextConnId s)"
  then have "conn_number c = conn_number (created s)"
    using assms(1,3) by (auto simp: names_ok_def intro: connection_name_inj)
  then have "c = created s" using assms(2,3) by (intro conn_number_inj) simp_all
  then show False using assms(3) by simp
qed

lemma mapped_name_unique:
  "mapped s c \<Longrightarrow> mapped s d \<Longrightarrow> conn_name (objects s c) = conn_name (objects s d) \<Longrightarrow> c = d"
  by (simp add: mapped_def)

section \<open>Each event keeps the invariant\<close>

text \<open>A task taken from the front of an inbox.\<close>

lemma inbox_pop:
  assumes "server_ok s" and "inbox s l = t # ts"
  shows "task_fits s l t" "t \<notin> set ts" "distinct (((inbox s)(l := ts)) k)"
    "u \<in> set (((inbox s)(l := ts)) k) \<Longrightarrow> task_fits s k u \<and> (u \<noteq> t \<or> k \<noteq> l)"
    "u \<noteq> t \<Longrightarrow> u \<in> set (((inbox s)(l := ts)) k) \<longleftrightarrow> u \<in> set (inbox s k)"
  using server_okD(3) [OF assms(1), of l] server_okD(3) [OF assms(1), of k] server_okD(4) [OF assms(1)] assms(2)
  by (auto split: if_splits)

lemma establish_task_ok:
  assumes ok: "server_ok s" and t: "inbox s l = EstablishTask c # ts"
  shows "\<exists>s'. conn_established c (s\<lparr>inbox := (inbox s)(l := ts)\<rparr>) = Inr s' \<and> server_ok s' \<and> created s' = created s"
proof -
  note pop = inbox_pop [OF ok t]
  have c: "c < created s" "l = conn_loop (objects s c)" "state_of s c = kConnecting"
    using pop(1) by (simp_all add: task_fits_def)
  let ?s = "set_conn_state c kConnected (s\<lparr>inbox := (inbox s)(l := ts)\<rparr>)"
  have "server_ok ?s"
  proof (rule server_okI)
    show "names_ok ?s" using server_okD(1) [OF ok] by simp
    show "conn_fits ?s d" if "d < created ?s" for d
      using server_okD(2) [OF ok, of d] pop(5) [of "RemoveTask d"] that c by (auto simp: conn_fits_def)
    show "distinct (inbox ?s k)" for k using pop(3) [of k] by simp
    show "task_fits ?s k u" if "u \<in> set (inbox ?s k)" for k u
      using pop(4) [of u k] that c by (cases u) (auto simp: task_fits_def)
  qed
  then show ?thesis using c(3) by (simp add: conn_established_def)
qed

lemma destroy_task_ok:
  assumes ok: "server_ok s" and t: "inbox s l = DestroyTask c # ts"
  shows "\<exists>s'. conn_destroyed c (s\<lparr>inbox := (inbox s)(l := ts)\<rparr>) = Inr s' \<and> server_ok s' \<and> created s' = created s"
proof -
  note pop = inbox_pop [OF ok t]
  let ?s = "s\<lparr>inbox := (inbox s)(l := ts)\<rparr>"
  have "server_ok ?s"
  proof (rule server_okI)
    show "conn_fits ?s d" if "d < created ?s" for d
      using server_okD(2) [OF ok, of d] pop(5) [of "RemoveTask d" "base s"] that by (simp add: conn_fits_def)
    show "distinct (inbox ?s k)" for k using pop(3) [of k] by simp
    show "task_fits ?s k u" if "u \<in> set (inbox ?s k)" for k u
      using pop(4) [of u k] that by simp
  qed (use server_okD(1) [OF ok] in simp)
  moreover have "state_of s c = kDisconnected" using pop(1) by (simp add: task_fits_def)
  ultimately show ?thesis by (simp add: conn_destroyed_def)
qed

lemma remove_ok:
  assumes nm: "names_ok s" and c: "c < created s" "state_of s c = kDisconnected" "mapped s c"
    and others: "\<And>d. d < created s \<Longrightarrow> d \<noteq> c \<Longrightarrow> conn_fits s d" and "RemoveTask c \<notin> set (inbox s (base s))"
    and dist: "\<And>k. distinct (inbox s k)" and fits: "\<And>k u. u \<in> set (inbox s k) \<Longrightarrow> task_fits s k u"
  shows "\<exists>s'. removeConnectionInThisThread c s = Inr s' \<and> server_ok s' \<and> created s' = created s"
proof -
  let ?n = "conn_name (objects s c)"
  let ?s = "inbox_post (conn_loop (objects s c)) (DestroyTask c) (s\<lparr>connections := (connections s)(?n := None)\<rparr>)"
  have m: "mapped ?s d \<longleftrightarrow> mapped s d \<and> d \<noteq> c" for d
    using c(3) by (auto simp: mapped_def inbox_post_def)
  have no: "DestroyTask c \<notin> set (inbox s k)" for k
    using fits [of "DestroyTask c" k] c(3) by (auto simp: task_fits_def)
  have simps: "created ?s = created s" "objects ?s = objects s" "base ?s = base s"
    by (simp_all add: inbox_post_def)
  have r: "RemoveTask d \<in> set (inbox ?s (base s)) \<longleftrightarrow> RemoveTask d \<in> set (inbox s (base s))" for d
    by (simp add: inbox_post_def)
  have "server_ok ?s"
  proof (rule server_okI)
    show "names_ok ?s"
    proof (rule names_okI)
      show "d < created ?s \<and> conn_name (objects ?s d) = n" if "connections ?s n = Some d" for n d
        using that names_okD(6) [OF nm, of n d] by (simp add: inbox_post_def split: if_splits)
    qed (use names_okD(1-5) [OF nm] in \<open>simp_all add: inbox_post_def\<close>)
    show "conn_fits ?s d" if "d < created ?s" for d
    proof (cases "d = c")
      case True
      then show ?thesis using assms(6) c(2) by (simp only: conn_fits_def simps m r) simp
    next
      case False
      then show ?thesis using others [of d] that by (simp only: conn_fits_def simps m r) simp
    qed
    show "distinct (inbox ?s k)" for k using dist [of k] no by (auto simp: inbox_post_def)
    show "task_fits ?s k u" if "u \<in> set (inbox ?s k)" for k u
    proof (cases "u = DestroyTask c")
      case True
      then show ?thesis using m c by (simp add: task_fits_def simps)
    next
      case False
      then have "u \<in> set (inbox s k)" using that by (auto simp: inbox_post_def split: if_splits)
      from fits [OF this] m show ?thesis by (cases u) (simp_all add: task_fits_def simps)
    qed
  qed
  then show ?thesis using c(3) by (simp add: removeConnectionInThisThread_def mapped_def Let_def simps)
qed

lemma remove_task_ok:
  assumes ok: "server_ok s" and t: "inbox s l = RemoveTask c # ts"
  shows "\<exists>s'. removeConnectionInThisThread c (s\<lparr>inbox := (inbox s)(l := ts)\<rparr>) = Inr s' \<and> server_ok s' \<and> created s' = created s"
proof -
  note pop = inbox_pop [OF ok t]
  have c: "c < created s" "l = base s" "state_of s c = kDisconnected" using pop(1) by (simp_all add: task_fits_def)
  have "mapped s c" using server_okD(2) [OF ok c(1)] t c(2) by (simp add: conn_fits_def)
  then have "\<exists>s'. removeConnectionInThisThread c (s\<lparr>inbox := (inbox s)(l := ts)\<rparr>) = Inr s' \<and> server_ok s' \<and>
      created s' = created (s\<lparr>inbox := (inbox s)(l := ts)\<rparr>)"
  proof (intro remove_ok)
    fix d assume "d < created (s\<lparr>inbox := (inbox s)(l := ts)\<rparr>)" "d \<noteq> c"
    then show "conn_fits (s\<lparr>inbox := (inbox s)(l := ts)\<rparr>) d"
      using server_okD(2) [OF ok, of d] pop(5) [of "RemoveTask d" "base s"] by (simp add: conn_fits_def)
  next
    fix k u assume "u \<in> set (inbox (s\<lparr>inbox := (inbox s)(l := ts)\<rparr>) k)"
    then show "task_fits (s\<lparr>inbox := (inbox s)(l := ts)\<rparr>) k u"
      using pop(4) [of u k] by simp
  qed (use c server_okD(1) [OF ok] pop(2) pop(3) in \<open>simp_all\<close>)
  then show ?thesis by simp
qed

lemma conn_closes_ok:
  assumes ok: "server_ok s"
  shows "\<exists>s'. conn_closes c s = Inr s' \<and> server_ok s' \<and> created s' = created s"
proof (cases "created s \<le> c \<or> state_of s c \<notin> {kConnected, kDisconnecting}")
  case True
  then show ?thesis using ok by (auto simp: conn_closes_def)
next
  case False
  then have c: "c < created s" "state_of s c \<in> {kConnected, kDisconnecting}" by simp_all
  have m: "mapped s c" using server_okD(2) [OF ok c(1)] c(2) by (auto simp: conn_fits_def)
  have no: "RemoveTask c \<notin> set (inbox s k)" "EstablishTask c \<notin> set (inbox s k)" "DestroyTask c \<notin> set (inbox s k)" for k
    using server_okD(4) [OF ok, of _ k] c(2) by (force simp: task_fits_def)+
  let ?s = "set_conn_state c kDisconnected s"
  have others: "d < created s \<Longrightarrow> d \<noteq> c \<Longrightarrow> conn_fits ?s d" for d
    using server_okD(2) [OF ok, of d] by (simp add: conn_fits_def)
  have fits: "task_fits ?s k u" if "u \<in> set (inbox s k)" for k u
    using server_okD(4) [OF ok that] that no by (cases u) (auto simp: task_fits_def)
  show ?thesis
  proof (cases "conn_loop (objects s c) = base s")
    case True
    have "\<exists>s'. removeConnectionInThisThread c ?s = Inr s' \<and> server_ok s' \<and> created s' = created ?s"
      by (rule remove_ok) (use server_okD(1,3) [OF ok] c m no others fits in simp_all)
    then show ?thesis using c True by (simp add: conn_closes_def removeConnection_def)
  next
    case False
    let ?t = "inbox_post (base s) (RemoveTask c) ?s"
    have simps: "created ?t = created s" "base ?t = base s" "mapped ?t d = mapped s d"
      "state_of ?t d = (if d = c then kDisconnected else state_of s d)" for d
      by (simp_all add: inbox_post_def)
    have "server_ok ?t"
    proof (rule server_okI)
      show "names_ok ?t" using server_okD(1) [OF ok] by (simp add: inbox_post_def)
      show "conn_fits ?t d" if "d < created ?t" for d
      proof (cases "d = c")
        case True
        then show ?thesis using m by (simp only: conn_fits_def simps) (simp add: inbox_post_def)
      next
        case False
        then show ?thesis using server_okD(2) [OF ok, of d] that
          by (simp only: conn_fits_def simps) (simp add: inbox_post_def)
      qed
      show "distinct (inbox ?t k)" for k
        using server_okD(3) [OF ok, of k] no by (auto simp: inbox_post_def)
      show "task_fits ?t k u" if "u \<in> set (inbox ?t k)" for k u
      proof (cases "u = RemoveTask c")
        case True
        then have "k = base s" using that no by (auto simp: inbox_post_def split: if_splits)
        then show ?thesis using True c(1) by (simp only: task_fits_def server_task.case simps) simp
      next
        case False
        then have "u \<in> set (inbox s k)" using that by (auto simp: inbox_post_def split: if_splits)
        from fits [OF this] show ?thesis by (simp add: inbox_post_def)
      qed
    qed
    then show ?thesis using c False
      by (simp add: conn_closes_def removeConnection_def inbox_post_def)
  qed
qed

lemma conn_shuts_down_ok:
  assumes ok: "server_ok s"
  shows "server_ok (conn_shuts_down c s) \<and> created (conn_shuts_down c s) = created s"
proof (cases "c < created s \<and> state_of s c = kConnected")
  case False
  then show ?thesis using ok by (auto simp: conn_shuts_down_def)
next
  case True
  let ?s = "set_conn_state c kDisconnecting s"
  have "server_ok ?s"
  proof (rule server_okI)
    show "names_ok ?s" using server_okD(1) [OF ok] by simp
    show "conn_fits ?s d" if "d < created ?s" for d
      using server_okD(2) [OF ok, of d] that True by (auto simp: conn_fits_def)
    show "distinct (inbox ?s k)" for k using server_okD(3) [OF ok, of k] by simp
    show "task_fits ?s k u" if "u \<in> set (inbox ?s k)" for k u
      using server_okD(4) [OF ok, of u k] that True by (cases u) (auto simp: task_fits_def)
  qed
  then show ?thesis using True by (simp add: conn_shuts_down_def)
qed

lemma server_gets_loop:
  assumes "server_ok s"
  obtains l where "getNextLoop_fd (base s) fd (pool s) = Inr l"
  using names_okD(1,2) [OF server_okD(1) [OF assms]] that
  by (cases "io_contexts (pool s) = []") (auto simp: getNextLoop_fd_def pool_guard_def)

lemma add_connection_cases:
  assumes "server_ok s"
  shows "if peer_known socket then \<exists>l c s'. add_connection socket s = Inr (l, c, s') else add_connection socket s = Inl Runtime_Error"
  by (rule server_gets_loop [OF assms, of "native_handle socket"]) (simp add: add_connection_def Let_def)

lemma newConnection_throws:
  assumes "server_ok s" and "\<not> usable socket"
  shows "newConnection socket s = Inl Runtime_Error"
  using add_connection_cases [OF assms(1), of socket] assms(2)
  by (auto simp: newConnection_def usable_def split: if_splits)

lemma newConnection_ok:
  assumes ok: "server_ok s" and few: "created s < 2 ^ 32 - 1" and sock: "usable socket"
  shows "\<exists>s'. newConnection socket s = Inr s' \<and> server_ok s' \<and> created s' = Suc (created s)"
proof -
  note nm = server_okD(1) [OF ok]
  obtain l where l: "getNextLoop_fd (base s) (native_handle socket) (pool s) = Inr l"
    by (rule server_gets_loop [OF ok])
  let ?c = "created s" and ?n = "connection_name (server_name s) (server_ipPort s) (nextConnId s)"
  let ?s = "s\<lparr>nextConnId := nextConnId s + 1, created := ?c + 1,
     objects := (objects s)(?c := \<lparr>conn_name = ?n, conn_loop = l, conn_state = kConnecting\<rparr>),
     connections := (connections s)(?n \<mapsto> ?c)\<rparr>"
  have new: "d < ?c \<Longrightarrow> conn_name (objects s d) \<noteq> ?n" for d by (rule new_name_differs [OF nm few])
  have nm': "names_ok ?s"
  proof (rule names_okI)
    show "nextConnId ?s = conn_number (created ?s)" using names_okD(4) [OF nm] by (simp add: conn_number_def)
    show "conn_name (objects ?s d) = connection_name (server_name ?s) (server_ipPort ?s) (conn_number d)"
      if "d < created ?s" for d
      using that names_okD(4) [OF nm] names_okD(5) [OF nm, of d] by (auto simp: less_Suc_eq)
    show "d < created ?s \<and> conn_name (objects ?s d) = n" if "connections ?s n = Some d" for n d
      using that names_okD(6) [OF nm, of n d] by (auto split: if_splits)
  qed (use names_okD(1-3) [OF nm] in simp_all)
  have m: "mapped ?s d \<longleftrightarrow> d = ?c \<or> mapped s d" if "d \<le> ?c" for d
    using that new [of d] names_okD(6) [OF nm, of ?n ?c] by (auto simp: mapped_def)
  have old: "task_fits s k u \<Longrightarrow> task_fits ?s k u" for k u
    using m by (cases u) (auto simp: task_fits_def)
  have none: "EstablishTask ?c \<notin> set (inbox s k)" "RemoveTask ?c \<notin> set (inbox s k)" for k
    using server_okD(4) [OF ok, of _ k] by (force simp: task_fits_def)+
  have fits: "conn_fits ?s d" if "d < Suc ?c" for d
    using that m [of d] server_okD(2) [OF ok, of d] by (auto simp: conn_fits_def less_Suc_eq)
  show ?thesis
  proof (cases "l = base s")
    case True
    let ?t = "set_conn_state ?c kConnected ?s"
    have "server_ok ?t"
    proof (rule server_okI)
      show "names_ok ?t" using nm' by simp
      show "conn_fits ?t d" if "d < created ?t" for d
        using fits [of d] that by (auto simp: conn_fits_def)
      show "distinct (inbox ?t k)" for k using server_okD(3) [OF ok, of k] by simp
      show "task_fits ?t k u" if "u \<in> set (inbox ?t k)" for k u
        using old [OF server_okD(4) [OF ok, of u k]] that server_okD(4) [OF ok, of u k]
        by (cases u) (auto simp: task_fits_def)
    qed
    then show ?thesis using True l sock by (simp add: newConnection_def add_connection_def usable_def conn_established_def Let_def)
  next
    case False
    let ?t = "inbox_post l (EstablishTask ?c) ?s"
    have "server_ok ?t"
    proof (rule server_okI)
      show "names_ok ?t" using nm' by (simp add: inbox_post_def)
      show "conn_fits ?t d" if "d < created ?t" for d
      proof -
        have "conn_fits ?s d" using fits [of d] that by (simp add: inbox_post_def)
        then show ?thesis by (simp add: conn_fits_def inbox_post_def False)
      qed
      show "distinct (inbox ?t k)" for k using server_okD(3) [OF ok, of k] none by (auto simp: inbox_post_def)
      show "task_fits ?t k u" if "u \<in> set (inbox ?t k)" for k u
      proof (cases "u = EstablishTask ?c")
        case True
        then have "k = l" using that none by (auto simp: inbox_post_def split: if_splits)
        then show ?thesis using True by (simp add: task_fits_def inbox_post_def)
      next
        case False
        then have "u \<in> set (inbox s k)" using that by (auto simp: inbox_post_def split: if_splits)
        then show ?thesis using old [OF server_okD(4) [OF ok]] by (simp add: inbox_post_def)
      qed
    qed
    then show ?thesis using False l sock by (simp add: newConnection_def add_connection_def usable_def Let_def inbox_post_def)
  qed
qed

text \<open>How many connections an event may add.\<close>

fun accepts :: "server_event \<Rightarrow> nat" where
  "accepts (AcceptDone (Some socket)) = 1"
| "accepts _ = 0"

text \<open>An event keeps the invariant, or it is an accept of a socket that throws.\<close>

definition throws :: "server_event \<Rightarrow> bool" where
  "throws ev \<longleftrightarrow> (\<exists>socket. ev = AcceptDone (Some socket) \<and> \<not> usable socket)"

lemma server_event_ok:
  assumes ok: "server_ok s" and few: "created s + accepts ev < 2 ^ 32"
  shows "throws ev \<and> server_event ev s = Inl Runtime_Error \<or>
    (\<exists>s'. server_event ev s = Inr s' \<and> server_ok s' \<and> created s' \<le> created s + accepts ev)"
proof (cases ev)
  case (AcceptDone accepted)
  show ?thesis
  proof (cases "\<exists>socket. accepted = Some socket \<and> accepting s")
    case False
    then show ?thesis using AcceptDone ok
      by (cases accepted) (simp_all add: server_event_def accept_done_def Acceptor_accept_def)
  next
    case True
    then obtain d where d: "accepted = Some d" "accepting s" by blast
    show ?thesis
    proof (cases "usable d")
      case False
      then show ?thesis using AcceptDone d newConnection_throws [OF ok False]
        by (simp add: server_event_def accept_done_def throws_def)
    next
      case True
      have "created s < 2 ^ 32 - 1" using few AcceptDone d by simp
      from newConnection_ok [OF ok this True] show ?thesis
        using AcceptDone d by (auto simp: server_event_def accept_done_def Acceptor_accept_def)
    qed
  qed
next
  case (RunInbox l)
  show ?thesis
  proof (cases "inbox s l")
    case Nil
    then show ?thesis using RunInbox ok by (simp add: server_event_def)
  next
    case (Cons t ts)
    then show ?thesis
      using RunInbox establish_task_ok [OF ok] destroy_task_ok [OF ok] remove_task_ok [OF ok]
      by (cases t) (fastforce simp: server_event_def server_run_task_def)+
  qed
next
  case (ConnCloses c)
  then show ?thesis using conn_closes_ok [OF ok, of c] by (auto simp: server_event_def)
next
  case (ConnShutsDown c)
  then show ?thesis using conn_shuts_down_ok [OF ok, of c] by (simp add: server_event_def)
qed

lemma server_events_ok:
  assumes "server_ok s" and "created s + sum_list (map accepts evs) < 2 ^ 32"
  shows "(\<exists>ev\<in>set evs. throws ev) \<and> fold_result server_event evs s = Inl Runtime_Error \<or>
    (\<exists>s'. fold_result server_event evs s = Inr s' \<and> server_ok s')"
  using assms
proof (induction evs arbitrary: s)
  case Nil
  then show ?case by simp
next
  case (Cons ev evs)
  have few: "created s + accepts ev < 2 ^ 32" using Cons.prems(2) by simp
  show ?case using server_event_ok [OF Cons.prems(1) few]
  proof (elim disjE exE conjE)
    fix s1 assume s1: "server_event ev s = Inr s1" "server_ok s1" "created s1 \<le> created s + accepts ev"
    then show ?thesis using Cons.IH [OF s1(2)] Cons.prems(2) by auto
  qed simp
qed

lemma TcpServer_start_ok:
  assumes "length ipPort \<le> 45" and "TcpServer_start start (server_setThreadNum n (TcpServer_new l ipPort name)) = Inr s"
  shows "server_ok s \<and> created s = 0 \<and> accepting s"
proof -
  let ?p = "setThreadNum n (IOLoopThreadPool_new l l)"
  obtain p where p: "pool_run start ?p = Inr p" and
      s: "s = (server_setThreadNum n (TcpServer_new l ipPort name))\<lparr>server_started := True, pool := p, accepting := True\<rparr>"
    using assms(2) by (auto simp: TcpServer_start_def TcpServer_new_def server_setThreadNum_def and_then_eq_Inr
        Acceptor_start_def Acceptor_accept_def)
  have keep: "fold_result (pool_add start) is q = Inr q' \<Longrightarrow> started q' = started q \<and> baseThread q' = baseThread q" for "is" q q'
    by (induction "is" arbitrary: q) (auto simp: pool_add_def and_then_eq_Inr split: if_splits)
  have "started p \<and> baseThread p = l"
    using p keep [of _ "?p\<lparr>started := True\<rparr>" p]
    by (auto simp: pool_run_def setThreadNum_def IOLoopThreadPool_new_def split: if_splits)
  then show ?thesis using s assms(1)
    by (simp add: server_ok_def names_ok_def TcpServer_new_def server_setThreadNum_def conn_number_def)
qed

section \<open>Properties\<close>

text \<open>
  C11: the server loses no connection and removes each exactly once.  From a started server whose
  address text has at most 45 characters, let accepts succeed or fail, let every loop run its
  tasks at any time, and let connections be shut down and close in any order, with fewer than \<open>2 ^ 32 - 1\<close>
  connections accepted.  The one fault there can be is the exception of an accepted socket whose
  peer has reset it already, or that takes no options.  No assertion fails (a connection is
  established when it is connecting, the erase of its name removes one entry), the names in the map
  are different and lead to their connections, and a connection is in the map exactly until its
  removal has run.
\<close>

theorem server_connections_safe:
  assumes "length ipPort \<le> 45" and "TcpServer_start start (server_setThreadNum n (TcpServer_new l ipPort name)) = Inr s"
    and "sum_list (map accepts evs) < 2 ^ 32 - 1"
  shows "case fold_result server_event evs s of
      Inl x \<Rightarrow> x = Runtime_Error \<and>
        (\<exists>socket. AcceptDone (Some socket) \<in> set evs \<and> \<not> (peer_known socket \<and> options_settable socket))
    | Inr s' \<Rightarrow> \<forall>m c. connections s' m = Some c \<longleftrightarrow> c < created s' \<and> conn_name (objects s' c) = m \<and>
       (conn_state (objects s' c) \<noteq> kDisconnected \<or> RemoveTask c \<in> set (inbox s' (base s')))"
proof (cases "fold_result server_event evs s")
  case (Inl x)
  then show ?thesis using server_events_ok [of s evs] TcpServer_start_ok [OF assms(1,2)] assms(3)
    by (auto simp: throws_def usable_def)
next
  case (Inr s')
  then have ok: "server_ok s'" using server_events_ok [of s evs] TcpServer_start_ok [OF assms(1,2)] assms(3) by auto
  note nm = server_okD(1) [OF ok]
  have "connections s' m = Some c \<longleftrightarrow> c < created s' \<and> conn_name (objects s' c) = m \<and> mapped s' c" for m c
    using names_okD(6) [OF nm, of m c] by (auto simp: mapped_def)
  moreover have "c < created s' \<Longrightarrow> mapped s' c \<longleftrightarrow>
      conn_state (objects s' c) \<noteq> kDisconnected \<or> RemoveTask c \<in> set (inbox s' (base s'))" for c
    using server_okD(2) [OF ok, of c] by (simp add: conn_fits_def)
  ultimately show ?thesis using Inr by auto
qed

definition started_server :: tcp_server where
  "started_server = (server_setThreadNum 0 (TcpServer_new 7 ''10.0.0.1'' ''IOEvent''))\<lparr>server_started := True,
     pool := (setThreadNum 0 (IOLoopThreadPool_new 7 7))\<lparr>started := True\<rparr>, accepting := True\<rparr>"

theorem server_connections_safe_witness:
  "\<exists>s'. fold_result server_event [AcceptDone (Some (sound_socket 5)), AcceptDone None, AcceptDone (Some (sound_socket 6)),
      ConnCloses 0, RunInbox 7] started_server = Inr s' \<and>
    (\<forall>m c. connections s' m = Some c \<longleftrightarrow> c < created s' \<and> conn_name (objects s' c) = m \<and>
       (conn_state (objects s' c) \<noteq> kDisconnected \<or> RemoveTask c \<in> set (inbox s' (base s'))))"
proof -
  have start: "TcpServer_start (\<lambda>i. i + 1) (server_setThreadNum 0 (TcpServer_new 7 ''10.0.0.1'' ''IOEvent'')) = Inr started_server"
    by (simp add: TcpServer_start_def server_setThreadNum_def TcpServer_new_def pool_run_def setThreadNum_def
      IOLoopThreadPool_new_def started_server_def Acceptor_start_def Acceptor_accept_def)
  show ?thesis
    using server_connections_safe [OF _ start, of "[AcceptDone (Some (sound_socket 5)), AcceptDone None,
      AcceptDone (Some (sound_socket 6)), ConnCloses 0, RunInbox 7]"]
    by (simp split: sum.splits) (auto simp: sound_socket_def)
qed

end
