(* ===== verification/Tcp_Client.thy ===== *)
theory Tcp_Client
  imports Tcp_Server
begin

text \<open>
  \<open>Net/Connector.h/.cpp\<close> and \<open>Net/TcpClient.h/.cpp\<close>: an outgoing connection, its retries
  and its reconnection.  What asio does is an event: an \<open>async_connect\<close> completes with an error
  code (and the \<open>SO_ERROR\<close> the handler then reads), a retry timer fires.  All operations are
  those of the loop's thread, where \<open>dispatch\<close> is a direct call.
\<close>

section \<open>Connector\<close>

datatype connector_state = Idle | Connecting | Connected

text \<open>The error codes \<open>connect\<close> distinguishes.\<close>

datatype errc =
    success | operation_in_progress | interrupted | already_connected
  | resource_unavailable_try_again | address_in_use | address_not_available
  | connection_refused | network_unreachable
  | permission_denied | operation_not_permitted | address_family_not_supported
  | connection_already_in_progress | bad_file_descriptor | bad_address | not_a_socket
  | other_error

text \<open>\<open>delays\<close> records the delays of the retry timers started, in milliseconds.\<close>

record connector =
  wants_connect :: bool
  connector_state :: connector_state
  retryDelayMs :: int
  socket_open :: bool
  connects :: nat
  retries :: nat
  delays :: "int list"

definition kMaxRetryDelayMs :: int where
  "kMaxRetryDelayMs = 30 * 1000"

definition kInitRetryDelayMs :: int where
  "kInitRetryDelayMs = 1000"

definition Connector_new :: connector where
  "Connector_new = \<lparr>wants_connect = False, connector_state = Idle, retryDelayMs = kInitRetryDelayMs,
     socket_open = False, connects = 0, retries = 0, delays = []\<rparr>"

definition Connector_connect :: "connector \<Rightarrow> connector" where
  "Connector_connect c = c\<lparr>socket_open := True, connects := connects c + 1\<rparr>"

definition startInThisThread :: "connector \<Rightarrow> connector result" where
  "startInThisThread c = (if connector_state c \<noteq> Idle then Inl Assert_Failed
     else Inr (if wants_connect c then Connector_connect c else c))"

definition retry :: "connector \<Rightarrow> connector" where
  "retry c =
     (let c = c\<lparr>socket_open := False, connector_state := Idle\<rparr> in
      if wants_connect c then
        c\<lparr>retries := retries c + 1, delays := delays c @ [retryDelayMs c],
          retryDelayMs := min (retryDelayMs c * 2) kMaxRetryDelayMs\<rparr>
      else c)"

definition stopInThisThread :: "connector \<Rightarrow> connector" where
  "stopInThisThread c = (if connector_state c = Connecting then retry (c\<lparr>connector_state := Idle\<rparr>) else c)"

definition Connector_start :: "connector \<Rightarrow> connector result" where
  "Connector_start c = startInThisThread (c\<lparr>wants_connect := True\<rparr>)"

definition Connector_stop :: "connector \<Rightarrow> connector" where
  "Connector_stop c = stopInThisThread (c\<lparr>wants_connect := False\<rparr>)"

definition Connector_restart :: "connector \<Rightarrow> connector result" where
  "Connector_restart c = startInThisThread
     (c\<lparr>connector_state := Idle, retryDelayMs := kInitRetryDelayMs, wants_connect := True\<rparr>)"

text \<open>
  \<open>connecting\<close>: \<open>so_error\<close> is what \<open>get_option\<close> gives, \<open>None\<close> when it fails;
  \<open>new_conn\<close> is \<open>newConnectionCallback_\<close> on the client's state.
\<close>

definition connecting ::
  "('s \<Rightarrow> 'e + 's) \<Rightarrow> int option \<Rightarrow> connector \<times> 's \<Rightarrow> 'e + connector \<times> 's" where
  "connecting new_conn so_error = (\<lambda>(c, s).
     let c = c\<lparr>connector_state := Connecting\<rparr> in
     case so_error of
       None \<Rightarrow> Inr (c\<lparr>socket_open := False\<rparr>, s)
     | Some errNum \<Rightarrow>
         if errNum \<noteq> 0 then Inr (retry c, s)
         else
           let c = c\<lparr>connector_state := Connected, socket_open := False\<rparr> in
           if wants_connect c then and_then (new_conn s) (\<lambda>s. Inr (c, s)) else Inr (c, s))"

definition connect_done ::
  "('s \<Rightarrow> 'e + 's) \<Rightarrow> errc \<Rightarrow> int option \<Rightarrow> connector \<times> 's \<Rightarrow> 'e + connector \<times> 's" where
  "connect_done new_conn error so_error = (\<lambda>(c, s).
     if connects c = 0 then Inr (c, s)
     else
       let c = c\<lparr>connects := connects c - 1\<rparr> in
       if error \<in> {success, operation_in_progress, interrupted, already_connected}
       then connecting new_conn so_error (c, s)
       else if error \<in> {resource_unavailable_try_again, address_in_use, address_not_available,
           connection_refused, network_unreachable}
       then Inr (retry c, s)
       else Inr (c\<lparr>socket_open := False\<rparr>, s))"

definition retry_fires :: "connector \<Rightarrow> connector result" where
  "retry_fires c = (if retries c = 0 then Inr c else startInThisThread (c\<lparr>retries := retries c - 1\<rparr>))"

section \<open>TcpClient\<close>

text \<open>
  \<open>connection\<close> is the name of \<open>connection_\<close>; \<open>closing\<close> those whose \<open>connectDestroyed\<close> is
  posted.  A \<open>deleted\<close> client has left its connection with a close callback of its own.
\<close>

record tcp_client =
  address :: string
  auto_retry :: bool
  client_connect :: bool
  client_nextConnId :: int32
  connection :: "string option"
  closing :: "string list"
  deleted :: bool

type_synonym client = "connector \<times> tcp_client"

text \<open>The constructor does not initialise \<open>nextConnId_\<close>: it is \<open>i\<close>.\<close>

definition TcpClient_new :: "string \<Rightarrow> int32 \<Rightarrow> client" where
  "TcpClient_new addr i = (Connector_new, \<lparr>address = addr, auto_retry = False, client_connect = False,
     client_nextConnId = i, connection = None, closing = [], deleted = False\<rparr>)"

definition client_connection_name :: "tcp_client \<Rightarrow> string" where
  "client_connection_name k = snprintf 32 ('':'' @ address k @ ''#'' @ print_int (client_nextConnId k))"

text \<open>The connector's callback is bound to the plain pointer of the client.\<close>

definition client_newConnection :: "tcp_client \<Rightarrow> tcp_client result" where
  "client_newConnection k = (if deleted k then Inl Use_After_Free else Inr (k\<lparr>
     connection := Some (client_connection_name k),
     client_nextConnId := client_nextConnId k + 1\<rparr>))"

definition TcpClient_connect :: "client \<Rightarrow> client result" where
  "TcpClient_connect = (\<lambda>(c, k). and_then (Connector_start c) (\<lambda>c. Inr (c, k\<lparr>client_connect := True\<rparr>)))"

text \<open>\<open>disconnect\<close> also shuts the connection down, which is \<open>Tcp_Connection\<close>'s.\<close>

definition TcpClient_disconnect :: "client \<Rightarrow> client" where
  "TcpClient_disconnect = (\<lambda>(c, k). (c, k\<lparr>client_connect := False\<rparr>))"

definition TcpClient_stop :: "client \<Rightarrow> client" where
  "TcpClient_stop = (\<lambda>(c, k). (Connector_stop c, k\<lparr>client_connect := False\<rparr>))"

definition enableRetry :: "client \<Rightarrow> client" where
  "enableRetry = (\<lambda>(c, k). (c, k\<lparr>auto_retry := True\<rparr>))"

definition client_removeConnection :: "string \<Rightarrow> client \<Rightarrow> client result" where
  "client_removeConnection conn = (\<lambda>(c, k).
     if connection k \<noteq> Some conn then Inl Assert_Failed
     else
       let k = k\<lparr>connection := None, closing := closing k @ [conn]\<rparr> in
       if auto_retry k \<and> client_connect k then and_then (Connector_restart c) (\<lambda>c. Inr (c, k))
       else Inr (c, k))"

text \<open>\<open>detail::removeConnection\<close> dispatches \<open>connectDestroyed\<close>; the client is no longer asked.\<close>

definition detail_removeConnection :: "string \<Rightarrow> client \<Rightarrow> client" where
  "detail_removeConnection conn = (\<lambda>(c, k). (c, k\<lparr>connection := None, closing := closing k @ [conn]\<rparr>))"

definition TcpClient_delete :: "client \<Rightarrow> client" where
  "TcpClient_delete = (\<lambda>(c, k).
     if connection k = None then (Connector_stop c, k\<lparr>deleted := True\<rparr>) else (c, k\<lparr>deleted := True\<rparr>))"

text \<open>A deleted client has no user.\<close>

datatype client_call = UserConnect | UserDisconnect | UserStop | UserRetry | UserDelete

datatype client_event = ClientCall client_call | ConnectDone errc "int option" | RetryFires | ConnectionCloses

definition client_call :: "client_call \<Rightarrow> client \<Rightarrow> client result" where
  "client_call call k = (if deleted (snd k) then Inr k else case call of
     UserConnect \<Rightarrow> TcpClient_connect k
   | UserDisconnect \<Rightarrow> Inr (TcpClient_disconnect k)
   | UserStop \<Rightarrow> Inr (TcpClient_stop k)
   | UserRetry \<Rightarrow> Inr (enableRetry k)
   | UserDelete \<Rightarrow> Inr (TcpClient_delete k))"

definition client_event :: "client_event \<Rightarrow> client \<Rightarrow> client result" where
  "client_event ev = (\<lambda>(c, k). case ev of
     ClientCall call \<Rightarrow> client_call call (c, k)
   | ConnectDone error so_error \<Rightarrow> connect_done client_newConnection error so_error (c, k)
   | RetryFires \<Rightarrow> and_then (retry_fires c) (\<lambda>c. Inr (c, k))
   | ConnectionCloses \<Rightarrow> (case connection k of
        None \<Rightarrow> Inr (c, k)
      | Some conn \<Rightarrow> if deleted k then Inr (detail_removeConnection conn (c, k))
          else client_removeConnection conn (c, k)))"

lemmas connector_defs = Connector_new_def Connector_connect_def startInThisThread_def retry_def stopInThisThread_def
  Connector_start_def Connector_stop_def Connector_restart_def connecting_def connect_done_def retry_fires_def
  kInitRetryDelayMs_def kMaxRetryDelayMs_def

lemmas client_defs = TcpClient_new_def client_newConnection_def TcpClient_connect_def TcpClient_disconnect_def
  TcpClient_stop_def enableRetry_def client_removeConnection_def TcpClient_delete_def detail_removeConnection_def

section \<open>One connect\<close>

text \<open>
  While the user connects only once: there is at most one attempt, retry or connection; the connector
  is idle during an attempt; and a deleted client has no attempt that would hand it a connection.
\<close>

definition client_ok :: "client \<Rightarrow> bool" where
  "client_ok = (\<lambda>(c, k).
     connects c + retries c + (if connection k = None then 0 else 1) \<le> 1 \<and>
     (connects c + retries c = 1 \<longrightarrow> connector_state c = Idle) \<and>
     (deleted k \<and> wants_connect c \<longrightarrow> connects c = 0 \<and> retries c = 0))"

lemma client_call_ok:
  assumes "client_ok k" and "call \<noteq> UserConnect"
  shows "\<exists>k'. client_call call k = Inr k' \<and> client_ok k'"
  using assms by (cases k; cases call) (auto simp: client_call_def client_ok_def client_defs connector_defs Let_def)

text \<open>What an \<open>async_connect\<close> that completes does: it hands the connection over, or the connector goes on alone.\<close>

definition connect_outcome :: "errc \<Rightarrow> int option \<Rightarrow> connector \<Rightarrow> connector \<times> bool" where
  "connect_outcome error so_error c = (case connect_done (\<lambda>_. Inr True) error so_error (c, False) :: fault + _ of
     Inr x \<Rightarrow> x | Inl _ \<Rightarrow> (c, False))"

lemma connect_done_outcome:
  "connect_done f error so_error (c, s) =
     (case connect_outcome error so_error c of (c', new) \<Rightarrow> if new then and_then (f s) (\<lambda>s. Inr (c', s)) else Inr (c', s))"
  by (auto simp: connect_outcome_def connect_done_def connecting_def Let_def split: option.splits)

lemma connect_outcome_ok:
  assumes "client_ok (c, k)" and "connect_outcome error so_error c = (c', new)"
  shows "new \<Longrightarrow> \<not> deleted k \<and> connection k = None \<and> connects c' = 0 \<and> retries c' = 0"
    and "\<not> new \<Longrightarrow> client_ok (c', k)"
  using assms
  by (auto simp: connect_outcome_def connect_done_def connecting_def retry_def client_ok_def Let_def
    split: option.splits if_splits)

lemma connect_done_ok:
  assumes "client_ok (c, k)"
  shows "\<exists>k'. connect_done client_newConnection error so_error (c, k) = Inr k' \<and> client_ok k'"
proof (cases "connect_outcome error so_error c")
  case (Pair c' new)
  from connect_outcome_ok [OF assms Pair] show ?thesis
    by (cases new) (auto simp: connect_done_outcome Pair client_newConnection_def client_ok_def)
qed

lemma retry_fires_ok:
  assumes "client_ok (c, k)"
  shows "\<exists>c'. retry_fires c = Inr c' \<and> client_ok (c', k)"
  using assms by (auto simp: retry_fires_def startInThisThread_def Connector_connect_def client_ok_def split: if_splits)

lemma connection_closes_ok:
  assumes "client_ok (c, k)" and "connection k = Some conn"
  shows "\<exists>k'. (if deleted k then Inr (detail_removeConnection conn (c, k)) else client_removeConnection conn (c, k)) = Inr k' \<and>
    client_ok k'"
  using assms by (auto simp: client_ok_def client_defs connector_defs Let_def)

lemma client_event_ok:
  assumes "client_ok k" and "ev \<noteq> ClientCall UserConnect"
  shows "\<exists>k'. client_event ev k = Inr k' \<and> client_ok k'"
proof (cases k)
  case (Pair c kk)
  show ?thesis
  proof (cases ev)
    case (ClientCall call)
    then show ?thesis using client_call_ok [OF assms(1), of call] assms(2) Pair by (simp add: client_event_def)
  next
    case (ConnectDone e so)
    then show ?thesis using connect_done_ok [of c kk e so] assms(1) Pair by (simp add: client_event_def)
  next
    case RetryFires
    then show ?thesis using retry_fires_ok [of c kk] assms(1) Pair by (auto simp: client_event_def)
  next
    case ConnectionCloses
    then show ?thesis using connection_closes_ok [of c kk] assms(1) Pair
      by (cases "connection kk") (auto simp: client_event_def)
  qed
qed

lemma connect_once:
  "\<exists>k. client_call UserConnect (TcpClient_new addr i) = Inr k \<and> client_ok k \<and> connection (snd k) = None \<and>
    closing (snd k) = [] \<and> \<not> deleted (snd k)"
  by (simp add: client_call_def client_ok_def client_defs connector_defs)

section \<open>Properties\<close>

definition backoff :: "nat \<Rightarrow> int" where
  "backoff i = min (1000 * 2 ^ i) 30000"

lemma backoff_Suc: "min (backoff i * 2) 30000 = backoff (Suc i)"
  by (auto simp: backoff_def min_def)

definition refused :: "nat \<Rightarrow> client_event list" where
  "refused n = concat (replicate n [ConnectDone connection_refused None, RetryFires])"

lemma refused_once:
  assumes "connector_state c = Idle" and "wants_connect c" and "connects c = 1" and "retries c = 0"
  shows "fold_result client_event [ConnectDone connection_refused None, RetryFires] (c, k) =
    Inr (c\<lparr>socket_open := True, delays := delays c @ [retryDelayMs c],
      retryDelayMs := min (retryDelayMs c * 2) 30000\<rparr>, k)"
  using assms by (simp add: client_event_def connector_defs Let_def)

lemma refused_many:
  assumes "connector_state c = Idle" and "wants_connect c" and "connects c = 1" and "retries c = 0"
    and "retryDelayMs c = backoff i"
  shows "\<exists>c'. fold_result client_event (refused n) (c, k) = Inr (c', k) \<and>
    delays c' = delays c @ map backoff [i..<i + n] \<and> connects c' = 1"
  using assms
proof (induction n arbitrary: c i)
  case 0
  then show ?case by (simp add: refused_def)
next
  case (Suc n)
  let ?c = "c\<lparr>socket_open := True, delays := delays c @ [backoff i], retryDelayMs := backoff (Suc i)\<rparr>"
  have once: "fold_result client_event [ConnectDone connection_refused None, RetryFires] (c, k) = Inr (?c, k)"
    using refused_once [OF Suc.prems(1-4), of k] Suc.prems(5) backoff_Suc by simp
  have "refused (Suc n) = [ConnectDone connection_refused None, RetryFires] @ refused n"
    by (simp add: refused_def)
  then have split: "fold_result client_event (refused (Suc n)) (c, k) = fold_result client_event (refused n) (?c, k)"
    by (simp only: fold_result_append once and_then_Inr)
  obtain c' where c': "fold_result client_event (refused n) (?c, k) = Inr (c', k)"
      "delays c' = delays ?c @ map backoff [Suc i..<Suc i + n]" "connects c' = 1"
    using Suc.IH [of ?c "Suc i"] Suc.prems by auto
  have "[i..<i + Suc n] = i # [Suc i..<Suc i + n]" by (simp add: upt_conv_Cons)
  then show ?case using c' split by simp
qed

text \<open>
  C32: retries back off.  When every attempt is refused, the client started by one
  \<open>connect\<close> waits 1, 2, 4, 8, 16 and then always 30 seconds between attempts, for as long as
  it is not stopped, with one attempt under way at a time.
\<close>

theorem retries_back_off:
  "\<exists>c k. fold_result client_event (ClientCall UserConnect # refused n) (TcpClient_new addr i) = Inr (c, k) \<and>
    delays c = map backoff [0..<n] \<and> connects c = 1"
proof -
  obtain c k where start: "client_event (ClientCall UserConnect) (TcpClient_new addr i) = Inr (c, k)"
      "connector_state c = Idle" "wants_connect c" "connects c = 1" "retries c = 0" "retryDelayMs c = backoff 0"
      "delays c = []"
    by (simp add: client_event_def client_call_def client_defs connector_defs backoff_def)
  from refused_many [OF start(2-6), of n k] start(1,7) show ?thesis by auto
qed

text \<open>
  a client with retry enabled reconnects.  When its connection closes, the connection is
  released, its \<open>connectDestroyed\<close> is posted, and a new attempt is under way with the delay
  reset; when that attempt succeeds there is a connection again.
\<close>

theorem client_reconnects:
  assumes "connection k = Some conn" and "auto_retry k" and "client_connect k" and "\<not> deleted k" and "connects c = 0"
  shows "\<exists>c1 k1. client_event ConnectionCloses (c, k) = Inr (c1, k1) \<and> connection k1 = None \<and>
    closing k1 = closing k @ [conn] \<and> connects c1 = 1 \<and> retryDelayMs c1 = kInitRetryDelayMs \<and>
    (\<exists>c2 k2. client_event (ConnectDone success (Some 0)) (c1, k1) = Inr (c2, k2) \<and>
      connection k2 \<noteq> None \<and> connector_state c2 = Connected)"
  using assms by (simp add: client_event_def client_call_def client_defs connector_defs Let_def)

theorem client_reconnects_witness:
  "\<exists>c1 k1. client_event ConnectionCloses (Connector_new, (snd (TcpClient_new ''::1'' 3))
      \<lparr>connection := Some '':::1#3'', auto_retry := True, client_connect := True\<rparr>) = Inr (c1, k1) \<and>
    connection k1 = None \<and>
    closing k1 = closing ((snd (TcpClient_new ''::1'' 3))
      \<lparr>connection := Some '':::1#3'', auto_retry := True, client_connect := True\<rparr>) @ ['':::1#3''] \<and>
    connects c1 = 1 \<and> retryDelayMs c1 = kInitRetryDelayMs \<and>
    (\<exists>c2 k2. client_event (ConnectDone success (Some 0)) (c1, k1) = Inr (c2, k2) \<and>
      connection k2 \<noteq> None \<and> connector_state c2 = Connected)"
  by (rule client_reconnects) (simp_all add: client_defs connector_defs)

text \<open>
  a client cannot connect a second time.  The connector's state goes back to disconnected
  only in \<open>retry\<close> and \<open>restart\<close>; so once it has connected, a later \<open>connect\<close> fails
  the assertion in \<open>startInThisThread\<close>: after the connection has closed without retry, and also
  after a \<open>stop\<close> during the first attempt, although no connection was ever handed over.
\<close>

theorem second_connect_aborts:
  "fold_result client_event [ClientCall UserConnect, ConnectDone success (Some 0), ConnectionCloses, ClientCall UserConnect]
     (TcpClient_new addr i) = Inl Assert_Failed \<and>
   fold_result client_event [ClientCall UserConnect, ClientCall UserStop, ConnectDone success (Some 0), ClientCall UserConnect]
     (TcpClient_new addr i) = Inl Assert_Failed \<and>
   (\<exists>c k. fold_result client_event [ClientCall UserConnect, ClientCall UserStop, ConnectDone success (Some 0)] (TcpClient_new addr i) =
     Inr (c, k) \<and> connection k = None)"
  by (simp add: client_event_def client_call_def client_defs connector_defs Let_def)

end
