(* ===== verification/Url.thy ===== *)
theory Url
  imports Prelude
begin

text \<open>
  \<open>Http/Url.h/.cpp\<close>: splitting a URL into its parts and appending to its path and query.
  \<open>std::string::npos\<close> is \<open>None\<close>.
\<close>

section \<open>Searching\<close>

fun find_str :: "string \<Rightarrow> string \<Rightarrow> nat option" where
  "find_str p [] = (if p = [] then Some 0 else None)"
| "find_str p (x # xs) = (if take (length p) (x # xs) = p then Some 0 else map_option Suc (find_str p xs))"

fun find_char :: "char \<Rightarrow> string \<Rightarrow> nat option" where
  "find_char c [] = None"
| "find_char c (x # xs) = (if x = c then Some 0 else map_option Suc (find_char c xs))"

fun find_last_of :: "char \<Rightarrow> string \<Rightarrow> nat option" where
  "find_last_of c [] = None"
| "find_last_of c (x # xs) = (case find_last_of c xs of
     Some i \<Rightarrow> Some (Suc i)
   | None \<Rightarrow> if x = c then Some 0 else None)"

section \<open>The URL\<close>

record url =
  scheme :: string
  host :: string
  port :: string
  path :: string
  query :: string

definition Url_default :: url where
  "Url_default = \<lparr>scheme = [], host = [], port = [], path = [], query = []\<rparr>"

definition setPort :: "string \<Rightarrow> url \<Rightarrow> url" where
  "setPort p u = u\<lparr>port := p\<rparr>"

definition ltrim :: "string \<Rightarrow> string" where
  "ltrim s = dropWhile (\<lambda>c. c \<in> {CHR 0x09, CHR '' ''}) s"

definition parse_scheme :: "string \<Rightarrow> url \<Rightarrow> string \<times> url" where
  "parse_scheme tmp u = (case find_str ''://'' tmp of
     Some p \<Rightarrow> (drop (p + 3) tmp, u\<lparr>scheme := take p tmp\<rparr>)
   | None \<Rightarrow> (tmp, u))"

definition parse_path :: "string \<Rightarrow> url \<Rightarrow> url" where
  "parse_path tmp u = (case find_char CHR ''/'' tmp of
     Some p \<Rightarrow>
       (let u = u\<lparr>host := take p tmp\<rparr>; tmp = drop p tmp in
        case find_char CHR ''?'' tmp of
          Some p \<Rightarrow> u\<lparr>path := take p tmp, query := drop (p + 1) tmp\<rparr>
        | None \<Rightarrow> u\<lparr>path := tmp\<rparr>)
   | None \<Rightarrow>
       (let u = u\<lparr>path := []\<rparr> in
        case find_char CHR ''?'' tmp of
          Some p \<Rightarrow> u\<lparr>host := take p tmp, query := drop (p + 1) tmp\<rparr>
        | None \<Rightarrow> u\<lparr>host := tmp\<rparr>))"

definition parse_port :: "url \<Rightarrow> url" where
  "parse_port u = (if host u = [] then u else
     case find_last_of CHR '':'' (host u) of
       None \<Rightarrow> u
     | Some p \<Rightarrow>
         (case find_last_of CHR '']'' (host u) of
            Some bracket \<Rightarrow> if p > bracket
              then u\<lparr>port := drop (p + 1) (host u), host := take p (host u)\<rparr> else u
          | None \<Rightarrow> u\<lparr>port := drop (p + 1) (host u), host := take p (host u)\<rparr>))"

definition Url_parse :: "string \<Rightarrow> url \<Rightarrow> url" where
  "Url_parse url u = (let (tmp, u) = parse_scheme (ltrim url) u in parse_port (parse_path tmp u))"

definition Url_new :: "string \<Rightarrow> url" where
  "Url_new url = (if url \<noteq> [] then Url_parse url Url_default else Url_default)"

definition appendPath :: "string \<Rightarrow> url \<Rightarrow> url" where
  "appendPath str u = (if str = [] \<or> str = ''/'' then u else
     let p = (if path u = [] \<or> path u = ''/'' then (if hd str \<noteq> CHR ''/'' then ''/'' else [])
              else if last (path u) = CHR ''/'' \<and> hd str = CHR ''/'' then butlast (path u)
              else if last (path u) \<noteq> CHR ''/'' \<and> hd str \<noteq> CHR ''/'' then path u @ ''/''
              else path u)
     in u\<lparr>path := p @ str\<rparr>)"

definition appendQuery :: "string \<Rightarrow> string \<Rightarrow> url \<Rightarrow> url" where
  "appendQuery key val u =
     (let q = (if query u = [] then query u @ ''&'' else query u) in
      u\<lparr>query := q @ key @ ''='' @ val\<rparr>)"

section \<open>Lemmas\<close>

lemma find_char_here: "c \<notin> set xs \<Longrightarrow> find_char c (xs @ c # ys) = Some (length xs)"
  by (induction xs) auto

lemma find_char_None: "find_char c xs = None \<longleftrightarrow> c \<notin> set xs"
  by (induction xs) auto

lemma find_last_of_None: "find_last_of c xs = None \<longleftrightarrow> c \<notin> set xs"
  by (induction xs) (auto split: option.splits)

lemma find_last_of_Some: "find_last_of c xs = Some i \<Longrightarrow> i < length xs"
  by (induction xs arbitrary: i) (auto split: option.splits if_splits)

lemma find_last_of_here: "c \<notin> set ys \<Longrightarrow> find_last_of c (xs @ c # ys) = Some (length xs)"
  by (induction xs) (auto simp: find_last_of_None [THEN iffD2])

lemma find_last_of_skip: "c \<notin> set ys \<Longrightarrow> find_last_of c (xs @ ys) = find_last_of c xs"
  by (induction xs) (auto simp: find_last_of_None [THEN iffD2])

lemma find_str_here: "p \<noteq> [] \<Longrightarrow> hd p \<notin> set xs \<Longrightarrow> find_str p (xs @ p @ ys) = Some (length xs)"
proof (induction xs)
  case Nil
  then obtain a as where "p = a # as" by (cases p) auto
  then show ?case by simp
next
  case (Cons x xs)
  have "take (length p) (x # xs @ p @ ys) \<noteq> p" using Cons.prems by (cases p) auto
  then show ?case using Cons by simp
qed

text \<open>The text of a URL.\<close>

definition url_string :: "url \<Rightarrow> string" where
  "url_string u = scheme u @ ''://'' @ host u @ (if port u = [] then [] else CHR '':'' # port u) @
     path u @ (if query u = [] then [] else CHR ''?'' # query u)"

text \<open>
  A scheme, a host whose colons are closed in brackets, a port without special characters, a path
  that begins with a slash, and a query, which has no slash when there is no path.
\<close>

definition url_ok :: "url \<Rightarrow> bool" where
  "url_ok u \<longleftrightarrow> scheme u \<noteq> [] \<and> hd (scheme u) \<notin> {CHR 0x09, CHR '' ''} \<and> CHR '':'' \<notin> set (scheme u) \<and>
     CHR ''/'' \<notin> set (host u) \<and> CHR ''?'' \<notin> set (host u) \<and>
     (CHR '':'' \<in> set (host u) \<longrightarrow> last (host u) = CHR '']'') \<and>
     set (port u) \<inter> {CHR ''/'', CHR ''?'', CHR '':'', CHR '']''} = {} \<and>
     (path u = [] \<or> hd (path u) = CHR ''/'') \<and> CHR ''?'' \<notin> set (path u) \<and>
     (path u = [] \<longrightarrow> CHR ''/'' \<notin> set (query u))"

lemma parse_port_string:
  assumes "CHR '':'' \<in> set h \<longrightarrow> last h = CHR '']''" and "set p \<inter> {CHR '':'', CHR '']''} = {}"
    and "host u = h @ (if p = [] then [] else CHR '':'' # p)" and "port u = []"
  shows "parse_port u = u\<lparr>host := h, port := p\<rparr>"
proof (cases "p = []")
  case True
  show ?thesis
  proof (cases "CHR '':'' \<in> set h")
    case colon: True
    then obtain b where b: "h = b @ '']''" using assms(1)
      by (metis append_butlast_last_id empty_iff empty_set)
    have "find_last_of CHR '']'' h = Some (length b)" by (simp add: b find_last_of_here)
    moreover obtain i where "find_last_of CHR '':'' h = Some i" using colon find_last_of_None by fastforce
    moreover have "i < length h" using calculation(2) by (rule find_last_of_Some)
    ultimately show ?thesis using True assms b by (simp add: parse_port_def)
  next
    case False
    then show ?thesis using True assms by (simp add: parse_port_def find_last_of_None [THEN iffD2])
  qed
next
  case False
  have "find_last_of CHR '':'' (h @ CHR '':'' # p) = Some (length h)"
    using assms(2) by (simp add: find_last_of_here)
  moreover have "find_last_of CHR '']'' (h @ CHR '':'' # p) = find_last_of CHR '']'' h"
    using assms(2) by (intro find_last_of_skip) auto
  ultimately show ?thesis using assms False
    by (auto simp: parse_port_def dest: find_last_of_Some split: option.splits)
qed

lemma url_ok_append:
  assumes "url_ok u" and "CHR ''?'' \<notin> set p"
  shows "url_ok (appendPath p u)"
proof (cases "p = [] \<or> p = ''/''")
  case True
  then show ?thesis using assms by (auto simp: appendPath_def)
next
  case False
  then obtain a as where "p = a # as" by (cases p) auto
  then show ?thesis using assms False
    by (cases "path u") (auto simp: url_ok_def appendPath_def Let_def dest: in_set_butlastD)
qed

lemma appendPath_segment:
  assumes "path u = [] \<or> last (path u) \<noteq> CHR ''/''" and "s \<noteq> []" and "CHR ''/'' \<notin> set s"
  shows "path (appendPath (if b then CHR ''/'' # s else s) u) = path u @ CHR ''/'' # s"
proof -
  have "hd s \<noteq> CHR ''/''" "s \<noteq> ''/''" using assms(2,3) by (auto dest: hd_in_set)
  moreover have "path u \<noteq> ''/''" using assms(1) by auto
  ultimately show ?thesis using assms(1,2) by (cases b) (auto simp: appendPath_def Let_def)
qed

lemma appendPath_segments_from:
  assumes "url_ok u" and "path u = [] \<or> last (path u) \<noteq> CHR ''/''"
    and "\<forall>(b, s)\<in>set segs. s \<noteq> [] \<and> CHR ''/'' \<notin> set s \<and> CHR ''?'' \<notin> set s"
  shows "path (fold (\<lambda>(b, s). appendPath (if b then CHR ''/'' # s else s)) segs u) =
      path u @ concat (map (\<lambda>(b, s). CHR ''/'' # s) segs) \<and>
    url_ok (fold (\<lambda>(b, s). appendPath (if b then CHR ''/'' # s else s)) segs u)"
  using assms
proof (induction segs arbitrary: u)
  case (Cons bs segs)
  obtain b s where bs: "bs = (b, s)" by fastforce
  let ?u = "appendPath (if b then CHR ''/'' # s else s) u"
  have s: "s \<noteq> []" "CHR ''/'' \<notin> set s" "CHR ''?'' \<notin> set s" using Cons.prems(3) bs by auto
  have path: "path ?u = path u @ CHR ''/'' # s" using Cons.prems(2) s(1,2) by (rule appendPath_segment)
  moreover have "last (path ?u) \<noteq> CHR ''/''" unfolding path using s(1,2) by simp (metis last_in_set)
  moreover have "url_ok ?u" using Cons.prems(1) s by (intro url_ok_append) auto
  ultimately show ?case using Cons.IH [of ?u] Cons.prems(3) bs by simp
qed simp

section \<open>Properties\<close>

text \<open>
  C36: parsing recovers a URL from its text, leading blanks ignored: scheme, host (an IPv6
  address in brackets included), port, path and query.
\<close>

theorem Url_new_url_string:
  assumes "url_ok u" and "set blanks \<subseteq> {CHR 0x09, CHR '' ''}"
  shows "Url_new (blanks @ url_string u) = u"
proof -
  let ?hp = "host u @ (if port u = [] then [] else CHR '':'' # port u)"
  let ?pq = "path u @ (if query u = [] then [] else CHR ''?'' # query u)"
  have ok: "scheme u \<noteq> []" "hd (scheme u) \<notin> {CHR 0x09, CHR '' ''}" "CHR '':'' \<notin> set (scheme u)"
    using assms(1) by (simp_all add: url_ok_def)
  have "ltrim (blanks @ url_string u) = url_string u"
    using assms(2) ok by (cases "scheme u") (auto simp: ltrim_def dropWhile_append url_string_def)
  moreover have str: "url_string u = scheme u @ ''://'' @ ?hp @ ?pq" by (simp add: url_string_def)
  ultimately have "parse_scheme (ltrim (blanks @ url_string u)) v = (?hp @ ?pq, v\<lparr>scheme := scheme u\<rparr>)" for v
    using ok find_str_here [of "''://''" "scheme u" "?hp @ ?pq"] by (simp add: parse_scheme_def)
  moreover have "blanks @ url_string u \<noteq> []" using ok by (simp add: url_string_def)
  ultimately have new: "Url_new (blanks @ url_string u) =
      parse_port (parse_path (?hp @ ?pq) (Url_default\<lparr>scheme := scheme u\<rparr>))"
    by (simp add: Url_new_def Url_parse_def)
  have hp: "CHR ''/'' \<notin> set ?hp" "CHR ''?'' \<notin> set ?hp" using assms(1) by (auto simp: url_ok_def)
  have "parse_path (?hp @ ?pq) v = v\<lparr>host := ?hp, path := path u, query := query u\<rparr>" if "query v = []" for v
  proof (cases "path u")
    case Nil
    then have "CHR ''/'' \<notin> set ?pq" using assms(1) by (auto simp: url_ok_def)
    then have "find_char CHR ''/'' (?hp @ ?pq) = None" using hp(1) by (simp only: find_char_None set_append) blast
    moreover have "find_char CHR ''?'' (?hp @ ?pq) = (if query u = [] then None else Some (length ?hp))"
      using hp(2) Nil find_char_here [OF hp(2)] by (cases "query u = []") (simp_all add: find_char_None)
    ultimately show ?thesis using Nil that by (simp add: parse_path_def)
  next
    case (Cons x xs)
    then have x: "x = CHR ''/''" and xs: "CHR ''?'' \<notin> set (x # xs)" using assms(1) by (auto simp: url_ok_def)
    have "find_char CHR ''/'' (?hp @ ?pq) = Some (length ?hp)"
      unfolding Cons x append_Cons by (rule find_char_here [OF hp(1)])
    moreover have "find_char CHR ''?'' ?pq = (if query u = [] then None else Some (length (path u)))"
      unfolding Cons using xs find_char_here [OF xs] by (cases "query u = []") (auto simp: find_char_None)
    ultimately show ?thesis using that by (simp add: parse_path_def)
  qed
  then have "Url_new (blanks @ url_string u) = parse_port (Url_default\<lparr>scheme := scheme u, host := ?hp,
      path := path u, query := query u\<rparr>)"
    unfolding new by (simp add: Url_default_def)
  moreover have "parse_port (Url_default\<lparr>scheme := scheme u, host := ?hp, path := path u, query := query u\<rparr>) = u"
    using assms(1) by (subst parse_port_string [of "host u" "port u"]) (auto simp: url_ok_def Url_default_def)
  ultimately show ?thesis by simp
qed

theorem Url_new_url_string_witness:
  "Url_new ('' '' @ url_string \<lparr>scheme = ''http'', host = ''[::1]'', port = ''8080'', path = ''/root'', query = ''date=5''\<rparr>) =
     \<lparr>scheme = ''http'', host = ''[::1]'', port = ''8080'', path = ''/root'', query = ''date=5''\<rparr>"
  by (rule Url_new_url_string) (simp_all add: url_ok_def)

text \<open>
  paths are joined with one slash.  Appending segments that have no slash of their own, with
  or without a leading one, gives their sequence with one slash before each, and the URL stays
  well formed.
\<close>

theorem appendPath_segments:
  assumes "url_ok u" and "path u = []"
    and "\<forall>(b, s)\<in>set segs. s \<noteq> [] \<and> CHR ''/'' \<notin> set s \<and> CHR ''?'' \<notin> set s"
  shows "path (fold (\<lambda>(b, s). appendPath (if b then CHR ''/'' # s else s)) segs u) =
      concat (map (\<lambda>(b, s). CHR ''/'' # s) segs) \<and>
    url_ok (fold (\<lambda>(b, s). appendPath (if b then CHR ''/'' # s else s)) segs u)"
  using appendPath_segments_from [OF assms(1) _ assms(3)] assms(2) by simp

theorem appendPath_segments_witness:
  "path (fold (\<lambda>(b, s). appendPath (if b then CHR ''/'' # s else s)) [(False, ''a''), (True, ''b'')]
     (Url_new ''http://h'')) = concat (map (\<lambda>(b, s). CHR ''/'' # s) [(False, ''a''), (True, ''b'')]) \<and>
   url_ok (fold (\<lambda>(b, s). appendPath (if b then CHR ''/'' # s else s)) [(False, ''a''), (True, ''b'')]
     (Url_new ''http://h''))"
  by (rule appendPath_segments) (simp_all add: url_ok_def Url_new_def Url_parse_def parse_scheme_def
    parse_path_def parse_port_def Url_default_def ltrim_def)

text \<open>
  where \<open>Url\<close> goes wrong.  Two parameters appended to an empty query run together after a
  leading ampersand; the query of a URL without path is cut at its first slash; and a URL without
  scheme takes its scheme from a URL in its query.
\<close>

theorem Url_pitfalls:
  "query (appendQuery k2 v2 (appendQuery k1 v1 (u\<lparr>query := []\<rparr>))) = ''&'' @ k1 @ ''='' @ v1 @ k2 @ ''='' @ v2 \<and>
   host (Url_new ''http://h?a=b/c'') = ''h?a=b'' \<and> path (Url_new ''http://h?a=b/c'') = ''/c'' \<and>
   scheme (Url_new ''/login?to=http://h'') = ''/login?to=http''"
  by (simp add: appendQuery_def Url_new_def Url_parse_def parse_scheme_def
    parse_path_def parse_port_def Url_default_def ltrim_def)

end
