(* ===== verification/Http_Router.thy ===== *)
theory Http_Router
  imports Url
begin

text \<open>
  \<open>Http/Router.hpp\<close>, \<open>BasicRouter.hpp\<close>, \<open>RequestProcessor.hpp\<close> and
  \<open>Cb.hpp\<close>: the tables from paths to chains of handlers, mounting one router under a prefix of
  another, and running the chains a request matches.

  Parameters: \<open>matches\<close> is \<open>std::regex_match\<close> (\<open>Regex::match\<close>); \<open>keys\<close> the order in which
  an \<open>std::unordered_map\<close> lists its keys and \<open>methods\<close> that of the \<open>std::map\<close>; \<open>moves\<close>
  says whether \<open>emplace\<close> on a key already present has moved from its argument, which the
  standard allows (a node may be built and thrown away).
\<close>

section \<open>Handlers\<close>

text \<open>
  A handler that is not the last of its chain gets a copy of the iterator; what it does is a list
  of effects, \<open>++it\<close> (or \<open>it++\<close>, its result discarded) and \<open>it()\<close>, chosen by the target it sees.
  The last handler has no iterator.
\<close>

datatype 'e action = Effect 'e | Advance | Call_Next

datatype 'e handler = Middle "string \<Rightarrow> 'e action list" | Final "string \<Rightarrow> 'e list"

type_synonym 'e storage = "'e handler list"

fun prepare :: "(string \<Rightarrow> 'e action list) list \<Rightarrow> (string \<Rightarrow> 'e list) \<Rightarrow> 'e storage" where
  "prepare [] end = [Final end]"
| "prepare (value # values) end = Middle value # prepare values end"

text \<open>
  The request as the chain sees it: its target, and whether a \<open>string_view\<close> taken of the target
  before still points to it (setting the target frees the old text).
\<close>

record request =
  req_target :: string
  view_valid :: bool

definition set_target :: "string \<Rightarrow> request \<Rightarrow> request" where
  "set_target t r = r\<lparr>req_target := t, view_valid := False\<rparr>"

record chain_iterator =
  pos :: nat
  cont_iter :: nat
  current_target :: string

definition skip_target :: "chain_iterator \<Rightarrow> request \<Rightarrow> chain_iterator \<times> request" where
  "skip_target it r = (case find_char CHR ''/'' (drop 1 (current_target it)) of
     Some p \<Rightarrow> (it\<lparr>current_target := drop (p + 1) (current_target it)\<rparr>,
       set_target (take (p + 1) (current_target it)) r)
   | None \<Rightarrow> (it, set_target (current_target it) r))"

definition begin_exec :: "'e storage \<Rightarrow> request \<Rightarrow> chain_iterator \<times> request" where
  "begin_exec container r =
     (let it = \<lparr>pos = 0, cont_iter = 0, current_target = req_target r\<rparr> in
      if length container > 1 then skip_target it r else (it, r))"

definition advance :: "'e storage \<Rightarrow> chain_iterator \<Rightarrow> request \<Rightarrow> chain_iterator \<times> request" where
  "advance container it r =
     (let it = it\<lparr>cont_iter := cont_iter it + 1, pos := pos it + 1\<rparr>;
          it = (if cont_iter it = length container
                then it\<lparr>cont_iter := cont_iter it - 1, pos := pos it - 1\<rparr> else it)
      in skip_target it r)"

text \<open>\<open>depth\<close> is the number of calls the stack has room for.\<close>

fun invoke :: "nat \<Rightarrow> 'e storage \<Rightarrow> chain_iterator \<Rightarrow> request \<Rightarrow> ('e list \<times> request) result"
  and run_actions :: "nat \<Rightarrow> 'e storage \<Rightarrow> chain_iterator \<Rightarrow> request \<Rightarrow> 'e action list \<Rightarrow> ('e list \<times> request) result"
where
  "invoke 0 container it r = Inl Stack_Overflow"
| "invoke (Suc depth) container it r =
     (if length container \<le> cont_iter it then Inl Out_Of_Bounds
      else (case container ! cont_iter it of
          Final f \<Rightarrow> Inr (f (req_target r), r)
        | Middle f \<Rightarrow> run_actions depth container it r (f (req_target r))))"
| "run_actions depth container it r [] = Inr ([], r)"
| "run_actions depth container it r (Effect e # as) =
     and_then (run_actions depth container it r as) (\<lambda>(es, r). Inr (e # es, r))"
| "run_actions depth container it r (Advance # as) =
     (let (it, r) = advance container it r in run_actions depth container it r as)"
| "run_actions depth container it r (Call_Next # as) =
     and_then (invoke depth container it r) (\<lambda>(es, r).
     and_then (run_actions depth container it r as) (\<lambda>(es', r). Inr (es @ es', r)))"

definition execute :: "nat \<Rightarrow> 'e storage \<Rightarrow> request \<Rightarrow> ('e list \<times> request) result" where
  "execute depth container r = (let (it, r) = begin_exec container r in invoke depth container it r)"

section \<open>Routers\<close>

datatype verb =
    Verb_get | Verb_post | Verb_put | Verb_head | Verb_delete | Verb_connect | Verb_options | Verb_trace
  | Verb_other nat

type_synonym 'e resources = "string \<Rightarrow> 'e storage option"
type_synonym 'e method_resources = "verb \<Rightarrow> 'e resources option"

text \<open>A null \<open>shared_ptr\<close> is \<open>None\<close>.\<close>

record 'e router =
  resource_map :: "'e resources option"
  method_map :: "'e method_resources option"

definition Router_new :: "'e router" where
  "Router_new = \<lparr>resource_map = None, method_map = None\<rparr>"

definition emplace_or_assign :: "bool \<Rightarrow> string \<Rightarrow> 'e storage \<Rightarrow> 'e resources \<Rightarrow> 'e resources" where
  "emplace_or_assign moves k v m = (if m k = None then m(k \<mapsto> v) else m(k \<mapsto> (if moves then [] else v)))"

definition add_resource_cb :: "bool \<Rightarrow> string \<Rightarrow> verb \<Rightarrow> 'e storage \<Rightarrow> 'e router \<Rightarrow> 'e router result" where
  "add_resource_cb moves path_to_resource method storage r =
     (if path_to_resource = [] then Inl Assert_Failed
      else
        let mm = (case method_map r of None \<Rightarrow> (\<lambda>_. None) | Some mm \<Rightarrow> mm);
            rm = (case mm method of None \<Rightarrow> (\<lambda>_. None) | Some rm \<Rightarrow> rm)
        in Inr (r\<lparr>method_map := Some (mm(method \<mapsto> emplace_or_assign moves path_to_resource storage rm))\<rparr>))"

text \<open>When there is no map yet, the pointer is assigned an empty \<open>shared_ptr\<close>, then followed.\<close>

definition add_resource_without_method :: "bool \<Rightarrow> string \<Rightarrow> 'e storage \<Rightarrow> 'e router \<Rightarrow> 'e router result" where
  "add_resource_without_method moves path_to_resource storage r =
     (if path_to_resource = [] then Inl Assert_Failed
      else (case resource_map r of
          None \<Rightarrow> Inl Null_Pointer
        | Some rm \<Rightarrow> Inr (r\<lparr>resource_map := Some (emplace_or_assign moves path_to_resource storage rm)\<rparr>)))"

definition router_concat :: "string \<Rightarrow> string \<Rightarrow> string result" where
  "router_concat resource1 resource2 =
     (if resource1 = [] \<or> resource2 = [] then Inl Out_Of_Bounds
      else
        let a1 = (last resource1 = CHR ''$'' \<and> hd resource1 = CHR ''^'');
            a2 = (last resource2 = CHR ''$'' \<and> hd resource2 = CHR ''^'')
        in Inr (if a1 \<and> a2 then butlast resource1 @ tl resource2
                else if a1 then butlast resource1 @ resource2 @ ''$''
                else if a2 then ''^'' @ resource1 @ tl resource2
                else resource1 @ resource2))"

definition router_use :: "bool \<Rightarrow> ('e resources \<Rightarrow> string list) \<Rightarrow> ('e method_resources \<Rightarrow> verb list) \<Rightarrow>
    string \<Rightarrow> 'e router \<Rightarrow> 'e router \<Rightarrow> 'e router result" where
  "router_use moves keys methods path_to_resource other r =
     and_then
       (case resource_map other of
          None \<Rightarrow> Inr r
        | Some rm \<Rightarrow> fold_result (\<lambda>k r. and_then (router_concat path_to_resource k) (\<lambda>p.
            add_resource_without_method moves p (the (rm k)) r)) (keys rm) r)
       (\<lambda>r. case method_map other of
          None \<Rightarrow> Inr r
        | Some mm \<Rightarrow> fold_result (\<lambda>method r. fold_result (\<lambda>k r.
            and_then (router_concat path_to_resource k) (\<lambda>p.
              add_resource_cb moves p method (the (the (mm method) k)) r))
            (keys (the (mm method))) r) (methods mm) r)"

text \<open>\<open>BasicRouter\<close>.\<close>

definition router_get :: "bool \<Rightarrow> string \<Rightarrow> 'e storage \<Rightarrow> 'e router \<Rightarrow> 'e router result" where
  "router_get moves p = add_resource_cb moves p Verb_get"

definition router_post :: "bool \<Rightarrow> string \<Rightarrow> 'e storage \<Rightarrow> 'e router \<Rightarrow> 'e router result" where
  "router_post moves p = add_resource_cb moves p Verb_post"

definition router_put :: "bool \<Rightarrow> string \<Rightarrow> 'e storage \<Rightarrow> 'e router \<Rightarrow> 'e router result" where
  "router_put moves p = add_resource_cb moves p Verb_put"

definition router_head :: "bool \<Rightarrow> string \<Rightarrow> 'e storage \<Rightarrow> 'e router \<Rightarrow> 'e router result" where
  "router_head moves p = add_resource_cb moves p Verb_head"

definition router_delete :: "bool \<Rightarrow> string \<Rightarrow> 'e storage \<Rightarrow> 'e router \<Rightarrow> 'e router result" where
  "router_delete moves p = add_resource_cb moves p Verb_delete"

definition router_connect :: "bool \<Rightarrow> string \<Rightarrow> 'e storage \<Rightarrow> 'e router \<Rightarrow> 'e router result" where
  "router_connect moves p = add_resource_cb moves p Verb_connect"

definition router_options :: "bool \<Rightarrow> string \<Rightarrow> 'e storage \<Rightarrow> 'e router \<Rightarrow> 'e router result" where
  "router_options moves p = add_resource_cb moves p Verb_options"

definition router_trace :: "bool \<Rightarrow> string \<Rightarrow> 'e storage \<Rightarrow> 'e router \<Rightarrow> 'e router result" where
  "router_trace moves p = add_resource_cb moves p Verb_trace"

definition router_use_root :: "bool \<Rightarrow> ('e resources \<Rightarrow> string list) \<Rightarrow> ('e method_resources \<Rightarrow> verb list) \<Rightarrow>
    'e router \<Rightarrow> 'e router \<Rightarrow> 'e router result" where
  "router_use_root moves keys methods other r = router_use moves keys methods [] other r"

section \<open>Processing a request\<close>

text \<open>
  \<open>target\<close> is a \<open>string_view\<close> of the request's target, read again for every entry of the map.
\<close>

definition provide_entry :: "(string \<Rightarrow> string \<Rightarrow> bool) \<Rightarrow> nat \<Rightarrow> 'e resources \<Rightarrow> string \<Rightarrow> string \<Rightarrow>
    'e list \<times> request \<Rightarrow> ('e list \<times> request) result" where
  "provide_entry matches depth rm target k = (\<lambda>(es, r).
     if \<not> view_valid r then Inl Use_After_Free
     else if matches k target then and_then (execute depth (the (rm k)) r) (\<lambda>(es', r). Inr (es @ es', r))
     else Inr (es, r))"

definition provide :: "(string \<Rightarrow> string \<Rightarrow> bool) \<Rightarrow> ('e resources \<Rightarrow> string list) \<Rightarrow> nat \<Rightarrow> 'e router \<Rightarrow>
    verb \<Rightarrow> string \<Rightarrow> ('e list \<times> request) result" where
  "provide matches keys depth rt method target =
     (let r = \<lparr>req_target = target, view_valid = True\<rparr> in
      case method_map rt of
        None \<Rightarrow> Inr ([], r)
      | Some mm \<Rightarrow> (case mm method of
          None \<Rightarrow> Inr ([], r)
        | Some rm \<Rightarrow> fold_result (provide_entry matches depth rm target) (keys rm) ([], r)))"

section \<open>Chains follow the path\<close>

text \<open>The text of a path and its segments.\<close>

definition path_of :: "string list \<Rightarrow> string" where
  "path_of segs = concat (map (\<lambda>s. CHR ''/'' # s) segs)"

definition segment_at :: "string list \<Rightarrow> nat \<Rightarrow> string" where
  "segment_at segs i = CHR ''/'' # segs ! min i (length segs - 1)"

lemma path_of_simps [simp]: "path_of [] = []" "path_of (s # segs) = CHR ''/'' # s @ path_of segs"
  by (simp_all add: path_of_def)

lemma skip_target_path:
  assumes "\<forall>s\<in>set segs. CHR ''/'' \<notin> set s" and "segs \<noteq> []"
  shows "skip_target \<lparr>pos = i, cont_iter = j, current_target = path_of segs\<rparr> r =
    (\<lparr>pos = i, cont_iter = j, current_target = path_of (if tl segs = [] then segs else tl segs)\<rparr>,
     set_target (CHR ''/'' # hd segs) r)"
proof -
  obtain s rest where segs: "segs = s # rest" using assms(2) by (cases segs) auto
  show ?thesis
  proof (cases rest)
    case Nil
    then show ?thesis using assms(1) segs by (simp add: skip_target_def find_char_None [THEN iffD2])
  next
    case (Cons s' rest')
    then have "find_char CHR ''/'' (drop 1 (path_of segs)) = Some (length s)"
      using assms(1) segs by (simp add: find_char_here)
    then show ?thesis using Cons segs by (simp add: skip_target_def)
  qed
qed

text \<open>After \<open>k\<close> skips the target is segment \<open>k - 1\<close> (the last one when there are fewer).\<close>

definition rest_at :: "string list \<Rightarrow> nat \<Rightarrow> string" where
  "rest_at segs k = path_of (drop (min k (length segs - 1)) segs)"

lemma skip_target_at:
  assumes "\<forall>s\<in>set segs. CHR ''/'' \<notin> set s" and "segs \<noteq> []"
  shows "skip_target \<lparr>pos = i, cont_iter = j, current_target = rest_at segs k\<rparr> r =
    (\<lparr>pos = i, cont_iter = j, current_target = rest_at segs (Suc k)\<rparr>, set_target (segment_at segs k) r)"
proof -
  let ?m = "min k (length segs - 1)"
  have m: "?m < length segs" using assms(2) by (cases segs) auto
  have "\<forall>s\<in>set (drop ?m segs). CHR ''/'' \<notin> set s" using assms(1) by (auto dest: in_set_dropD)
  moreover have "drop ?m segs \<noteq> []" using m by (simp only: drop_eq_Nil not_le)
  ultimately have "skip_target \<lparr>pos = i, cont_iter = j, current_target = rest_at segs k\<rparr> r =
      (\<lparr>pos = i, cont_iter = j, current_target =
         path_of (if tl (drop ?m segs) = [] then drop ?m segs else tl (drop ?m segs))\<rparr>,
       set_target (CHR ''/'' # hd (drop ?m segs)) r)"
    unfolding rest_at_def by (rule skip_target_path)
  moreover have "hd (drop ?m segs) = segs ! ?m" using m by (rule hd_drop_conv_nth)
  moreover have "path_of (if tl (drop ?m segs) = [] then drop ?m segs else tl (drop ?m segs)) = rest_at segs (Suc k)"
  proof (cases "Suc k < length segs")
    case True
    then show ?thesis by (simp add: rest_at_def tl_drop drop_Suc [symmetric])
  next
    case False
    then have "?m = length segs - 1" "min (Suc k) (length segs - 1) = length segs - 1" using m by simp_all
    then show ?thesis using assms(2) by (simp add: rest_at_def tl_drop drop_Suc [symmetric])
  qed
  ultimately show ?thesis by (simp add: segment_at_def)
qed

text \<open>Handlers that each pass the request on once, after effects of their own.\<close>

definition passing :: "(string \<Rightarrow> 'e list) \<Rightarrow> string \<Rightarrow> 'e action list" where
  "passing h t = map Effect (h t) @ [Advance, Call_Next]"

lemma prepare_eq: "prepare fs f = map Middle fs @ [Final f]"
  by (induction fs) simp_all

lemma run_passing:
  "run_actions d c it r (passing h t) = (case advance c it r of (it', r') \<Rightarrow>
     and_then (invoke d c it' r') (\<lambda>(es, r). Inr (h t @ es, r)))"
proof -
  have "run_actions d c it r (map Effect xs @ [Advance, Call_Next]) = (case advance c it r of (it', r') \<Rightarrow>
     and_then (invoke d c it' r') (\<lambda>(es, r). Inr (xs @ es, r)))" for xs
  proof (induction xs)
    case Nil
    show ?case by (simp split: prod.split)
  next
    case (Cons x xs)
    then show ?case by (auto simp: and_then_assoc split: prod.splits intro!: and_then_cong)
  qed
  then show ?thesis by (simp add: passing_def)
qed

lemma invoke_chain:
  assumes "\<forall>s\<in>set segs. CHR ''/'' \<notin> set s" and "segs \<noteq> []" and "i \<le> length hs" and "length hs - i < depth"
  shows "invoke depth (prepare (map passing hs) f)
      \<lparr>pos = i, cont_iter = i, current_target = rest_at segs (Suc i)\<rparr> \<lparr>req_target = segment_at segs i, view_valid = False\<rparr> =
    Inr (concat (map (\<lambda>j. (hs ! j) (segment_at segs j)) [i..<length hs]) @ f (segment_at segs (length hs)),
      \<lparr>req_target = segment_at segs (length hs), view_valid = False\<rparr>)"
  using assms(3,4)
proof (induction "length hs - i" arbitrary: i depth)
  case 0
  then have "i = length hs" by simp
  moreover obtain d where "depth = Suc d" using 0 by (cases depth) auto
  ultimately show ?case by (simp add: prepare_eq nth_append)
next
  case (Suc n)
  then have i: "i < length hs" by simp
  obtain d where d: "depth = Suc d" using Suc.prems by (cases depth) auto
  have adv: "advance (prepare (map passing hs) f) \<lparr>pos = i, cont_iter = i, current_target = rest_at segs (Suc i)\<rparr> r =
      (\<lparr>pos = Suc i, cont_iter = Suc i, current_target = rest_at segs (Suc (Suc i))\<rparr>,
       set_target (segment_at segs (Suc i)) r)" for r
    using i by (simp add: advance_def prepare_eq skip_target_at [OF assms(1,2)])
  have "prepare (map passing hs) f ! i = Middle (passing (hs ! i))" using i by (simp add: prepare_eq nth_append)
  moreover have "\<not> length (prepare (map passing hs) f) \<le> i" using i by (simp add: prepare_eq)
  ultimately have "invoke depth (prepare (map passing hs) f)
      \<lparr>pos = i, cont_iter = i, current_target = rest_at segs (Suc i)\<rparr> \<lparr>req_target = segment_at segs i, view_valid = False\<rparr> =
    and_then (invoke d (prepare (map passing hs) f)
      \<lparr>pos = Suc i, cont_iter = Suc i, current_target = rest_at segs (Suc (Suc i))\<rparr>
      \<lparr>req_target = segment_at segs (Suc i), view_valid = False\<rparr>) (\<lambda>(es, r). Inr ((hs ! i) (segment_at segs i) @ es, r))"
    by (simp add: d run_passing adv set_target_def)
  also have "\<dots> = Inr (concat (map (\<lambda>j. (hs ! j) (segment_at segs j)) [i..<length hs]) @ f (segment_at segs (length hs)),
      \<lparr>req_target = segment_at segs (length hs), view_valid = False\<rparr>)"
    using Suc.hyps(1) [of "Suc i" d] Suc.hyps(2) Suc.prems d i by (simp add: upt_conv_Cons)
  finally show ?case .
qed

lemma execute_chain:
  assumes "\<forall>s\<in>set segs. CHR ''/'' \<notin> set s" and "segs \<noteq> []" and "hs \<noteq> []" and "length hs < depth"
  shows "execute depth (prepare (map passing hs) f) \<lparr>req_target = path_of segs, view_valid = v\<rparr> =
    Inr (concat (map (\<lambda>j. (hs ! j) (segment_at segs j)) [0..<length hs]) @ f (segment_at segs (length hs)),
      \<lparr>req_target = segment_at segs (length hs), view_valid = False\<rparr>)"
proof -
  have "begin_exec (prepare (map passing hs) f) \<lparr>req_target = path_of segs, view_valid = v\<rparr> =
      (\<lparr>pos = 0, cont_iter = 0, current_target = rest_at segs (Suc 0)\<rparr>,
       \<lparr>req_target = segment_at segs 0, view_valid = False\<rparr>)"
    using skip_target_at [OF assms(1,2), of 0 0 0] assms(3)
    by (cases hs) (simp_all add: begin_exec_def prepare_eq set_target_def rest_at_def)
  moreover have "invoke depth (prepare (map passing hs) f)
      \<lparr>pos = 0, cont_iter = 0, current_target = rest_at segs (Suc 0)\<rparr> \<lparr>req_target = segment_at segs 0, view_valid = False\<rparr> =
    Inr (concat (map (\<lambda>j. (hs ! j) (segment_at segs j)) [0..<length hs]) @ f (segment_at segs (length hs)),
      \<lparr>req_target = segment_at segs (length hs), view_valid = False\<rparr>)"
    using assms(4) by (intro invoke_chain [OF assms(1,2)]) simp_all
  ultimately show ?thesis by (simp add: execute_def)
qed

text \<open>
  C24: a chain of handlers walks along the path.  When each handler but the last passes the
  request on once, each runs once, in the order of registration, and sees the segment of the target
  at its place; when the path is shorter than the chain, its last segment is seen again.
\<close>

theorem execute_walks_path:
  assumes "\<forall>s\<in>set segs. CHR ''/'' \<notin> set s" and "segs \<noteq> []" and "hs \<noteq> []" and "length hs < depth"
  shows "execute depth (prepare (map passing hs) f) \<lparr>req_target = path_of segs, view_valid = v\<rparr> =
    Inr (concat (map (\<lambda>j. (hs ! j) (segment_at segs j)) [0..<length hs]) @ f (segment_at segs (length hs)),
      \<lparr>req_target = segment_at segs (length hs), view_valid = False\<rparr>)"
  using assms by (rule execute_chain)

theorem execute_walks_path_witness:
  "execute 2 (prepare (map passing [\<lambda>t. [t]]) (\<lambda>t. [t, ''end''])) \<lparr>req_target = path_of [''a'', ''b'', ''c''], view_valid = True\<rparr> =
    Inr (concat (map (\<lambda>j. ([\<lambda>t. [t]] ! j) (segment_at [''a'', ''b'', ''c''] j)) [0..<length [\<lambda>t. [t::string]]]) @
        [segment_at [''a'', ''b'', ''c''] (length [\<lambda>t. [t::string]]), ''end''],
      \<lparr>req_target = segment_at [''a'', ''b'', ''c''] (length [\<lambda>t. [t::string]]), view_valid = False\<rparr>)"
  using execute_walks_path [of "[''a'', ''b'', ''c'']" "[\<lambda>t. [t]]" 2 "\<lambda>t. [t, ''end'']" True] by simp

section \<open>Tables\<close>

definition route :: "'e router \<Rightarrow> verb \<Rightarrow> string \<Rightarrow> 'e storage option" where
  "route r method k = (case method_map r of None \<Rightarrow> None | Some mm \<Rightarrow>
     (case mm method of None \<Rightarrow> None | Some rm \<Rightarrow> rm k))"

text \<open>What the parameters for the iteration orders are: each key is listed once.\<close>

definition lists_keys :: "('e resources \<Rightarrow> string list) \<Rightarrow> 'e resources \<Rightarrow> bool" where
  "lists_keys keys m \<longleftrightarrow> distinct (keys m) \<and> set (keys m) = dom m"

definition lists_methods :: "('e method_resources \<Rightarrow> verb list) \<Rightarrow> 'e method_resources \<Rightarrow> bool" where
  "lists_methods methods mm \<longleftrightarrow> distinct (methods mm) \<and> set (methods mm) = dom mm"

lemma route_add:
  assumes "p \<noteq> []"
  shows "\<exists>r'. add_resource_cb moves p method st r = Inr r' \<and> resource_map r' = resource_map r \<and>
    (\<forall>m k. route r' m k = (if m = method \<and> k = p
      then Some (if moves \<and> route r method p \<noteq> None then [] else st) else route r m k))"
  using assms by (auto simp: add_resource_cb_def route_def emplace_or_assign_def Let_def split: option.splits)

text \<open>Both or either anchored gives an anchored expression around the two, else they are put together.\<close>

definition anchored :: "string \<Rightarrow> bool" where
  "anchored s \<longleftrightarrow> s \<noteq> [] \<and> hd s = CHR ''^'' \<and> last s = CHR ''$''"

definition strip_anchors :: "string \<Rightarrow> string" where
  "strip_anchors s = (if anchored s then butlast (tl s) else s)"

definition mount :: "string \<Rightarrow> string \<Rightarrow> string" where
  "mount p k = (if anchored p \<or> anchored k then ''^'' @ strip_anchors p @ strip_anchors k @ ''$'' else p @ k)"

lemma anchored_split: "anchored s \<Longrightarrow> s = ''^'' @ strip_anchors s @ ''$''"
proof -
  assume a: "anchored s"
  then obtain xs where s: "s = CHR ''^'' # xs" by (cases s) (auto simp: anchored_def)
  then have "xs \<noteq> []" "last xs = CHR ''$''" using a by (auto simp: anchored_def split: if_splits)
  then have "xs = butlast xs @ ''$''" by (metis append_butlast_last_id)
  then show ?thesis using a s by (simp add: strip_anchors_def)
qed

lemma router_concat_mount:
  assumes "p \<noteq> []" and "k \<noteq> []"
  shows "router_concat p k = Inr (mount p k)"
proof -
  have parts: "butlast s = ''^'' @ strip_anchors s" "tl s = strip_anchors s @ ''$''" if "anchored s" for s
    by (subst anchored_split [OF that], simp add: butlast_append)+
  have a: "(last s = CHR ''$'' \<and> hd s = CHR ''^'') = anchored s" if "s \<noteq> []" for s
    using that by (auto simp: anchored_def)
  have plain: "strip_anchors s = s" if "\<not> anchored s" for s using that by (simp add: strip_anchors_def)
  show ?thesis
    by (cases "anchored p"; cases "anchored k") (simp_all add: router_concat_def a assms mount_def parts plain)
qed

lemma use_method:
  assumes "p \<noteq> []" and "distinct ks" and "\<forall>k\<in>set ks. k \<noteq> [] \<and> route r method (mount p k) = None"
    and "inj_on (mount p) (set ks)"
  shows "\<exists>r'. fold_result (\<lambda>k r. and_then (router_concat p k) (\<lambda>q. add_resource_cb moves q method (st k) r)) ks r = Inr r' \<and>
    (\<forall>k\<in>set ks. route r' method (mount p k) = Some (st k)) \<and>
    (\<forall>m q. m \<noteq> method \<or> q \<notin> mount p ` set ks \<longrightarrow> route r' m q = route r m q)"
  using assms(2-)
proof (induction ks arbitrary: r)
  case (Cons k ks)
  have q: "mount p k \<noteq> []" using Cons.prems(2) by (simp add: mount_def)
  obtain r1 where r1: "add_resource_cb moves (mount p k) method (st k) r = Inr r1"
      "\<And>m q. route r1 m q = (if m = method \<and> q = mount p k then Some (st k) else route r m q)"
    using route_add [OF q, of moves "method" "st k" r] Cons.prems(2) by auto
  have other: "mount p k \<notin> mount p ` set ks" using Cons.prems(1,3) by (auto simp: inj_on_def)
  then have "\<forall>k\<in>set ks. k \<noteq> [] \<and> route r1 method (mount p k) = None"
    using Cons.prems(2) r1(2) by (metis imageI insert_iff list.set(2))
  then obtain r' where r': "fold_result (\<lambda>k r. and_then (router_concat p k) (\<lambda>q. add_resource_cb moves q method (st k) r)) ks r1 = Inr r'"
      "\<forall>k\<in>set ks. route r' method (mount p k) = Some (st k)"
      "\<forall>m q. m \<noteq> method \<or> q \<notin> mount p ` set ks \<longrightarrow> route r' m q = route r1 m q"
    using Cons.IH [of r1] Cons.prems(1,3) by (auto simp: inj_on_def)
  have "router_concat p k = Inr (mount p k)" using assms(1) Cons.prems(2) by (simp add: router_concat_mount)
  then have "fold_result (\<lambda>k r. and_then (router_concat p k) (\<lambda>q. add_resource_cb moves q method (st k) r)) (k # ks) r = Inr r'"
    using r1(1) r'(1) by simp
  moreover have "route r' method (mount p k) = Some (st k)" using r'(3) other r1(2) by simp
  ultimately show ?case using r'(2,3) r1(2) by auto
qed simp

lemma use_methods:
  assumes "p \<noteq> []" and "distinct ms" and "\<forall>m\<in>set ms. distinct (ks m) \<and> inj_on (mount p) (set (ks m)) \<and>
      (\<forall>k\<in>set (ks m). k \<noteq> [] \<and> route r m (mount p k) = None)"
  shows "\<exists>r'. fold_result (\<lambda>m r. fold_result (\<lambda>k r. and_then (router_concat p k)
      (\<lambda>q. add_resource_cb moves q m (st m k) r)) (ks m) r) ms r = Inr r' \<and>
    (\<forall>m\<in>set ms. \<forall>k\<in>set (ks m). route r' m (mount p k) = Some (st m k)) \<and>
    (\<forall>m q. m \<in> set ms \<longrightarrow> q \<notin> mount p ` set (ks m) \<longrightarrow> route r' m q = route r m q) \<and>
    (\<forall>m q. m \<notin> set ms \<longrightarrow> route r' m q = route r m q)"
  using assms(2,3)
proof (induction ms arbitrary: r)
  case (Cons m ms)
  obtain r1 where r1: "fold_result (\<lambda>k r. and_then (router_concat p k)
      (\<lambda>q. add_resource_cb moves q m (st m k) r)) (ks m) r = Inr r1"
      "\<forall>k\<in>set (ks m). route r1 m (mount p k) = Some (st m k)"
      "\<forall>m' q. m' \<noteq> m \<or> q \<notin> mount p ` set (ks m) \<longrightarrow> route r1 m' q = route r m' q"
    using use_method [OF assms(1), of "ks m" r m moves "st m"] Cons.prems by auto
  have "\<forall>m\<in>set ms. distinct (ks m) \<and> inj_on (mount p) (set (ks m)) \<and>
      (\<forall>k\<in>set (ks m). k \<noteq> [] \<and> route r1 m (mount p k) = None)"
    using Cons.prems r1(3) by (metis distinct.simps(2) list.set_intros(2))
  then obtain r' where r': "fold_result (\<lambda>m r. fold_result (\<lambda>k r. and_then (router_concat p k)
      (\<lambda>q. add_resource_cb moves q m (st m k) r)) (ks m) r) ms r1 = Inr r'"
      "\<forall>m\<in>set ms. \<forall>k\<in>set (ks m). route r' m (mount p k) = Some (st m k)"
      "\<forall>m q. m \<in> set ms \<longrightarrow> q \<notin> mount p ` set (ks m) \<longrightarrow> route r' m q = route r1 m q"
      "\<forall>m q. m \<notin> set ms \<longrightarrow> route r' m q = route r1 m q"
    using Cons.IH [of r1] Cons.prems(1) by auto
  have "m \<notin> set ms" using Cons.prems(1) by simp
  then show ?case using r' r1 by (simp, metis)
qed simp

lemma use_mounts:
  assumes "p \<noteq> []" and "resource_map other = None" and "method_map other = Some mm"
    and "lists_methods methods mm" and "\<forall>m rm. mm m = Some rm \<longrightarrow> lists_keys keys rm"
    and "\<forall>m. route other m [] = None" and "\<forall>m. inj_on (mount p) {k. route other m k \<noteq> None}"
    and "\<forall>m k. route other m k \<noteq> None \<longrightarrow> route r m (mount p k) = None"
  shows "\<exists>r'. router_use moves keys methods p other r = Inr r' \<and>
    (\<forall>m k st. route other m k = Some st \<longrightarrow> route r' m (mount p k) = Some st) \<and>
    (\<forall>m q. (\<forall>k. route other m k \<noteq> None \<longrightarrow> q \<noteq> mount p k) \<longrightarrow> route r' m q = route r m q)"
proof -
  let ?ks = "\<lambda>m. keys (the (mm m))" and ?st = "\<lambda>m k. the (the (mm m) k)"
  have ms: "distinct (methods mm)" "m \<in> set (methods mm) \<longleftrightarrow> mm m \<noteq> None" for m
    using assms(4) by (auto simp: lists_methods_def)
  have rt: "route other m k = (case mm m of None \<Rightarrow> None | Some rm \<Rightarrow> rm k)" for m k
    by (simp add: route_def assms(3))
  have keys: "distinct (?ks m)" "k \<in> set (?ks m) \<longleftrightarrow> route other m k \<noteq> None" if m: "m \<in> set (methods mm)" for m k
  proof -
    obtain rm where rm: "mm m = Some rm" using ms(2) m by auto
    then have "lists_keys keys rm" using assms(5) by simp
    then show "distinct (?ks m)" "k \<in> set (?ks m) \<longleftrightarrow> route other m k \<noteq> None"
      using rm by (auto simp: lists_keys_def rt)
  qed
  have each: "\<forall>m\<in>set (methods mm). distinct (?ks m) \<and> inj_on (mount p) (set (?ks m)) \<and>
      (\<forall>k\<in>set (?ks m). k \<noteq> [] \<and> route r m (mount p k) = None)"
  proof
    fix m assume m: "m \<in> set (methods mm)"
    have "set (?ks m) = {k. route other m k \<noteq> None}" using keys(2) [OF m] by auto
    then show "distinct (?ks m) \<and> inj_on (mount p) (set (?ks m)) \<and>
        (\<forall>k\<in>set (?ks m). k \<noteq> [] \<and> route r m (mount p k) = None)"
      using keys(1) [OF m] assms(6-8) by auto
  qed
  obtain r' where r': "router_use moves keys methods p other r = Inr r'"
      "\<forall>m\<in>set (methods mm). \<forall>k\<in>set (?ks m). route r' m (mount p k) = Some (?st m k)"
      "\<forall>m q. m \<in> set (methods mm) \<longrightarrow> q \<notin> mount p ` set (?ks m) \<longrightarrow> route r' m q = route r m q"
      "\<forall>m q. m \<notin> set (methods mm) \<longrightarrow> route r' m q = route r m q"
    using use_methods [OF assms(1) ms(1) each, of moves ?st] by (auto simp: router_use_def assms(2,3))
  have "route r' m (mount p k) = Some st" if st: "route other m k = Some st" for m k st
  proof -
    have m: "m \<in> set (methods mm)" using st ms(2) by (auto simp: rt split: option.splits)
    moreover have "?st m k = st" using st by (auto simp: rt split: option.splits)
    ultimately show ?thesis using r'(2) keys(2) [OF m, of k] st by auto
  qed
  moreover have "route r' m q = route r m q" if "\<forall>k. route other m k \<noteq> None \<longrightarrow> q \<noteq> mount p k" for m q
    using that r'(3,4) keys(2) [of m] by (cases "m \<in> set (methods mm)") blast+
  ultimately show ?thesis using r'(1) by blast
qed


definition one_route :: "'e router" where
  "one_route = \<lparr>resource_map = None,
     method_map = Some [Verb_get \<mapsto> [''^/b$'' \<mapsto> [Final (\<lambda>_. [])]]]\<rparr>"

lemma route_one_route:
  "route one_route m k = (if m = Verb_get \<and> k = ''^/b$'' then Some [Final (\<lambda>_. [])] else None)"
  by (simp add: route_def one_route_def)


section \<open>Requests\<close>

lemma execute_single: "0 < depth \<Longrightarrow> execute depth [Final f] r = Inr (f (req_target r), r)"
  by (cases depth) (simp_all add: execute_def begin_exec_def)

lemma provide_single:
  assumes "\<forall>k st. route rt method k = Some st \<longrightarrow> (\<exists>f. st = [Final f])" and "0 < depth"
    and "\<forall>mm rm. method_map rt = Some mm \<longrightarrow> mm method = Some rm \<longrightarrow> lists_keys keys rm"
  shows "\<exists>ks es r. provide matches keys depth rt method target = Inr (es, r) \<and>
    distinct ks \<and> set ks = {k. route rt method k \<noteq> None \<and> matches k target} \<and>
    es = concat (map (\<lambda>k. case route rt method k of Some [Final f] \<Rightarrow> f target | _ \<Rightarrow> []) ks) \<and>
    req_target r = target"
proof (cases "\<exists>mm rm. method_map rt = Some mm \<and> mm method = Some rm")
  case False
  then have "route rt method k = None" for k by (auto simp: route_def split: option.splits)
  moreover have "provide matches keys depth rt method target = Inr ([], \<lparr>req_target = target, view_valid = True\<rparr>)"
    using False by (auto simp: provide_def Let_def split: option.splits)
  ultimately show ?thesis by (intro exI [of _ "[]"] exI) auto
next
  case True
  then obtain mm rm where mm: "method_map rt = Some mm" "mm method = Some rm" by blast
  let ?r = "\<lparr>req_target = target, view_valid = True\<rparr>"
  let ?es = "\<lambda>ks. concat (map (\<lambda>k. case route rt method k of Some [Final f] \<Rightarrow> f target | _ \<Rightarrow> []) ks)"
  have rt: "route rt method = rm" using mm by (auto simp: route_def)
  have "fold_result (provide_entry matches depth rm target) ks (es, ?r) =
      Inr (es @ ?es (filter (\<lambda>k. matches k target) ks), ?r)" if "set ks \<subseteq> dom rm" for ks es
    using that
  proof (induction ks arbitrary: es)
    case (Cons k ks)
    then obtain f where "rm k = Some [Final f]" using assms(1) rt by fastforce
    then show ?case using Cons assms(2) by (simp add: provide_entry_def execute_single rt)
  qed simp
  from this [of "keys rm" "[]"] have "provide matches keys depth rt method target =
      Inr (?es (filter (\<lambda>k. matches k target) (keys rm)), ?r)"
    using assms(3) mm by (simp add: provide_def lists_keys_def)
  moreover have "distinct (filter (\<lambda>k. matches k target) (keys rm))"
    "set (filter (\<lambda>k. matches k target) (keys rm)) = {k. route rt method k \<noteq> None \<and> matches k target}"
    using assms(3) mm by (auto simp: lists_keys_def rt)
  ultimately show ?thesis by (intro exI [of _ "filter (\<lambda>k. matches k target) (keys rm)"] exI) auto
qed

text \<open>
  C22: a request runs what it matches.  When the chains of its method have one handler each,
  exactly those whose expression matches the target run, once each, on the whole target; a request
  whose method has no table runs nothing.
\<close>

theorem provide_runs_matches:
  assumes "\<forall>k st. route rt method k = Some st \<longrightarrow> (\<exists>f. st = [Final f])" and "0 < depth"
    and "\<forall>mm rm. method_map rt = Some mm \<longrightarrow> mm method = Some rm \<longrightarrow> lists_keys keys rm"
  shows "\<exists>ks es r. provide matches keys depth rt method target = Inr (es, r) \<and>
    distinct ks \<and> set ks = {k. route rt method k \<noteq> None \<and> matches k target} \<and>
    es = concat (map (\<lambda>k. case route rt method k of Some [Final f] \<Rightarrow> f target | _ \<Rightarrow> []) ks) \<and>
    req_target r = target"
  using assms by (rule provide_single)

theorem provide_runs_matches_witness:
  "\<exists>ks es r. provide (\<lambda>k t. k = ''^'' @ t @ ''$'') (\<lambda>_. [''^/b$'']) 9 (one_route :: nat router) Verb_get ''/b'' = Inr (es, r) \<and>
    distinct ks \<and> set ks = {k. route (one_route :: nat router) Verb_get k \<noteq> None \<and> k = ''^'' @ ''/b'' @ ''$''} \<and>
    es = concat (map (\<lambda>k. case route one_route Verb_get k of Some [Final f] \<Rightarrow> f ''/b'' | _ \<Rightarrow> []) ks) \<and>
    req_target r = ''/b''"
proof (rule provide_runs_matches)
  show "\<forall>k st. route (one_route :: nat router) Verb_get k = Some st \<longrightarrow> (\<exists>f. st = [Final f])"
    by (simp add: route_one_route)
qed (auto simp: lists_keys_def one_route_def split: if_splits)

lemma skip_target_frees: "skip_target it r = (it', r') \<Longrightarrow> \<not> view_valid r'"
  by (auto simp: skip_target_def set_target_def split: option.splits)

lemma chain_view_stays_invalid:
  "\<not> view_valid r \<Longrightarrow> ensures (\<lambda>_. True) (\<lambda>(es, r'). \<not> view_valid r') (invoke d c it r)"
  "\<not> view_valid r \<Longrightarrow> ensures (\<lambda>_. True) (\<lambda>(es, r'). \<not> view_valid r') (run_actions d c it r as)"
proof (induction d c it r and d c it r as rule: invoke_run_actions.induct)
  case (2 d c it r)
  then show ?case by (simp split: handler.split)
next
  case (4 d c it r e as)
  then show ?case by (auto intro: ensures_and_then)
next
  case (5 d c it r as)
  obtain it' r' where a: "advance c it r = (it', r')" by fastforce
  then have "\<not> view_valid r'" unfolding advance_def Let_def by (rule skip_target_frees)
  then show ?case using 5 a by simp
next
  case (6 d c it r as)
  have "ensures (\<lambda>_. True) (\<lambda>(es, r'). \<not> view_valid r') (invoke d c it r)" using 6 by blast
  then show ?case using 6(2) by (auto intro!: ensures_and_then [where Q = "\<lambda>(es, r'). \<not> view_valid r'"])
qed simp_all

lemma execute_chain_sets_target:
  assumes "execute depth c r = Inr (es, r')" and "length c > 1"
  shows "\<not> view_valid r'"
proof -
  obtain it1 r1 where b: "begin_exec c r = (it1, r1)" by fastforce
  then have "\<not> view_valid r1" using assms(2) by (auto simp: begin_exec_def Let_def dest: skip_target_frees)
  then show ?thesis using chain_view_stays_invalid(1) [of r1 depth c it1] assms(1) b by (simp add: execute_def)
qed

text \<open>
  two matches and a chain.  When a chain of several handlers has run and another entry
  follows it in the table, the target is read again through a view of the text the chain's
  iterator has replaced, whatever the entry.
\<close>

theorem provide_dangles:
  assumes "method_map rt = Some mm" and "mm method = Some rm" and "keys rm = xs @ k # k' # ys"
    and "\<forall>x\<in>set xs. \<not> matches x target" and "matches k target" and "length (the (rm k)) > 1"
    and "\<exists>res. execute depth (the (rm k)) \<lparr>req_target = target, view_valid = True\<rparr> = Inr res"
  shows "provide matches keys depth rt method target = Inl Use_After_Free"
proof -
  let ?r = "\<lparr>req_target = target, view_valid = True\<rparr>"
  obtain es r' where res: "execute depth (the (rm k)) ?r = Inr (es, r')" using assms(7) by auto
  have "fold_result (provide_entry matches depth rm target) xs ([], ?r) = Inr ([], ?r)"
    using assms(4) by (induction xs) (simp_all add: provide_entry_def)
  then show ?thesis using assms(5) execute_chain_sets_target [OF res assms(6)]
    by (simp add: provide_def assms(1-3) fold_result_append provide_entry_def res)
qed

definition two_routes :: "string router" where
  "two_routes = \<lparr>resource_map = None, method_map = Some [Verb_get \<mapsto>
     [''/a/b'' \<mapsto> prepare [passing (\<lambda>t. [t])] (\<lambda>t. [t]), ''/c'' \<mapsto> [Final (\<lambda>t. [t])]]]\<rparr>"

theorem provide_dangles_witness:
  "provide (\<lambda>k t. k = t) (\<lambda>_. [''/a/b'', ''/c'']) 9 two_routes Verb_get ''/a/b'' = Inl Use_After_Free"
proof (rule provide_dangles [where xs = "[]" and k = "''/a/b''" and k' = "''/c''" and ys = "[]" and
      mm = "[Verb_get \<mapsto> [''/a/b'' \<mapsto> prepare [passing (\<lambda>t. [t])] (\<lambda>t. [t]), ''/c'' \<mapsto> [Final (\<lambda>t. [t])]]]" and
      rm = "[''/a/b'' \<mapsto> prepare [passing (\<lambda>t. [t])] (\<lambda>t. [t]), ''/c'' \<mapsto> [Final (\<lambda>t. [t])]]"])
  show "\<exists>res. execute 9 (the ([''/a/b'' \<mapsto> prepare [passing (\<lambda>t. [t])] (\<lambda>t. [t]), ''/c'' \<mapsto> [Final (\<lambda>t. [t])]] ''/a/b''))
      \<lparr>req_target = ''/a/b'', view_valid = True\<rparr> = Inr res"
    using execute_chain [of "[''a'', ''b'']" "[\<lambda>t. [t]]" 9 "\<lambda>t. [t]" True] by simp
qed (simp_all add: two_routes_def)

text \<open>
  registrations that fail.  A route without method is added through a null pointer; a
  router mounted without prefix has its expressions joined to an empty one, whose first and last
  characters do not exist; and when \<open>emplace\<close> takes its argument, a path registered twice loses its
  handlers, and a request for it runs past the end of an empty chain.
\<close>

theorem router_pitfalls:
  "add_resource_without_method moves (x # p) st Router_new = Inl Null_Pointer \<and>
   router_use_root moves (\<lambda>_. [''^/b$'']) (\<lambda>_. [Verb_get]) (one_route :: nat router) r = Inl Out_Of_Bounds \<and>
   and_then (router_get True ''/x'' [Final f] Router_new) (\<lambda>r. and_then (router_get True ''/x'' [Final g] r)
     (\<lambda>r. provide (=) (\<lambda>_. [''/x'']) (Suc depth) r Verb_get ''/x'')) = Inl Out_Of_Bounds"
  by (simp add: add_resource_without_method_def router_use_root_def router_use_def router_concat_def one_route_def
    Router_new_def router_get_def add_resource_cb_def emplace_or_assign_def provide_def provide_entry_def
    execute_def begin_exec_def)

end
