(* ===== verification/Http_Session.thy ===== *)
theory Http_Session
  imports Http_Router "HOL-Library.Multiset"
begin

text \<open>
  \<open>Http/HttpSession.hpp\<close> (its \<open>Flesh\<close>), \<open>Http/Queue.hpp\<close>, \<open>Http/Connection.hpp\<close>,
  \<open>Http/Timer.hpp\<close> and \<open>Http/HttpServer.hpp\<close>: a session reads a request, lets the router run the
  handlers it matches, and reads the next one; a server gives each accepted socket a session.

  What beast and asio do is an event: a read completes, a timer wait completes, a socket is
  accepted.  A \<open>Context\<close> call of a handler is dispatched to the executor whose thread is running it,
  so it is a direct call.

  Sending a response does not compile: \<open>Context::send\<close> names \<open>_Flesh::send\<close> without the address
  operator, the queue calls \<open>do_write\<close>, which no class has, and \<open>doWrite\<close> calls \<open>async_write\<close>
  without a serializer.  No program contains these instantiations, so sending has no definition here, and
  nothing is ever put into the queue of responses.  \<open>Context::advance\<close> does not compile either.
\<close>

section \<open>State\<close>

text \<open>
  \<open>reads\<close>, \<open>waits\<close> count the pending reads and timer waits, whose handlers own the session;
  \<open>queued\<close> are the items of the queue of responses, \<open>reported\<close> the texts given to
  \<open>on_error_\<close>; \<open>sock_fails\<close> says whether the socket's \<open>shutdown\<close> and \<open>close\<close> report an error,
  \<open>shut\<close> are the directions shut down, \<open>read_buffer\<close> the bytes the session was made with, which the
  parser reads before those of the socket.
\<close>

datatype shutdown_type = Shutdown_receive | Shutdown_send | Shutdown_both

record 'r flesh =
  queued :: "'r list"
  reads :: nat
  waits :: nat
  sock_open :: bool
  sock_fails :: bool
  expiry :: int
  has_on_error :: bool
  has_on_timer :: bool
  reported :: "string list"
  shut :: "shutdown_type list"
  read_buffer :: string

text \<open>The three constructors: neither handler, an error handler, or both.\<close>

definition Flesh_new :: "bool \<Rightarrow> bool \<Rightarrow> bool \<Rightarrow> int \<Rightarrow> string \<Rightarrow> 'r flesh" where
  "Flesh_new on_error on_timer fails time_max buffer = \<lparr>queued = [], reads = 0, waits = 0,
     sock_open = True, sock_fails = fails, expiry = time_max, has_on_error = on_error,
     has_on_timer = on_timer, reported = [], shut = [], read_buffer = buffer\<rparr>"

definition report :: "string \<Rightarrow> 'r flesh \<Rightarrow> 'r flesh" where
  "report what f = (if has_on_error f then f\<lparr>reported := reported f @ [what]\<rparr> else f)"

section \<open>Connection and Timer\<close>

text \<open>The wrappers start one operation of beast or asio each; its completion is an event.\<close>

definition async_read :: "'r flesh \<Rightarrow> 'r flesh" where
  "async_read f = f\<lparr>reads := reads f + 1\<rparr>"

definition async_wait :: "'r flesh \<Rightarrow> 'r flesh" where
  "async_wait f = f\<lparr>waits := waits f + 1\<rparr>"

text \<open>\<open>cancel\<close> returns the error of the timer; the waits it ends complete with \<open>Timer_Aborted\<close>.\<close>

definition timer_cancel :: "bool \<Rightarrow> 'r flesh \<Rightarrow> 'r flesh \<times> bool" where
  "timer_cancel ec f = (f, ec)"

lemmas started_operations [simp] = async_read_def async_wait_def timer_cancel_def

section \<open>Queue\<close>

definition queue_limit :: nat where
  "queue_limit = 16"

definition is_full :: "'r flesh \<Rightarrow> bool" where
  "is_full f \<longleftrightarrow> queue_limit \<le> length (queued f)"

section \<open>Flesh\<close>

text \<open>\<open>parser_.emplace\<close> destroys the parser a pending read works on.\<close>

definition doRead :: "'r flesh \<Rightarrow> 'r flesh result" where
  "doRead f = (if reads f \<noteq> 0 then Inl Use_After_Free else Inr (async_read f))"

definition doLaunchTimer :: "'r flesh \<Rightarrow> 'r flesh" where
  "doLaunchTimer f = async_wait f"

definition recv :: "'r flesh \<Rightarrow> 'r flesh result" where
  "recv f = doRead f"

definition recv_for :: "int \<Rightarrow> int \<Rightarrow> 'r flesh \<Rightarrow> 'r flesh result" where
  "recv_for now duration f = doRead (doLaunchTimer (f\<lparr>expiry := now + duration\<rparr>))"

definition wait_for :: "int \<Rightarrow> int \<Rightarrow> 'r flesh \<Rightarrow> 'r flesh" where
  "wait_for now duration f = doLaunchTimer (f\<lparr>expiry := now + duration\<rparr>)"

definition timerCancel :: "bool \<Rightarrow> 'r flesh \<Rightarrow> 'r flesh" where
  "timerCancel ec f = (let (f, ec) = timer_cancel ec f in if ec then report ''cancel/timerCancel'' f else f)"

definition connection_close :: "'r flesh \<Rightarrow> 'r flesh \<times> bool" where
  "connection_close f = (f\<lparr>sock_open := False\<rparr>, sock_fails f)"

definition connection_shutdown :: "shutdown_type \<Rightarrow> 'r flesh \<Rightarrow> 'r flesh \<times> bool" where
  "connection_shutdown type f = (f\<lparr>shut := shut f @ [type]\<rparr>, sock_fails f)"

definition doEof :: "shutdown_type \<Rightarrow> 'r flesh \<Rightarrow> 'r flesh" where
  "doEof type f = (if \<not> sock_open f then f else
     let (f, ec) = connection_shutdown type f in if ec then report ''shutdown/eof'' f else f)"

definition doCls :: "'r flesh \<Rightarrow> 'r flesh" where
  "doCls f = (if \<not> sock_open f then f else
     let (f, ec) = connection_close f in if ec then report ''close/cls'' f else f)"

definition flesh_eof :: "'r flesh \<Rightarrow> 'r flesh" where
  "flesh_eof f = doEof Shutdown_send f"

definition flesh_cls :: "'r flesh \<Rightarrow> 'r flesh" where
  "flesh_cls f = doCls f"

text \<open>The calls a handler can make on its \<open>Context\<close>.\<close>

datatype ctx_call = Recv | RecvFor int | CancelTimer bool | Eof | Cls

definition ctx_call :: "int \<Rightarrow> ctx_call \<Rightarrow> 'r flesh \<Rightarrow> 'r flesh result" where
  "ctx_call now c f = (case c of
     Recv \<Rightarrow> recv f
   | RecvFor d \<Rightarrow> recv_for now d f
   | CancelTimer ec \<Rightarrow> Inr (timerCancel ec f)
   | Eof \<Rightarrow> Inr (flesh_eof f)
   | Cls \<Rightarrow> Inr (flesh_cls f))"

lemma ctx_call_simps:
  "ctx_call now Recv f = recv f" "ctx_call now (RecvFor d) f = recv_for now d f"
  "ctx_call now (CancelTimer ec) f = Inr (timerCancel ec f)"
  "ctx_call now Eof f = Inr (flesh_eof f)" "ctx_call now Cls f = Inr (flesh_cls f)"
  by (simp_all add: ctx_call_def)

text \<open>\<open>app\<close> is what \<open>provide\<close> runs for a method and a target: the calls of the matched handlers.\<close>

definition doProcessRequest :: "(verb \<Rightarrow> string \<Rightarrow> (ctx_call list \<times> request) result) \<Rightarrow> int \<Rightarrow>
    verb \<Rightarrow> string \<Rightarrow> 'r flesh \<Rightarrow> 'r flesh result" where
  "doProcessRequest app now method target f =
     and_then (app method target) (\<lambda>(calls, _).
     and_then (fold_result (ctx_call now) calls f) (\<lambda>f.
     if \<not> is_full f \<and> sock_open f then recv f else Inr f))"

definition read_done :: "(verb \<Rightarrow> string \<Rightarrow> (ctx_call list \<times> request) result) \<Rightarrow> int \<Rightarrow>
    (verb \<times> string) option \<Rightarrow> 'r flesh \<Rightarrow> 'r flesh result" where
  "read_done app now req f = (if reads f = 0 then Inr f else
     let f = f\<lparr>reads := reads f - 1\<rparr> in
     case req of
       None \<Rightarrow> Inr (report ''async_read/on_read'' f)
     | Some (method, target) \<Rightarrow> doProcessRequest app now method target f)"

datatype timer_error = Timer_Ok | Timer_Aborted | Timer_Error

definition onTimer :: "int \<Rightarrow> ctx_call list \<Rightarrow> timer_error \<Rightarrow> 'r flesh \<Rightarrow> 'r flesh result" where
  "onTimer now on_timer error f =
     (if error = Timer_Error then Inr (report ''async_wait/onTimer'' f)
      else if expiry f \<le> now then
        (let is_alive = sock_open f in
         if has_on_timer f \<and> is_alive then fold_result (ctx_call now) on_timer f
         else if \<not> is_alive then Inr f
         else
           let (f, ec) = connection_shutdown Shutdown_both f;
               f = (if ec then report ''shutdown/on_timer'' f else f);
               (f, ec) = connection_close f
           in Inr (if ec then report ''close/on_timer'' f else f))
      else Inr f)"

definition timer_done :: "int \<Rightarrow> ctx_call list \<Rightarrow> timer_error \<Rightarrow> 'r flesh \<Rightarrow> 'r flesh result" where
  "timer_done now on_timer error f =
     (if waits f = 0 then Inr f else onTimer now on_timer error (f\<lparr>waits := waits f - 1\<rparr>))"

text \<open>The session lives as long as a pending handler owns it.\<close>

definition held_alive :: "'r flesh \<Rightarrow> bool" where
  "held_alive f \<longleftrightarrow> reads f \<noteq> 0 \<or> waits f \<noteq> 0"

datatype session_event = ReadDone int "(verb \<times> string) option" | TimerDone int "ctx_call list" timer_error

definition session_event :: "(verb \<Rightarrow> string \<Rightarrow> (ctx_call list \<times> request) result) \<Rightarrow>
    session_event \<Rightarrow> 'r flesh \<Rightarrow> 'r flesh result" where
  "session_event app ev f = (case ev of
     ReadDone now req \<Rightarrow> read_done app now req f
   | TimerDone now on_timer error \<Rightarrow> timer_done now on_timer error f)"

section \<open>Sessions on an accepted socket\<close>

text \<open>
  The static functions \<open>recv\<close> and \<open>make\<close>: each makes a \<open>Flesh\<close> that a \<open>Context\<close> owns,
  with the caller's buffer or an empty one; \<open>recv\<close> calls one operation of the context.
\<close>

definition session_recv_buffer :: "bool \<Rightarrow> bool \<Rightarrow> bool \<Rightarrow> int \<Rightarrow> string \<Rightarrow> 'r flesh result" where
  "session_recv_buffer on_error on_timer fails time_max buffer =
     ctx_call 0 Recv (Flesh_new on_error on_timer fails time_max buffer)"

definition session_recv :: "bool \<Rightarrow> bool \<Rightarrow> bool \<Rightarrow> int \<Rightarrow> 'r flesh result" where
  "session_recv on_error on_timer fails time_max = ctx_call 0 Recv (Flesh_new on_error on_timer fails time_max [])"

definition session_recv_for_buffer :: "int \<Rightarrow> bool \<Rightarrow> bool \<Rightarrow> bool \<Rightarrow> int \<Rightarrow> int \<Rightarrow> string \<Rightarrow> 'r flesh result" where
  "session_recv_for_buffer now on_error on_timer fails time_max duration buffer =
     ctx_call now (RecvFor duration) (Flesh_new on_error on_timer fails time_max buffer)"

definition session_recv_for :: "int \<Rightarrow> bool \<Rightarrow> bool \<Rightarrow> bool \<Rightarrow> int \<Rightarrow> int \<Rightarrow> 'r flesh result" where
  "session_recv_for now on_error on_timer fails time_max duration =
     ctx_call now (RecvFor duration) (Flesh_new on_error on_timer fails time_max [])"

definition session_make :: "bool \<Rightarrow> bool \<Rightarrow> bool \<Rightarrow> int \<Rightarrow> 'r flesh" where
  "session_make on_error on_timer fails time_max = Flesh_new on_error on_timer fails time_max []"

definition session_make_buffer :: "bool \<Rightarrow> bool \<Rightarrow> bool \<Rightarrow> int \<Rightarrow> string \<Rightarrow> 'r flesh" where
  "session_make_buffer on_error on_timer fails time_max buffer = Flesh_new on_error on_timer fails time_max buffer"

lemmas session_factories = session_recv_buffer_def session_recv_def session_recv_for_buffer_def session_recv_for_def
  session_make_def session_make_buffer_def

lemma session_recv_new:
  "session_recv on_error on_timer fails time_max = Inr ((Flesh_new on_error on_timer fails time_max [])\<lparr>reads := 1\<rparr>)"
  by (simp add: session_recv_def ctx_call_def recv_def doRead_def Flesh_new_def)

section \<open>Reading requests\<close>

text \<open>A handler that leaves reading to the session: it only cancels the timer, ends or closes the connection.\<close>

fun is_recv :: "ctx_call \<Rightarrow> bool" where
  "is_recv Recv = True"
| "is_recv (RecvFor _) = True"
| "is_recv _ = False"

lemma report_simps [simp]:
  "queued (report w f) = queued f" "reads (report w f) = reads f" "waits (report w f) = waits f"
  "sock_open (report w f) = sock_open f" "shut (report w f) = shut f" "expiry (report w f) = expiry f"
  "has_on_timer (report w f) = has_on_timer f"
  by (simp_all add: report_def)

text \<open>The calls of such a handler, in its own terms.\<close>

lemma control_calls:
  assumes "\<forall>c\<in>set calls. \<not> is_recv c"
  shows "\<exists>f'. fold_result (ctx_call now) calls f = Inr f' \<and> queued f' = queued f \<and> reads f' = reads f \<and>
    waits f' = waits f \<and> (sock_open f' \<longleftrightarrow> sock_open f \<and> Cls \<notin> set calls) \<and>
    (sock_open f \<longrightarrow> shut f' = shut f @ map (\<lambda>_. Shutdown_send) (filter ((=) Eof) (takeWhile ((\<noteq>) Cls) calls)))"
  using assms
proof (induction calls arbitrary: f)
  case (Cons c calls)
  have rest: "\<forall>c\<in>set calls. \<not> is_recv c" using Cons.prems by simp
  have closed: "\<exists>f'. fold_result (ctx_call now) calls g = Inr f' \<and> queued f' = queued g \<and> reads f' = reads g \<and>
      waits f' = waits g \<and> \<not> sock_open f' \<and> shut f' = shut g" if "\<not> sock_open g" for g :: "'b flesh"
    using rest that
  proof (induction calls arbitrary: g)
    case (Cons d ds)
    then have "\<exists>g'. ctx_call now d g = Inr g' \<and> queued g' = queued g \<and> reads g' = reads g \<and> waits g' = waits g \<and>
        \<not> sock_open g' \<and> shut g' = shut g"
      by (cases d) (auto simp: ctx_call_def timerCancel_def flesh_eof_def flesh_cls_def doEof_def doCls_def)
    then obtain g' where "ctx_call now d g = Inr g'" "queued g' = queued g" "reads g' = reads g" "waits g' = waits g"
        "\<not> sock_open g'" "shut g' = shut g" by blast
    then show ?case using Cons.IH [of g'] Cons.prems(1) by auto
  qed simp
  show ?case
  proof (cases c)
    case (CancelTimer ec)
    then show ?thesis using Cons.IH [OF rest, of "timerCancel ec f"]
      by (auto simp: ctx_call_simps timerCancel_def split: if_splits)
  next
    case Eof
    then show ?thesis using Cons.IH [OF rest, of "flesh_eof f"]
      by (auto simp: ctx_call_simps flesh_eof_def doEof_def connection_shutdown_def split: if_splits)
  next
    case Cls
    then have "\<not> sock_open (flesh_cls f)" "shut (flesh_cls f) = shut f" "queued (flesh_cls f) = queued f"
        "reads (flesh_cls f) = reads f" "waits (flesh_cls f) = waits f"
      by (simp_all add: flesh_cls_def doCls_def connection_close_def)
    then show ?thesis using closed [of "flesh_cls f"] Cls by (auto simp: ctx_call_simps)
  qed (use Cons.prems in simp_all)
qed simp

text \<open>
  The requests a session handles, of those that arrive: up to the first read that fails or the first
  request a handler of which closes the connection.
\<close>

fun handled :: "(verb \<times> string \<Rightarrow> bool) \<Rightarrow> session_event list \<Rightarrow> (verb \<times> string) list" where
  "handled closes [] = []"
| "handled closes (ReadDone now None # evs) = []"
| "handled closes (ReadDone now (Some req) # evs) = req # (if closes req then [] else handled closes evs)"
| "handled closes (TimerDone now calls err # evs) = handled closes evs"

lemma session_ended: "reads f = 0 \<Longrightarrow> waits f = 0 \<Longrightarrow> fold_result (session_event app) evs f = Inr f"
proof (induction evs)
  case (Cons ev evs)
  then show ?case by (cases ev) (simp_all add: session_event_def read_done_def timer_done_def)
qed simp

text \<open>One request, whose handlers close the connection if \<open>closes\<close>.\<close>

lemma request_done:
  assumes "app m t = Inr (calls, r)" and "\<forall>c\<in>set calls. \<not> is_recv c"
    and f: "reads f = 1" "waits f = 0" "sock_open f" "queued f = []"
  shows "\<exists>f' n. session_event app (ReadDone now (Some (m, t))) f = Inr f' \<and> queued f' = [] \<and> waits f' = 0 \<and>
    (sock_open f' \<longleftrightarrow> Cls \<notin> set calls) \<and> reads f' = (if Cls \<in> set calls then 0 else 1) \<and>
    shut f' = shut f @ replicate n Shutdown_send \<and> (Cls \<notin> set calls \<longrightarrow> (0 < n \<longleftrightarrow> Eof \<in> set calls))"
proof -
  let ?f = "f\<lparr>reads := 0\<rparr>"
  obtain g where g: "fold_result (ctx_call now) calls ?f = Inr g" "queued g = []" "reads g = 0" "waits g = 0"
      "sock_open g \<longleftrightarrow> Cls \<notin> set calls"
      "shut g = shut f @ map (\<lambda>_. Shutdown_send) (filter ((=) Eof) (takeWhile ((\<noteq>) Cls) calls))"
    using control_calls [OF assms(2), of now ?f] f by auto
  let ?n = "length (filter ((=) Eof) (takeWhile ((\<noteq>) Cls) calls))"
  have n: "shut g = shut f @ replicate ?n Shutdown_send" using g(6) by (simp add: map_replicate_const)
  have pos: "0 < ?n \<longleftrightarrow> Eof \<in> set calls" if "Cls \<notin> set calls"
  proof -
    have "takeWhile ((\<noteq>) Cls) calls = calls" using that by (auto simp: takeWhile_eq_all_conv)
    then show ?thesis by (simp only:) (auto simp: filter_empty_conv)
  qed
  let ?r = "if Cls \<in> set calls then g else g\<lparr>reads := 1\<rparr>"
  have "session_event app (ReadDone now (Some (m, t))) f = Inr ?r"
    using assms(1) f(1) g by (simp add: session_event_def read_done_def doProcessRequest_def is_full_def queue_limit_def
      recv_def doRead_def)
  then show ?thesis using g n pos by (intro exI [of _ ?r] exI [of _ ?n]) simp
qed

text \<open>
  A session behind an application whose handlers leave reading to it never fails, reads one request
  at a time, and stops at the end of the requests it handles.
\<close>

lemma session_reads:
  assumes app: "\<And>m t. \<exists>calls r. app m t = Inr (calls, r) \<and> (\<forall>c\<in>set calls. \<not> is_recv c) \<and>
      (Cls \<in> set calls \<longleftrightarrow> closes (m, t)) \<and> (Eof \<in> set calls \<longleftrightarrow> ends (m, t))"
    and f: "reads f = 1" "waits f = 0" "sock_open f" "queued f = []"
  shows "\<exists>f' n. fold_result (session_event app) evs f = Inr f' \<and> queued f' = [] \<and>
    (sock_open f' \<longleftrightarrow> (\<forall>req\<in>set (handled closes evs). \<not> closes req)) \<and>
    reads f' = (if sock_open f' \<and> (\<forall>now. ReadDone now None \<notin> set evs) then 1 else 0) \<and>
    shut f' = shut f @ replicate n Shutdown_send \<and>
    (sock_open f' \<longrightarrow> (0 < n \<longleftrightarrow> (\<exists>req\<in>set (handled closes evs). ends req)))"
  using f
proof (induction evs arbitrary: f)
  case Nil
  then show ?case by (auto intro!: exI [of _ 0])
next
  case (Cons ev evs)
  show ?case
  proof (cases ev)
    case (TimerDone now calls err)
    then have "session_event app ev f = Inr f" using Cons.prems by (simp add: session_event_def timer_done_def)
    then show ?thesis using Cons.IH [OF Cons.prems] TimerDone by simp
  next
    case (ReadDone now req)
    show ?thesis
    proof (cases req)
      case None
      let ?f = "report ''async_read/on_read'' (f\<lparr>reads := 0\<rparr>)"
      have "session_event app ev f = Inr ?f" using Cons.prems ReadDone None by (simp add: session_event_def read_done_def)
      moreover have "fold_result (session_event app) evs ?f = Inr ?f"
        using Cons.prems by (intro session_ended) simp_all
      ultimately show ?thesis using Cons.prems ReadDone None by (intro exI [of _ ?f] exI [of _ 0]) auto
    next
      case (Some mt)
      obtain m t where mt: "mt = (m, t)" by (cases mt)
      obtain calls r where c: "app m t = Inr (calls, r)" "\<forall>c\<in>set calls. \<not> is_recv c"
          "Cls \<in> set calls \<longleftrightarrow> closes (m, t)" "Eof \<in> set calls \<longleftrightarrow> ends (m, t)"
        using app [of m t] by blast
      obtain g n where g: "session_event app ev f = Inr g" "queued g = []" "waits g = 0"
          "sock_open g \<longleftrightarrow> \<not> closes mt" "reads g = (if closes mt then 0 else 1)"
          "shut g = shut f @ replicate n Shutdown_send" "\<not> closes mt \<longrightarrow> (0 < n \<longleftrightarrow> ends mt)"
        using request_done [of app m t calls r f now, OF c(1,2) Cons.prems] c(3,4) ReadDone Some mt by auto
      show ?thesis
      proof (cases "closes mt")
        case True
        have "fold_result (session_event app) evs g = Inr g" using g True by (intro session_ended) simp_all
        then show ?thesis using g True ReadDone Some by (intro exI [of _ g] exI [of _ n]) simp
      next
        case False
        have "reads g = 1" "waits g = 0" "sock_open g" "queued g = []" using g False by simp_all
        from Cons.IH [OF this] obtain f' k where "fold_result (session_event app) evs g = Inr f'" "queued f' = []"
            "sock_open f' \<longleftrightarrow> (\<forall>req\<in>set (handled closes evs). \<not> closes req)"
            "reads f' = (if sock_open f' \<and> (\<forall>now. ReadDone now None \<notin> set evs) then 1 else 0)"
            "shut f' = shut g @ replicate k Shutdown_send"
            "sock_open f' \<longrightarrow> (0 < k \<longleftrightarrow> (\<exists>req\<in>set (handled closes evs). ends req))"
          by blast
        then show ?thesis using g False ReadDone Some
          by (intro exI [of _ f'] exI [of _ "n + k"]) (auto simp: replicate_add)
      qed
    qed
  qed
qed

text \<open>
  the session's timer.  A wait that ends after the deadline calls the timer handler, or
  without one shuts an open connection down and closes it; before the deadline, cancelled, or with an
  error, it closes nothing.
\<close>

theorem onTimer_closes:
  assumes "onTimer now [] err f = Inr f'"
  shows "(sock_open f' \<longleftrightarrow> sock_open f \<and> (err = Timer_Error \<or> now < expiry f \<or> has_on_timer f)) \<and>
    shut f' = (if sock_open f \<and> \<not> sock_open f' then shut f @ [Shutdown_both] else shut f)"
  using assms by (auto simp: onTimer_def Let_def connection_shutdown_def connection_close_def report_def split: if_splits)

definition reading_session :: "unit flesh" where
  "reading_session = (Flesh_new True False False 9 [])\<lparr>reads := 1\<rparr>"

theorem onTimer_closes_witness:
  "let f = reading_session; f' = f\<lparr>sock_open := False, shut := [Shutdown_both]\<rparr> in
     (sock_open f' \<longleftrightarrow> sock_open f \<and> (Timer_Ok = Timer_Error \<or> 10 < expiry f \<or> has_on_timer f)) \<and>
     shut f' = (if sock_open f \<and> \<not> sock_open f' then shut f @ [Shutdown_both] else shut f)"
  unfolding Let_def
  by (rule onTimer_closes [of 10 Timer_Ok])
     (simp add: onTimer_def reading_session_def Flesh_new_def connection_shutdown_def connection_close_def)

section \<open>HttpServer\<close>

text \<open>
  \<open>posted\<close> are the accepted sockets (or errors) posted to the executor, \<open>acting\<close> the sockets whose
  task has called the action callback and comes to \<open>onAccept\<close> next, \<open>actions\<close> the sockets given
  to \<open>onActionCallback_\<close>, \<open>sessions\<close> those whose session was started by \<open>recv\<close>, \<open>accepts\<close> the
  \<open>async_accept\<close> operations pending.
\<close>

record http_server =
  http_started :: bool
  accept_ops :: nat
  posted :: "nat option list"
  acting :: "nat list"
  actions :: "nat list"
  sessions :: "nat list"
  http_errors :: "string list"
  endpoint_set :: bool
  errors_set :: bool

text \<open>The two constructors: \<open>onErrorCallback_\<close> is empty, or given.\<close>

definition HttpServer_new :: http_server where
  "HttpServer_new = \<lparr>http_started = False, accept_ops = 0, posted = [], acting = [], actions = [], sessions = [],
     http_errors = [], endpoint_set = False, errors_set = False\<rparr>"

definition HttpServer_new_errors :: http_server where
  "HttpServer_new_errors = \<lparr>http_started = False, accept_ops = 0, posted = [], acting = [], actions = [], sessions = [],
     http_errors = [], endpoint_set = False, errors_set = True\<rparr>"

definition http_error :: "string \<Rightarrow> http_server \<Rightarrow> http_server" where
  "http_error what s = (if errors_set s then s\<lparr>http_errors := http_errors s @ [what]\<rparr> else s)"

definition doAccept :: "http_server \<Rightarrow> http_server" where
  "doAccept s = s\<lparr>accept_ops := accept_ops s + 1\<rparr>"

text \<open>Which of the acceptor's calls report an error.\<close>

record acceptor_errors =
  open_fails :: bool
  set_option_fails :: bool
  bind_fails :: bool
  listen_fails :: bool

definition http_loop :: "acceptor_errors \<Rightarrow> http_server \<Rightarrow> http_server" where
  "http_loop e s =
     (if open_fails e then http_error ''acceptor open error'' s
      else if set_option_fails e then http_error ''acceptor set_option error'' s
      else if bind_fails e then http_error ''acceptor bind error'' s
      else if listen_fails e then http_error ''acceptor listen error'' s
      else doAccept (s\<lparr>endpoint_set := True\<rparr>))"

definition http_start :: "acceptor_errors \<Rightarrow> http_server \<Rightarrow> http_server" where
  "http_start e s = (if \<not> http_started s then http_loop e (s\<lparr>http_started := True\<rparr>) else s)"

text \<open>
  \<open>connected\<close>: the peer has not reset the connection when the log asks for its address, else
  \<open>remote_endpoint\<close> throws, in a thread that only runs the executor, and the program is terminated.
\<close>

definition onAccept :: "bool \<Rightarrow> nat \<Rightarrow> http_server \<Rightarrow> http_server result" where
  "onAccept connected socket s =
     (if \<not> connected then Inl Runtime_Error else Inr (s\<lparr>sessions := sessions s @ [socket]\<rparr>))"

definition http_accepted :: "nat option \<Rightarrow> http_server \<Rightarrow> http_server" where
  "http_accepted socket s = (if accept_ops s = 0 then s
     else doAccept (s\<lparr>accept_ops := accept_ops s - 1, posted := posted s @ [socket]\<rparr>))"

text \<open>
  The task posted for an accepted socket, in two steps, since several threads may be running such
  tasks: the action callback, then \<open>onAccept\<close>.  Which of the posted tasks, or of those running, is
  the next to go on is arbitrary.
\<close>

definition without_nth :: "nat \<Rightarrow> 'a list \<Rightarrow> 'a list" where
  "without_nth i xs = take i xs @ drop (Suc i) xs"

definition http_run_posted :: "nat \<Rightarrow> http_server \<Rightarrow> http_server" where
  "http_run_posted i s = (if i < length (posted s) then
     (let s' = s\<lparr>posted := without_nth i (posted s)\<rparr> in
      case posted s ! i of
        None \<Rightarrow> http_error ''accept/do_loop'' s'
      | Some sock \<Rightarrow> s'\<lparr>actions := actions s' @ [sock], acting := acting s' @ [sock]\<rparr>) else s)"

definition http_run_accept :: "nat \<Rightarrow> bool \<Rightarrow> http_server \<Rightarrow> http_server result" where
  "http_run_accept i connected s = (if i < length (acting s)
     then onAccept connected (acting s ! i) (s\<lparr>acting := without_nth i (acting s)\<rparr>) else Inr s)"

datatype http_event =
  HttpStart acceptor_errors | HttpAccepted "nat option" | HttpRunPosted nat | HttpRunAccept nat bool

definition http_event :: "http_event \<Rightarrow> http_server \<Rightarrow> http_server result" where
  "http_event ev s = (case ev of
     HttpStart e \<Rightarrow> Inr (http_start e s)
   | HttpAccepted socket \<Rightarrow> Inr (http_accepted socket s)
   | HttpRunPosted i \<Rightarrow> Inr (http_run_posted i s)
   | HttpRunAccept i connected \<Rightarrow> http_run_accept i connected s)"

fun sockets_of :: "nat option list \<Rightarrow> nat list" where
  "sockets_of [] = []"
| "sockets_of (None # xs) = sockets_of xs"
| "sockets_of (Some x # xs) = x # sockets_of xs"

definition accepted_by :: "http_event list \<Rightarrow> nat option list" where
  "accepted_by evs = concat (map (\<lambda>ev. case ev of HttpAccepted socket \<Rightarrow> [socket] | _ \<Rightarrow> []) evs)"

lemma sockets_of_append [simp]: "sockets_of (xs @ ys) = sockets_of xs @ sockets_of ys"
  by (induction xs rule: sockets_of.induct) simp_all

lemma split_nth: "i < length xs \<Longrightarrow> xs = take i xs @ xs ! i # drop (Suc i) xs"
  by (simp add: Cons_nth_drop_Suc)

lemma mset_without_nth: "i < length xs \<Longrightarrow> mset xs = add_mset (xs ! i) (mset (without_nth i xs))"
  by (subst split_nth) (simp_all add: without_nth_def)

lemma sockets_without_nth:
  assumes "i < length xs"
  shows "mset (sockets_of xs) = mset (sockets_of (without_nth i xs)) +
    (case xs ! i of None \<Rightarrow> {#} | Some x \<Rightarrow> {#x#})"
proof -
  have "mset (sockets_of xs) = mset (sockets_of (take i xs)) + mset (sockets_of (xs ! i # drop (Suc i) xs))"
    using split_nth [OF assms] by (metis mset_append sockets_of_append)
  then show ?thesis by (cases "xs ! i") (simp_all add: without_nth_def)
qed

definition http_ok :: "nat option list \<Rightarrow> http_server \<Rightarrow> bool" where
  "http_ok arrived s \<longleftrightarrow> accept_ops s = 1 \<and> http_started s \<and> mset (actions s) = mset (sessions s) + mset (acting s) \<and>
     mset (actions s) + mset (sockets_of (posted s)) = mset (sockets_of arrived)"

text \<open>The step that ends the program: the peer of the socket that gets its session has gone.\<close>

definition peer_gone :: "http_event \<Rightarrow> http_server \<Rightarrow> bool" where
  "peer_gone ev s \<longleftrightarrow> (\<exists>i. ev = HttpRunAccept i False \<and> i < length (acting s))"

lemma http_event_ok:
  assumes "http_ok arrived s"
  shows "case http_event ev s of Inl x \<Rightarrow> x = Runtime_Error \<and> peer_gone ev s
    | Inr s' \<Rightarrow> http_ok (arrived @ accepted_by [ev]) s'"
proof (cases ev)
  case (HttpRunPosted i)
  show ?thesis
  proof (cases "i < length (posted s)")
    case True
    from sockets_without_nth [OF this] show ?thesis using assms HttpRunPosted True
      by (cases "posted s ! i")
        (auto simp: http_event_def http_run_posted_def http_error_def http_ok_def accepted_by_def Let_def)
  qed (use assms HttpRunPosted in \<open>simp add: http_event_def http_run_posted_def accepted_by_def\<close>)
next
  case (HttpRunAccept i connected)
  show ?thesis
  proof (cases "i < length (acting s)")
    case True
    from mset_without_nth [OF this] show ?thesis using assms HttpRunAccept True
      by (cases connected)
        (auto simp: http_event_def http_run_accept_def onAccept_def http_ok_def accepted_by_def peer_gone_def)
  qed (use assms HttpRunAccept in \<open>simp add: http_event_def http_run_accept_def accepted_by_def\<close>)
qed (use assms in \<open>auto simp: http_event_def http_start_def http_accepted_def doAccept_def http_ok_def accepted_by_def
  add.assoc [symmetric] split: option.split\<close>)

lemma http_events_ok:
  assumes "http_ok arrived s"
  shows "case fold_result http_event evs s of
      Inl x \<Rightarrow> x = Runtime_Error \<and> (\<exists>es ev rest s'. evs = es @ ev # rest \<and>
        fold_result http_event es s = Inr s' \<and> peer_gone ev s')
    | Inr s' \<Rightarrow> http_ok (arrived @ accepted_by evs) s'"
  using assms
proof (induction evs arbitrary: arrived s)
  case Nil
  then show ?case by (simp add: accepted_by_def)
next
  case (Cons ev evs)
  note step = http_event_ok [OF Cons.prems, of ev]
  show ?case
  proof (cases "http_event ev s")
    case (Inl x)
    then have "x = Runtime_Error" "peer_gone ev s" using step by simp_all
    moreover have "\<exists>es ev' rest s'. ev # evs = es @ ev' # rest \<and> fold_result http_event es s = Inr s' \<and> peer_gone ev' s'"
      by (rule exI [of _ "[]"]) (use \<open>peer_gone ev s\<close> in auto)
    ultimately show ?thesis using Inl by simp
  next
    case (Inr s1)
    note IH = Cons.IH [of "arrived @ accepted_by [ev]" s1]
    show ?thesis
    proof (cases "fold_result http_event evs s1")
      case Inr2: (Inr s2)
      then show ?thesis using IH step Inr by (simp add: accepted_by_def)
    next
      case (Inl x)
      have "\<exists>es ev' rest s'. ev # evs = es @ ev' # rest \<and> fold_result http_event es s = Inr s' \<and> peer_gone ev' s'"
        if "evs = es @ ev' # rest" "fold_result http_event es s1 = Inr s'" "peer_gone ev' s'" for es ev' rest s'
        by (intro exI [of _ "ev # es"] exI [of _ ev'] exI [of _ rest] exI [of _ s']) (use that Inr in simp)
      then show ?thesis using IH step Inr Inl by auto
    qed
  qed
qed

text \<open>
  C38: the HTTP server starts once and serves every socket once.  When \<open>open\<close>,
  \<open>set_option\<close>, \<open>bind\<close> and \<open>listen\<close> succeed, there is always one accept pending, whatever the
  order in which the threads run the tasks posted for the accepted sockets: every socket accepted is
  in one of those tasks, between its action callback and its session, or has got one session, each
  after one call of the action callback; failed accepts lose none.  The one thing that ends the
  program is a peer that has reset its connection before the server logs its address.
\<close>

theorem http_server_serves:
  assumes "\<not> open_fails e" and "\<not> set_option_fails e" and "\<not> bind_fails e" and "\<not> listen_fails e"
    and "s0 \<in> {HttpServer_new, HttpServer_new_errors}"
  shows "case fold_result http_event evs (http_start e s0) of
      Inl x \<Rightarrow> x = Runtime_Error \<and> (\<exists>es i rest s. evs = es @ HttpRunAccept i False # rest \<and>
        fold_result http_event es (http_start e s0) = Inr s \<and> i < length (acting s))
    | Inr s \<Rightarrow> accept_ops s = 1 \<and> mset (actions s) = mset (sessions s) + mset (acting s) \<and>
        mset (sessions s) + mset (acting s) + mset (sockets_of (posted s)) = mset (sockets_of (accepted_by evs))"
proof -
  have "http_ok [] (http_start e s0)"
    using assms by (auto simp: http_start_def http_loop_def HttpServer_new_def HttpServer_new_errors_def doAccept_def http_ok_def)
  from http_events_ok [OF this, of evs] show ?thesis
    by (cases "fold_result http_event evs (http_start e s0)") (auto simp: http_ok_def peer_gone_def)
qed

definition some_accepts :: "http_event list" where
  "some_accepts = [HttpAccepted (Some 4), HttpAccepted None, HttpAccepted (Some 5), HttpRunPosted 2, HttpRunPosted 0,
     HttpRunAccept 1 True]"

definition no_acceptor_errors :: acceptor_errors where
  "no_acceptor_errors = \<lparr>open_fails = False, set_option_fails = False, bind_fails = False, listen_fails = False\<rparr>"

theorem http_server_serves_witness:
  "case fold_result http_event some_accepts (http_start no_acceptor_errors HttpServer_new) of
      Inl x \<Rightarrow> x = Runtime_Error \<and> (\<exists>es i rest s. some_accepts = es @ HttpRunAccept i False # rest \<and>
        fold_result http_event es (http_start no_acceptor_errors HttpServer_new) = Inr s \<and> i < length (acting s))
    | Inr s \<Rightarrow> accept_ops s = 1 \<and> mset (actions s) = mset (sessions s) + mset (acting s) \<and>
        mset (sessions s) + mset (acting s) + mset (sockets_of (posted s)) = mset (sockets_of (accepted_by some_accepts))"
  by (rule http_server_serves) (simp_all add: no_acceptor_errors_def)

text \<open>
  a peer that connects and resets at once ends the program: \<open>onAccept\<close> asks its socket for the
  remote address, and nothing catches the exception in a thread of the pool.
\<close>

theorem reset_peer_ends_server:
  "fold_result http_event [HttpAccepted (Some sock), HttpRunPosted 0, HttpRunAccept 0 False]
     (http_start no_acceptor_errors HttpServer_new) = Inl Runtime_Error"
  by (simp add: http_event_def http_start_def http_loop_def no_acceptor_errors_def HttpServer_new_def doAccept_def
    http_accepted_def http_run_posted_def http_run_accept_def onAccept_def without_nth_def)

end
