(* ===== verification/Http_Service.thy ===== *)
theory Http_Service
  imports Http_Session
begin

text \<open>
  A session whose requests are run by a router, as \<open>HttpServer\<close> sets it up: what a session relies
  on in the application behind it is a locale, of which the tables of a router are an instance.
\<close>

text \<open>A table of single handlers, with a list of the keys of each of its maps.\<close>

definition single_routes :: "('e resources \<Rightarrow> string list) \<Rightarrow> 'e router \<Rightarrow> bool" where
  "single_routes keys rt \<longleftrightarrow> (\<forall>m k st. route rt m k = Some st \<longrightarrow> (\<exists>f. st = [Final f])) \<and>
     (\<forall>mm m rm. method_map rt = Some mm \<longrightarrow> mm m = Some rm \<longrightarrow> lists_keys keys rm)"

text \<open>
  \<open>route_makes rt matches c (m, t)\<close>: of the routes of method \<open>m\<close> one matches the target \<open>t\<close>
  and its handler makes the call \<open>c\<close>.
\<close>

definition route_makes :: "'e router \<Rightarrow> (string \<Rightarrow> string \<Rightarrow> bool) \<Rightarrow> 'e \<Rightarrow> verb \<times> string \<Rightarrow> bool" where
  "route_makes rt matches c req \<longleftrightarrow>
     (\<exists>k g. route rt (fst req) k = Some [Final g] \<and> matches k (snd req) \<and> c \<in> set (g (snd req)))"

text \<open>Handlers that leave reading to the session.\<close>

definition routes_leave_reading :: "ctx_call router \<Rightarrow> bool" where
  "routes_leave_reading rt \<longleftrightarrow> (\<forall>m k g t. route rt m k = Some [Final g] \<longrightarrow> (\<forall>c\<in>set (g t). \<not> is_recv c))"

lemma provide_makes:
  assumes "single_routes keys rt" and "0 < depth"
  shows "\<exists>calls req. provide matches keys depth rt m t = Inr (calls, req) \<and>
    (\<forall>c. c \<in> set calls \<longleftrightarrow> route_makes rt matches c (m, t))"
proof -
  obtain ks es req where p: "provide matches keys depth rt m t = Inr (es, req)"
      "set ks = {k. route rt m k \<noteq> None \<and> matches k t}"
      "es = concat (map (\<lambda>k. case route rt m k of Some [Final f] \<Rightarrow> f t | _ \<Rightarrow> []) ks)"
    using provide_single [of rt m depth keys matches t] assms unfolding single_routes_def by auto
  have "c \<in> set es \<longleftrightarrow> route_makes rt matches c (m, t)" for c
  proof
    assume "c \<in> set es"
    then obtain k where k: "k \<in> set ks" "c \<in> set (case route rt m k of Some [Final f] \<Rightarrow> f t | _ \<Rightarrow> [])"
      unfolding p(3) by auto
    then obtain f where "route rt m k = Some [Final f]" "matches k t"
      using assms(1) p(2) unfolding single_routes_def by blast
    then show "route_makes rt matches c (m, t)" using k(2) by (auto simp: route_makes_def)
  next
    assume "route_makes rt matches c (m, t)"
    then obtain k g where "route rt m k = Some [Final g]" "matches k t" "c \<in> set (g t)"
      by (auto simp: route_makes_def)
    moreover have "k \<in> set ks" unfolding p(2) using calculation(1,2) by simp
    ultimately show "c \<in> set es" unfolding p(3) by force
  qed
  then show ?thesis using p(1) by blast
qed

section \<open>Requests on one connection\<close>

text \<open>
  What a session relies on in the application behind it: a configuration that is \<open>ok\<close> runs every
  request without fault, leaves reading to the session, and \<open>makes\<close> says which calls it makes.
\<close>

locale request_app =
  fixes ok :: "'cfg \<Rightarrow> bool"
    and run_app :: "'cfg \<Rightarrow> verb \<Rightarrow> string \<Rightarrow> (ctx_call list \<times> request) result"
    and makes :: "'cfg \<Rightarrow> ctx_call \<Rightarrow> verb \<times> string \<Rightarrow> bool"
  assumes app_law: "ok cfg \<Longrightarrow> \<exists>calls req. run_app cfg m t = Inr (calls, req) \<and>
      (\<forall>c\<in>set calls. \<not> is_recv c) \<and> (\<forall>c. c \<in> set calls \<longleftrightarrow> makes cfg c (m, t))"
begin

lemma session_serves:
  assumes "ok cfg"
  shows "\<exists>f n. and_then (session_recv on_error on_timer fails time_max)
      (fold_result (session_event (run_app cfg)) evs) = Inr f \<and> queued f = [] \<and>
    (sock_open f \<longleftrightarrow> (\<forall>req\<in>set (handled (makes cfg Cls) evs). \<not> makes cfg Cls req)) \<and>
    reads f = (if sock_open f \<and> (\<forall>now. ReadDone now None \<notin> set evs) then 1 else 0) \<and>
    shut f = replicate n Shutdown_send \<and>
    (sock_open f \<longrightarrow> (0 < n \<longleftrightarrow> (\<exists>req\<in>set (handled (makes cfg Cls) evs). makes cfg Eof req)))"
proof -
  have app: "\<exists>calls r. run_app cfg m t = Inr (calls, r) \<and> (\<forall>c\<in>set calls. \<not> is_recv c) \<and>
      (Cls \<in> set calls \<longleftrightarrow> makes cfg Cls (m, t)) \<and> (Eof \<in> set calls \<longleftrightarrow> makes cfg Eof (m, t))" for m t
    using app_law [OF assms, of m t] by blast
  let ?f = "(Flesh_new on_error on_timer fails time_max [])\<lparr>reads := 1\<rparr>"
  have f: "reads ?f = 1" "waits ?f = 0" "sock_open ?f" "queued ?f = []" "shut ?f = []" by (simp_all add: Flesh_new_def)
  from session_reads [where app = "run_app cfg" and closes = "makes cfg Cls" and ends = "makes cfg Eof" and evs = evs,
    OF app f(1-4)]
  show ?thesis unfolding session_recv_new and_then_Inr f(5) append_Nil .
qed

end

text \<open>The router is such an application; its configuration is the table, the iteration order and the stack.\<close>

interpretation routed: request_app
  "\<lambda>(rt, matches, keys, depth). single_routes keys rt \<and> 0 < depth \<and> routes_leave_reading rt"
  "\<lambda>(rt, matches, keys, depth). provide matches keys depth rt"
  "\<lambda>(rt, matches, keys, depth). route_makes rt matches"
proof
  fix cfg :: "ctx_call router \<times> (string \<Rightarrow> string \<Rightarrow> bool) \<times> (ctx_call resources \<Rightarrow> string list) \<times> nat" and m t
  obtain rt matches keys depth where cfg: "cfg = (rt, matches, keys, depth)" by (cases cfg)
  assume "case cfg of (rt, matches, keys, depth) \<Rightarrow> single_routes keys rt \<and> 0 < depth \<and> routes_leave_reading rt"
  then have ok: "single_routes keys rt" "0 < depth" "routes_leave_reading rt" by (simp_all add: cfg)
  obtain calls req where p: "provide matches keys depth rt m t = Inr (calls, req)"
      "\<forall>c. c \<in> set calls \<longleftrightarrow> route_makes rt matches c (m, t)"
    using provide_makes [OF ok(1,2)] by blast
  have "\<not> is_recv c" if "c \<in> set calls" for c
    using that p(2) ok(3) unfolding routes_leave_reading_def route_makes_def by fastforce
  then show "\<exists>calls req. (case cfg of (rt, matches, keys, depth) \<Rightarrow> provide matches keys depth rt) m t = Inr (calls, req) \<and>
      (\<forall>c\<in>set calls. \<not> is_recv c) \<and>
      (\<forall>c. c \<in> set calls \<longleftrightarrow> (case cfg of (rt, matches, keys, depth) \<Rightarrow> route_makes rt matches) c (m, t))"
    using p by (simp add: cfg)
qed

text \<open>
  C17: a session reads on behind a router.  With a router of single handlers that leave reading to
  the session, whatever requests arrive, reads fail and timer waits are reported, the session started
  by \<open>recv\<close> never fails: no parser is replaced under a pending read, and nothing is queued to be
  sent.  The connection is closed exactly when one of the requests handled matches a route whose
  handler closes it; as long as it is open and no read has failed exactly one read is pending,
  otherwise none; nothing but its sending side is ever shut down, on a connection still open exactly
  when a handler of a handled request has called \<open>eof\<close>.
\<close>

theorem session_reads_on:
  assumes "single_routes keys rt" and "0 < depth" and "routes_leave_reading rt"
  shows "\<exists>f n. and_then (session_recv on_error on_timer fails time_max)
      (fold_result (session_event (provide matches keys depth rt)) evs) = Inr f \<and> queued f = [] \<and>
    (sock_open f \<longleftrightarrow> (\<forall>req\<in>set (handled (route_makes rt matches Cls) evs). \<not> route_makes rt matches Cls req)) \<and>
    reads f = (if sock_open f \<and> (\<forall>now. ReadDone now None \<notin> set evs) then 1 else 0) \<and>
    shut f = replicate n Shutdown_send \<and>
    (sock_open f \<longrightarrow> (0 < n \<longleftrightarrow> (\<exists>req\<in>set (handled (route_makes rt matches Cls) evs). route_makes rt matches Eof req)))"
  by (rule routed.session_serves [of "(rt, matches, keys, depth)", unfolded prod.case]) (use assms in simp)

definition closing_router :: "ctx_call router" where
  "closing_router = \<lparr>resource_map = None,
     method_map = Some [Verb_get \<mapsto> [''/a'' \<mapsto> [Final (\<lambda>t. [CancelTimer False])], ''/b'' \<mapsto> [Final (\<lambda>t. [Cls])]]]\<rparr>"

theorem session_reads_on_witness:
  "\<exists>f :: unit flesh. and_then (session_recv True False False 0)
      (fold_result (session_event (provide (=) (\<lambda>_. [''/a'', ''/b'']) 1 closing_router))
        [ReadDone 1 (Some (Verb_get, ''/a'')), ReadDone 2 (Some (Verb_get, ''/b'')), ReadDone 3 None]) = Inr f \<and>
    queued f = [] \<and> \<not> sock_open f \<and> reads f = 0"
proof -
  have route: "route closing_router m k = (if m = Verb_get \<and> k = ''/a'' then Some [Final (\<lambda>t. [CancelTimer False])]
      else if m = Verb_get \<and> k = ''/b'' then Some [Final (\<lambda>t. [Cls])] else None)" for m k
    by (simp add: route_def closing_router_def)
  have ok: "single_routes (\<lambda>_. [''/a'', ''/b'']) closing_router" "routes_leave_reading closing_router"
    unfolding single_routes_def routes_leave_reading_def route
    by (auto simp: lists_keys_def closing_router_def split: if_splits)
  have "route_makes closing_router (=) Cls = (\<lambda>req. req = (Verb_get, ''/b''))"
    by (auto simp: route_makes_def route fun_eq_iff split: if_splits)
  then show ?thesis
    using session_reads_on [OF ok(1) _ ok(2), of 1 True False False 0 "(=)"
      "[ReadDone 1 (Some (Verb_get, ''/a'')), ReadDone 2 (Some (Verb_get, ''/b'')), ReadDone 3 None]"]
    by auto
qed

end
