(* ===== verification/Protobuf_Codec.thy ===== *)
theory Protobuf_Codec
  imports Buffer
begin

text \<open>
  \<open>Net/ProtobufCodec.h\<close> and \<open>Net/ProtobufCodec.cpp\<close>: frames of a length, a type name, a
  serialised message and a checksum.  The protobuf library and zlib's \<open>adler32\<close> are a
  record of functions; \<open>registered\<close> names what the code relies on for one message.  The
  receive loop has no exit for a frame that is incomplete or does not parse, so
  \<open>onMessage\<close> is a partial function whose value \<open>None\<close> is "does not return".
\<close>

section \<open>The code\<close>

text \<open>
  The library: descriptor lookup by type name, the prototype of a descriptor (a copy of which
  \<open>New()\<close> returns), \<open>ParseFromArray\<close> (its verdict is ignored by the code), the type
  name, \<open>ByteSize\<close> and the serialisation of a message, and \<open>adler32(1, data, len)\<close>.
\<close>

record ('d, 'm) protobuf =
  find_message_type :: "byte list \<Rightarrow> 'd option"
  get_prototype :: "'d \<Rightarrow> 'm option"
  parse_from_array :: "byte list \<Rightarrow> 'm \<Rightarrow> 'm"
  type_name :: "'m \<Rightarrow> byte list"
  byte_size :: "'m \<Rightarrow> int"
  serialize :: "'m \<Rightarrow> byte list"
  adler32 :: "byte list \<Rightarrow> int32"

definition Protobuf_kHeaderLen :: int where
  "Protobuf_kHeaderLen = 4"

definition Protobuf_kMinMessageLen :: int where
  "Protobuf_kMinMessageLen = 2 * Protobuf_kHeaderLen + 2"

definition Protobuf_kMaxMessageLen :: int where
  "Protobuf_kMaxMessageLen = 64 * 1024 * 1024"

definition createMessage :: "('d, 'm) protobuf \<Rightarrow> byte list \<Rightarrow> 'm option" where
  "createMessage pb typeName =
     (case find_message_type pb typeName of None \<Rightarrow> None
      | Some descriptor \<Rightarrow>
          (case get_prototype pb descriptor of None \<Rightarrow> None | Some protoType \<Rightarrow> Some protoType))"

text \<open>Four bytes read at a pointer into \<open>data\<close>, as a host integer.\<close>

definition networkToHost32 :: "byte list \<Rightarrow> int32 result" where
  "networkToHost32 data = (if length data < 4 then Inl Out_Of_Bounds else Inr (be_value32 data))"

text \<open>
  \<open>ParseFromArray\<close> reads \<open>n\<close> bytes at its pointer, here the memory \<open>data\<close> from
  there on; a negative \<open>n\<close> is the length of no array.
\<close>

definition read_array :: "int \<Rightarrow> byte list \<Rightarrow> byte list result" where
  "read_array n data = (if n < 0 \<or> length data < nat n then Inl Out_Of_Bounds else Inr (take (nat n) data))"

text \<open>\<open>static_cast<int>\<close> of a \<open>size_t\<close>, and \<open>adler32\<close>'s reading of that \<open>int\<close> as unsigned.\<close>

definition int_of_size :: "nat \<Rightarrow> int" where
  "int_of_size n = sint (word_of_nat n :: int32)"

definition uint_of_size :: "nat \<Rightarrow> nat" where
  "uint_of_size n = unat (word_of_nat n :: int32)"

lemma size_casts: "n < 2147483648 \<Longrightarrow> int_of_size n = int n" "n < 2147483648 \<Longrightarrow> uint_of_size n = n"
  by (simp_all add: int_of_size_def uint_of_size_def sint_int32_of_nat unat_of_nat)

text \<open>
  \<open>data\<close> is the memory from the pointer on; a read before or past it is
  \<open>Out_Of_Bounds\<close>.  Lengths are cast to \<open>int\<close> for \<open>adler32\<close> (which takes them
  unsigned) and for \<open>ParseFromArray\<close>.  \<open>None\<close> is the null message.
\<close>

definition protobuf_parse :: "('d, 'm) protobuf \<Rightarrow> byte list \<Rightarrow> nat \<Rightarrow> 'm option result" where
  "protobuf_parse pb data len =
     (if len < 4 \<or> length data < len then Inl Out_Of_Bounds
      else and_then (networkToHost32 (drop (len - 4) data)) (\<lambda>expectedCheckSum.
        let checkSum = adler32 pb (take (uint_of_size (len - 4)) data) in
        if checkSum = expectedCheckSum then
          and_then (networkToHost32 data) (\<lambda>nameLen.
            if sint nameLen \<ge> 2 \<and> size_of_int (sint nameLen) \<le> size_sub len 8 then
              (let n = size_of_int (sint nameLen) in
               if length data < 4 + n then Inl Out_Of_Bounds
               else
                 case createMessage pb (segment 4 (4 + n - 1) data) of
                   None \<Rightarrow> Inr None
                 | Some message \<Rightarrow>
                     let dataLen = size_sub (size_sub len n) 8 in
                     and_then (read_array (int_of_size dataLen) (drop (4 + n) data)) (\<lambda>bytes.
                     Inr (Some (parse_from_array pb bytes message))))
            else Inr None)
        else Inr None))"

text \<open>One iteration of the loop of \<open>onMessage\<close>: it returns, or goes round again with a connection and a buffer.\<close>

datatype ('c, 'b) iteration = Return "('c \<times> 'b) result" | Continue 'c 'b

definition Protobuf_iteration ::
    "('d, 'm) protobuf \<Rightarrow> ('m \<Rightarrow> 'c \<Rightarrow> 'c result) \<Rightarrow> ('c \<Rightarrow> 'c result) \<Rightarrow> 'c \<Rightarrow> buffer \<Rightarrow> ('c, buffer) iteration" where
  "Protobuf_iteration pb messageCallback shutdown conn buf =
     (if \<not> readableBytes buf \<ge> size_of_int (Protobuf_kMinMessageLen + Protobuf_kHeaderLen) then Return (Inr (conn, buf))
      else case peekInt32 buf of
        Inl e \<Rightarrow> Return (Inl e)
      | Inr bodyLen \<Rightarrow>
          if sint bodyLen > Protobuf_kMaxMessageLen \<or> sint bodyLen < Protobuf_kMinMessageLen
          then Return (and_then (shutdown conn) (\<lambda>conn. Inr (conn, buf)))
          else if readableBytes buf \<ge> size_of_int (sint bodyLen + Protobuf_kHeaderLen) then
            (case protobuf_parse pb (drop (readerIndex buf + 4) (vec buf)) (size_of_int (sint bodyLen)) of
              Inl e \<Rightarrow> Return (Inl e)
            | Inr None \<Rightarrow> Continue conn buf
            | Inr (Some message) \<Rightarrow>
                (case and_then (messageCallback message conn) (\<lambda>conn1.
                    and_then (retrieve (size_of_int (sint bodyLen + Protobuf_kHeaderLen)) buf) (\<lambda>buf1. Inr (conn1, buf1))) of
                  Inl e \<Rightarrow> Return (Inl e)
                | Inr (conn1, buf1) \<Rightarrow> Continue conn1 buf1))
          else Continue conn buf)"

partial_function (option) Protobuf_onMessage ::
    "('d, 'm) protobuf \<Rightarrow> ('m \<Rightarrow> 'c \<Rightarrow> 'c result) \<Rightarrow> ('c \<Rightarrow> 'c result) \<Rightarrow> 'c \<Rightarrow> buffer \<Rightarrow> ('c \<times> buffer) result option" where
  "Protobuf_onMessage pb messageCallback shutdown conn buf =
     (case Protobuf_iteration pb messageCallback shutdown conn buf of
       Return r \<Rightarrow> Some r
     | Continue conn1 buf1 \<Rightarrow> Protobuf_onMessage pb messageCallback shutdown conn1 buf1)"

text \<open>
  \<open>send\<close>: \<open>SerializeWithCachedSizesToArray\<close> writes the serialisation at the write
  pointer; \<open>conn_send\<close> is \<open>TcpConnection::send(Buffer *)\<close>.
\<close>

definition Protobuf_send ::
    "('d, 'm) protobuf \<Rightarrow> (buffer \<Rightarrow> 'c \<Rightarrow> 'c result) \<Rightarrow> 'm \<Rightarrow> 'c \<Rightarrow> 'c result" where
  "Protobuf_send pb conn_send message conn =
     and_then (Buffer_new kInitialSize) (\<lambda>buff.
     let typeName = type_name pb message; nameLen = word_of_nat (size_add (length typeName) 1) :: int32 in
     and_then (appendInt32 nameLen buff) (\<lambda>buff.
     and_then (append_data (typeName @ [0]) (size_of_int (sint nameLen)) buff) (\<lambda>buff.
     let byteSize = byte_size pb message in
     and_then (ensureWritableBytes (size_of_int byteSize) buff) (\<lambda>buff.
     and_then (store_bytes (writerIndex buff) (serialize pb message) buff) (\<lambda>buff.
     if int (length (serialize pb message)) \<noteq> byteSize then Inl Fatal_Log
     else and_then (hasWritten (size_of_int byteSize) buff) (\<lambda>buff.
     and_then (peek_bytes (readableBytes buff) buff) (\<lambda>bytes.
     and_then (appendInt32 (adler32 pb bytes) buff) (\<lambda>buff.
     if readableBytes buff \<noteq> size_add (size_add (size_add 4 (size_of_int (sint nameLen))) (size_of_int byteSize)) 4
     then Inl Assert_Failed
     else and_then (prepend (be_bytes32 (word_of_nat (readableBytes buff))) 4 buff) (\<lambda>buff.
       conn_send buff conn)))))))))"

section \<open>The encoding\<close>

definition protobuf_payload :: "('d, 'm) protobuf \<Rightarrow> 'm \<Rightarrow> byte list" where
  "protobuf_payload pb m =
     be_bytes32 (word_of_nat (length (type_name pb m) + 1)) @ type_name pb m @ [0] @ serialize pb m"

definition protobuf_frame :: "('d, 'm) protobuf \<Rightarrow> 'm \<Rightarrow> byte list" where
  "protobuf_frame pb m =
     be_bytes32 (word_of_nat (length (protobuf_payload pb m) + 4)) @ protobuf_payload pb m @
     be_bytes32 (adler32 pb (protobuf_payload pb m))"

text \<open>
  What the library documents for a message of a linked-in type: the type's name is not empty
  and is found, its prototype exists, \<open>ByteSize\<close> is the length of the serialisation, and
  parsing the serialisation into a new message gives the message back.  The frame is within
  the codec's limit.
\<close>

definition registered :: "('d, 'm) protobuf \<Rightarrow> 'm \<Rightarrow> bool" where
  "registered pb m \<longleftrightarrow>
     type_name pb m \<noteq> [] \<and> byte_size pb m = int (length (serialize pb m)) \<and>
     (case find_message_type pb (type_name pb m) of None \<Rightarrow> False
      | Some d \<Rightarrow> (case get_prototype pb d of None \<Rightarrow> False
          | Some p \<Rightarrow> parse_from_array pb (serialize pb m) p = m)) \<and>
     int (length (protobuf_payload pb m)) + 4 \<le> Protobuf_kMaxMessageLen"

lemma length_payload: "length (protobuf_payload pb m) = 5 + length (type_name pb m) + length (serialize pb m)"
  by (simp add: protobuf_payload_def)

lemma length_frame: "length (protobuf_frame pb m) = length (protobuf_payload pb m) + 8"
  by (simp add: protobuf_frame_def)

lemma parse_layout:
  assumes data: "data = be_bytes32 (word_of_nat k) @ name @ [0] @ ser @ be_bytes32 chk @ r"
    and chk: "chk = adler32 pb (be_bytes32 (word_of_nat k) @ name @ [0] @ ser)"
    and k: "length name + 1 = k" "2 \<le> k" "k < 2147483648"
    and len: "len = 4 + k + length ser + 4" "len < 2147483648"
  shows "protobuf_parse pb data len =
    Inr (map_option (parse_from_array pb ser) (createMessage pb name))"
proof -
  have n: "size_of_int (int k) = k" "sint (word_of_nat k :: int32) = int k"
    using k sint_int32_of_nat [of k] by (simp_all add: size_of_int_nonneg)
  have sub: "size_sub len 8 = k + length ser" "size_sub (size_sub len k) 8 = length ser"
    using len by (simp_all add: size_sub_small)
  have "take (len - 4) data = be_bytes32 (word_of_nat k) @ name @ [0] @ ser"
    "be_value32 (drop (len - 4) data) = chk" "be_value32 data = word_of_nat k"
    "segment 4 (4 + k - 1) data = name" "take (length ser) (drop (4 + k) data) = ser"
    "\<not> length data < len" "\<not> length data < 4 + k" "\<not> length (drop (len - 4) data) < 4" "\<not> length data < 4" "\<not> len < 4"
    using len(1) k(1) by (auto simp: data segment_def)
  moreover have small: "len - 4 < 2147483648" "length ser < 2147483648" "\<not> length (drop (4 + k) data) < length ser"
    using len k(1) by (auto simp: data)
  ultimately show ?thesis using k(2)
    by (simp add: protobuf_parse_def networkToHost32_def chk n sub Let_def read_array_def size_casts
        small split: option.split)
qed

lemma parse_payload:
  assumes "registered pb m"
  shows "protobuf_parse pb (protobuf_payload pb m @ be_bytes32 (adler32 pb (protobuf_payload pb m)) @ r)
    (length (protobuf_payload pb m) + 4) = Inr (Some m)"
proof -
  have "protobuf_parse pb (protobuf_payload pb m @ be_bytes32 (adler32 pb (protobuf_payload pb m)) @ r)
      (length (protobuf_payload pb m) + 4) =
    Inr (map_option (parse_from_array pb (serialize pb m)) (createMessage pb (type_name pb m)))"
    using assms
    by (intro parse_layout [where k = "length (type_name pb m) + 1" and r = r])
      (auto simp: protobuf_payload_def registered_def Protobuf_kMaxMessageLen_def neq_Nil_conv)
  then show ?thesis using assms
    by (auto simp: registered_def createMessage_def split: option.splits)
qed

section \<open>The receive loop\<close>

lemma Protobuf_consts [simp]:
  "size_of_int (Protobuf_kMinMessageLen + Protobuf_kHeaderLen) = 14"
  by (simp add: Protobuf_kMinMessageLen_def Protobuf_kHeaderLen_def size_of_int_def)

text \<open>One frame at the front of the buffer is consumed and delivered.\<close>

lemma onMessage_frame:
  assumes ok: "buf_ok b" and c: "content b = protobuf_frame pb m @ r" and reg: "registered pb m"
  shows "\<exists>b'. buf_ok b' \<and> content b' = r \<and> retrieve (length (protobuf_frame pb m)) b = Inr b' \<and>
    (\<forall>conn. Protobuf_onMessage pb cb shut conn b =
      (case cb m conn of Inl e \<Rightarrow> Some (Inl e) | Inr conn1 \<Rightarrow> Protobuf_onMessage pb cb shut conn1 b'))"
proof -
  let ?p = "protobuf_payload pb m"
  define n where "n = length ?p + 4"
  have bounds: "10 \<le> n" "int n \<le> Protobuf_kMaxMessageLen"
    using reg by (auto simp: n_def registered_def length_payload neq_Nil_conv)
  have c': "content b = be_bytes32 (word_of_nat n) @ ?p @ be_bytes32 (adler32 pb ?p) @ r"
    by (simp add: c protobuf_frame_def n_def)
  have readable: "readableBytes b = n + 4 + length r"
    using length_content [OF ok] by (simp add: c length_frame n_def)
  have len: "sint (word_of_nat n :: int32) = int n"
    using bounds by (intro sint_int32_of_nat) (simp add: Protobuf_kMaxMessageLen_def)
  have sizes: "size_of_int (int n) = n" "size_of_int (int n + 4) = n + 4"
    using bounds by (simp_all add: Protobuf_kMaxMessageLen_def Protobuf_kHeaderLen_def size_of_int_nonneg nat_add_distrib)
  obtain s where "drop (readerIndex b + 4) (vec b) = (?p @ be_bytes32 (adler32 pb ?p) @ r) @ s"
    using memory_after [OF ok, of 4] by (auto simp: c')
  then have parse: "protobuf_parse pb (drop (readerIndex b + 4) (vec b)) n = Inr (Some m)"
    using parse_payload [OF reg, of "r @ s"] by (simp add: n_def)
  have front: "n + 4 = length (protobuf_frame pb m)" by (simp add: length_frame n_def)
  obtain b' where b': "retrieve (n + 4) b = Inr b'" "buf_ok b'" "content b' = r"
    using bufq.drop_front [OF ok c front] by blast
  have "Protobuf_onMessage pb cb shut conn b =
      (case cb m conn of Inl e \<Rightarrow> Some (Inl e) | Inr conn1 \<Rightarrow> Protobuf_onMessage pb cb shut conn1 b')" for conn
    using bounds parse b'(1) readable peekInt32_ok [OF ok c']
    by (cases "cb m conn"; subst Protobuf_onMessage.simps)
      (simp_all add: Protobuf_iteration_def len sizes Protobuf_kMinMessageLen_def Protobuf_kHeaderLen_def size_of_int_nonneg)
  then show ?thesis using b' front by auto
qed

text \<open>All the frames at the front, in order.\<close>

lemma onMessage_frames:
  assumes "buf_ok b" and "content b = concat (map (protobuf_frame pb) ms) @ r" and "length r < 14"
    and "\<forall>m \<in> set ms. registered pb m"
  shows "\<exists>b'. buf_ok b' \<and> content b' = r \<and>
    (\<forall>conn. Protobuf_onMessage pb cb shut conn b = Some (and_then (fold_result cb ms conn) (\<lambda>conn. Inr (conn, b'))))"
  using assms
proof (induction ms arbitrary: b)
  case Nil
  then show ?case using length_content [OF Nil.prems(1)]
    by (intro exI [of _ b]) (simp add: Protobuf_onMessage.simps Protobuf_iteration_def)
next
  case (Cons m ms)
  then obtain b1 where b1: "buf_ok b1" "content b1 = concat (map (protobuf_frame pb) ms) @ r"
      "\<And>conn. Protobuf_onMessage pb cb shut conn b =
        (case cb m conn of Inl e \<Rightarrow> Some (Inl e) | Inr conn1 \<Rightarrow> Protobuf_onMessage pb cb shut conn1 b1)"
    using onMessage_frame [of b pb m "concat (map (protobuf_frame pb) ms) @ r" cb shut] by auto
  then obtain b' where "buf_ok b'" "content b' = r"
      "\<And>conn. Protobuf_onMessage pb cb shut conn b1 = Some (and_then (fold_result cb ms conn) (\<lambda>conn. Inr (conn, b')))"
    using Cons.IH [of b1] Cons.prems by auto
  then show ?case using b1(3) by (intro exI [of _ b']) (auto simp: and_then_def split: sum.split)
qed

text \<open>A state whose only step is back to itself is never left.\<close>

lemma onMessage_stuck:
  assumes loop: "Protobuf_iteration pb cb shut conn b = Continue conn b"
  shows "Protobuf_onMessage pb cb shut conn b = None"
proof -
  have no_result: "\<not> (pb' = pb \<and> cb' = cb \<and> shut' = shut \<and> conn' = conn \<and> b' = b)"
    if "Protobuf_onMessage pb' cb' shut' conn' b' = Some r" for pb' cb' shut' conn' b' r
  proof (rule Protobuf_onMessage.raw_induct [where P = "\<lambda>pb' cb' shut' conn' b' r.
        \<not> (pb' = pb \<and> cb' = cb \<and> shut' = shut \<and> conn' = conn \<and> b' = b)", OF _ that])
    fix f pb' cb' shut' conn' b' r'
    assume IH: "\<And>pb' cb' shut' conn' b' r'. f pb' cb' shut' conn' b' = Some r' \<Longrightarrow>
        \<not> (pb' = pb \<and> cb' = cb \<and> shut' = shut \<and> conn' = conn \<and> b' = b)"
      and eq: "(case Protobuf_iteration pb' cb' shut' conn' b' of Return r \<Rightarrow> Some r
        | Continue conn1 buf1 \<Rightarrow> f pb' cb' shut' conn1 buf1) = Some r'"
    show "\<not> (pb' = pb \<and> cb' = cb \<and> shut' = shut \<and> conn' = conn \<and> b' = b)"
    proof
      assume same: "pb' = pb \<and> cb' = cb \<and> shut' = shut \<and> conn' = conn \<and> b' = b"
      then have "f pb cb shut conn b = Some r'" using eq loop by simp
      then show False using IH by blast
    qed
  qed
  show ?thesis
  proof (cases "Protobuf_onMessage pb cb shut conn b")
    case (Some r)
    from no_result [OF this] show ?thesis by simp
  qed
qed

text \<open>So a frame of legal length whose checksum is wrong is never left, whatever else is in it.\<close>

lemma onMessage_stuck_checksum:
  assumes ok: "buf_ok b" and c: "content b = be_bytes32 (word_of_nat n) @ body @ be_bytes32 chk @ r"
    and n: "n = length body + 4" "6 \<le> length body" "n \<le> 67108864" and bad: "adler32 pb body \<noteq> chk"
  shows "Protobuf_onMessage pb cb shut conn b = None"
proof (rule onMessage_stuck)
  have readable: "readableBytes b = 8 + length body + length r" using length_content [OF ok] by (simp add: c)
  have sizes: "size_of_int (int n + 4) = n + 4" "sint (word_of_nat n :: int32) = int n" "size_of_int (int n) = n"
    using n sint_int32_of_nat [of n] by (simp_all add: size_of_int_nonneg nat_add_distrib)
  obtain s where s: "drop (readerIndex b + 4) (vec b) = (body @ be_bytes32 chk @ r) @ s"
    using memory_after [OF ok, of 4] by (auto simp: c)
  have "protobuf_parse pb (drop (readerIndex b + 4) (vec b)) n = Inr None"
    using bad n by (simp add: s protobuf_parse_def networkToHost32_def size_casts)
  then show "Protobuf_iteration pb cb shut conn b = Continue conn b"
    using peekInt32_ok [OF ok c] n readable sizes
    by (simp add: Protobuf_iteration_def Protobuf_kMaxMessageLen_def Protobuf_kMinMessageLen_def
        Protobuf_kHeaderLen_def size_of_int_nonneg)
qed

section \<open>The sender\<close>

lemma serialize_in_place:
  "and_then (ensureWritableBytes (length xs) b) (\<lambda>b.
      and_then (store_bytes (writerIndex b) xs b) (\<lambda>b. and_then (hasWritten (length xs) b) f)) =
    and_then (append_all xs b) f"
  by (simp add: append_all_def append_data_def and_then_assoc)

text \<open>\<open>send\<close> hands the connection a buffer that holds the frame and nothing else.\<close>

lemma send_frame:
  assumes reg: "registered pb m"
  shows "\<exists>b. buf_ok b \<and> content b = protobuf_frame pb m \<and>
    (\<forall>conn_send conn. Protobuf_send pb conn_send m conn = conn_send b conn)"
proof -
  let ?ser = "serialize pb m" and ?p = "protobuf_payload pb m" and ?name = "type_name pb m"
  define k where "k = length ?name + 1"
  have size: "byte_size pb m = int (length ?ser)" and len: "length ?p + 4 \<le> 67108864"
    using reg by (auto simp: registered_def Protobuf_kMaxMessageLen_def)
  have k: "k < 2147483648" "size_add (length ?name) (Suc 0) = k" and n: "length ?ser < 2147483648"
    and p: "length ?p = 4 + k + length ?ser"
    using len by (simp_all add: length_payload k_def size_simps)
  have nameLen: "size_of_int (sint (word_of_nat k :: int32)) = k"
    using k sint_int32_of_nat [of k] by (simp add: size_of_int_nonneg)
  obtain b0 where b0: "Buffer_new kInitialSize = Inr b0" "buf_ok b0" "content b0 = []" "readerIndex b0 = 8" "writerIndex b0 = 8"
    using Buffer_new_ok [of kInitialSize] by (auto simp: buffer_defs)
  let ?xss = "[be_bytes32 (word_of_nat k), ?name @ [0], ?ser]"
  have payload: "concat ?xss = ?p" by (simp add: protobuf_payload_def k_def)
  obtain b3 where b3: "fold_result append_all ?xss b0 = Inr b3" "buf_ok b3" "content b3 = ?p"
      "buffer_room b0 \<le> buffer_room b3 + length ?p"
    using bufq.puts [OF b0(2), of ?xss] b0(3,5) len unfolding payload by (auto simp: buffer_room_def)
  obtain b4 where b4: "appendInt32 (adler32 pb ?p) b3 = Inr b4" "buf_ok b4" "content b4 = ?p @ be_bytes32 (adler32 pb ?p)"
    using bufq.put_law [OF b3(2), of "be_bytes32 (adler32 pb ?p)"] b3 b0(5) len
    by (auto simp: append_ints_as_bytes buffer_room_def)
  have "readerIndex b3 = 8"
    using b3(1) b0(4) by (auto simp: result_simps dest!: append_all_reader)
  then have "readerIndex b4 = 8"
    using b4(1) by (auto simp: append_ints_as_bytes dest!: append_all_reader)
  then obtain b5 where b5: "prepend (be_bytes32 (word_of_nat (length ?p + 4))) 4 b4 = Inr b5" "buf_ok b5"
      "content b5 = protobuf_frame pb m"
    using prepend_ok [OF b4(2), of 4 "be_bytes32 (word_of_nat (length ?p + 4))"] b4(3)
    by (auto simp: protobuf_frame_def)
  have readable: "readableBytes b3 = length ?p" "readableBytes b4 = length ?p + 4"
    using length_content [OF b3(2)] length_content [OF b4(2)] b3(3) b4(3) by simp_all
  have peek: "peek_bytes (length ?p) b3 = Inr ?p" using b3 by (simp add: peek_bytes_ok)
  have sum: "size_add (size_add (size_add 4 k) (length ?ser)) 4 = length ?p + 4"
    using k n by (simp add: p size_simps)
  have name: "append_data (?name @ [0]) k = append_all (?name @ [0])"
    by (simp add: append_all_def k_def fun_eq_iff)
  obtain b1 b2 where "appendInt32 (word_of_nat k) b0 = Inr b1" "append_all (?name @ [0]) b1 = Inr b2" "append_all ?ser b2 = Inr b3"
    using b3(1) by (auto simp: result_simps append_ints_as_bytes)
  then have "Protobuf_send pb conn_send m conn = conn_send b5 conn" for conn_send and conn :: 'z
    using b0(1) b4(1) b5(1) readable peek sum size n
    by (simp add: Protobuf_send_def k nameLen name Let_def serialize_in_place size_of_int_nonneg)
  then show ?thesis using b5 by blast
qed

section \<open>Properties\<close>

lemma send_frames:
  "\<forall>m \<in> set xs. registered pb m \<Longrightarrow>
   fold_result (Protobuf_send pb (\<lambda>b c. Inr (c @ content b))) xs s = Inr (s @ concat (map (protobuf_frame pb) xs))"
proof (induction xs arbitrary: s)
  case (Cons m xs)
  then have "registered pb m" by simp
  from send_frame [OF this] obtain b where b: "content b = protobuf_frame pb m"
      "\<And>conn_send conn. Protobuf_send pb conn_send m conn = (conn_send b conn :: byte list result)"
    by blast
  from Cons have "fold_result (Protobuf_send pb (\<lambda>b c. Inr (c @ content b))) xs s' =
      Inr (s' @ concat (map (protobuf_frame pb) xs))" for s' by simp
  then show ?case using b by simp
qed simp

text \<open>A library for the witnesses: one type, named by one byte, whose messages are their own serialisations.\<close>

definition sample_protobuf :: "(unit, byte list) protobuf" where
  "sample_protobuf = \<lparr>find_message_type = (\<lambda>n. if n = [77] then Some () else None), get_prototype = (\<lambda>_. Some []),
     parse_from_array = (\<lambda>bs _. bs), type_name = (\<lambda>_. [77]), byte_size = (\<lambda>m. int (length m)),
     serialize = (\<lambda>m. m), adler32 = (\<lambda>bs. word_of_nat (length bs))\<rparr>"

lemma registered_sample: "length m \<le> 1000 \<Longrightarrow> registered sample_protobuf m"
  by (simp add: registered_def sample_protobuf_def length_payload Protobuf_kMaxMessageLen_def)

text \<open>
  C23: the protobuf codec round-trips.  When messages of linked-in types are sent one after
  another and a receive buffer holds all the bytes sent, followed by fewer than 14 others,
  \<open>onMessage\<close> returns, having called the callback on exactly those messages in order, and
  leaves the other bytes.
\<close>

theorem Protobuf_roundtrip:
  assumes reg: "\<forall>m \<in> set ms. registered pb m"
    and sent: "fold_result (Protobuf_send pb (\<lambda>b c. Inr (c @ content b))) ms [] = Inr stream"
    and ok: "buf_ok b" and c: "content b = stream @ r" and r: "length r < 14"
  shows "\<exists>b'. Protobuf_onMessage pb (\<lambda>m c. Inr (c @ [m])) shut [] b = Some (Inr (ms, b')) \<and> content b' = r"
proof -
  have "stream = concat (map (protobuf_frame pb) ms)" using sent send_frames [OF reg] by simp
  with c have c': "content b = concat (map (protobuf_frame pb) ms) @ r" by simp
  show ?thesis
    using onMessage_frames [OF ok c' r reg, of "\<lambda>m c. Inr (c @ [m])" shut] by (auto simp: fold_result_log)
qed

theorem Protobuf_roundtrip_witness:
  "\<exists>b'. Protobuf_onMessage sample_protobuf (\<lambda>m c. Inr (c @ [m])) Inr []
      \<lparr>vec = replicate 8 0 @ [0, 0, 0, 11, 0, 0, 0, 2, 77, 0, 5, 0, 0, 0, 7, 9], readerIndex = 8, writerIndex = 24\<rparr> =
    Some (Inr ([[5]], b')) \<and> content b' = [9]"
proof -
  let ?b = "\<lparr>vec = replicate 8 0 @ [0, 0, 0, 11, 0, 0, 0, 2, 77, 0, 5, 0, 0, 0, 7, 9], readerIndex = 8, writerIndex = 24\<rparr>"
  have reg: "registered sample_protobuf [5]" by (simp add: registered_sample)
  obtain b where "content b = protobuf_frame sample_protobuf [5]"
      "\<And>conn_send conn. Protobuf_send sample_protobuf conn_send [5] conn = (conn_send b conn :: byte list result)"
    using send_frame [OF reg] by blast
  then have sent: "fold_result (Protobuf_send sample_protobuf (\<lambda>b c. Inr (c @ content b))) [[5]] [] =
      Inr (protobuf_frame sample_protobuf [5])" by simp
  have "content ?b = protobuf_frame sample_protobuf [5] @ [9]"
    by (simp add: content_def segment_def protobuf_frame_def protobuf_payload_def sample_protobuf_def be_bytes32_def)
  then show ?thesis
    by (intro Protobuf_roundtrip [OF _ sent, of _ "[9]"]) (simp_all add: reg buffer_defs)
qed

text \<open>
  \<open>onMessage\<close> does not return on an incomplete frame.  When at least 14 bytes are
  readable and the announced length is legal but not all of the frame has arrived, no iteration
  changes anything, so the loop never ends (and the connection's thread is lost).
\<close>

theorem Protobuf_onMessage_hangs_incomplete:
  assumes ok: "buf_ok b" and c: "content b = be_bytes32 (word_of_nat n) @ body"
    and n: "10 \<le> n" "n \<le> 67108864" and part: "length body < n" "10 \<le> length body"
  shows "Protobuf_onMessage pb cb shut conn b = None"
proof (rule onMessage_stuck)
  have "readableBytes b = 4 + length body" using length_content [OF ok] by (simp add: c)
  moreover have "size_of_int (int n + 4) = n + 4" "sint (word_of_nat n :: int32) = int n"
    using n sint_int32_of_nat [of n] by (simp_all add: size_of_int_nonneg nat_add_distrib)
  ultimately show "Protobuf_iteration pb cb shut conn b = Continue conn b"
    using peekInt32_ok [OF ok c] n part
    by (simp add: Protobuf_iteration_def Protobuf_kMaxMessageLen_def Protobuf_kMinMessageLen_def
        Protobuf_kHeaderLen_def size_of_int_nonneg)
qed

theorem Protobuf_onMessage_hangs_incomplete_witness:
  "Protobuf_onMessage sample_protobuf (\<lambda>m c. Inr (c @ [m])) Inr []
     \<lparr>vec = replicate 11 0 @ [11] @ replicate 10 0, readerIndex = 8, writerIndex = 22\<rparr> = None"
proof (rule Protobuf_onMessage_hangs_incomplete [where n = 11 and body = "replicate 10 0"])
  show "content \<lparr>vec = replicate 11 0 @ [11] @ replicate 10 0, readerIndex = 8, writerIndex = 22\<rparr> =
      be_bytes32 (word_of_nat 11) @ replicate 10 0"
    by code_simp
qed (simp_all add: buffer_defs)

text \<open>
  \<open>onMessage\<close> does not return on a complete frame whose checksum is wrong, nor on any
  other frame that \<open>parse\<close> turns down: nothing is consumed and the loop goes round for ever.
\<close>

theorem Protobuf_onMessage_hangs_bad_checksum:
  assumes ok: "buf_ok b" and c: "content b = be_bytes32 (word_of_nat n) @ body @ be_bytes32 chk @ r"
    and n: "n = length body + 4" "6 \<le> length body" "n \<le> 67108864" and bad: "adler32 pb body \<noteq> chk"
  shows "Protobuf_onMessage pb cb shut conn b = None"
  using assms by (rule onMessage_stuck_checksum)

theorem Protobuf_onMessage_hangs_bad_checksum_witness:
  "Protobuf_onMessage sample_protobuf (\<lambda>m c. Inr (c @ [m])) Inr []
     \<lparr>vec = replicate 11 0 @ [10] @ replicate 10 0, readerIndex = 8, writerIndex = 22\<rparr> = None"
proof (rule Protobuf_onMessage_hangs_bad_checksum [where n = 10 and body = "replicate 6 0" and chk = 0 and r = "[]"])
  show "content \<lparr>vec = replicate 11 0 @ [10] @ replicate 10 0, readerIndex = 8, writerIndex = 22\<rparr> =
      be_bytes32 (word_of_nat 10) @ replicate 6 0 @ be_bytes32 0 @ []"
    by code_simp
qed (simp_all add: buffer_defs sample_protobuf_def)

text \<open>What \<open>parse\<close> answers on a frame that lies in the memory.\<close>

lemma parse_value:
  fixes data :: "byte list"
  defines "k \<equiv> size_of_int (sint (be_value32 data))"
  assumes "8 \<le> len" and "len \<le> length data" and "len < 2147483648"
  shows "protobuf_parse pb data len = Inr (
    if adler32 pb (take (len - 4) data) = be_value32 (drop (len - 4) data) \<and> 2 \<le> sint (be_value32 data) \<and> k \<le> len - 8
    then map_option (parse_from_array pb (take (len - k - 8) (drop (4 + k) data))) (createMessage pb (segment 4 (3 + k) data))
    else None)"
proof (cases "2 \<le> sint (be_value32 data) \<and> k \<le> len - 8")
  case True
  then have "size_sub len 8 = len - 8" "size_sub len k = len - k" "size_sub (len - k) 8 = len - k - 8"
    using assms(2,4) by (intro size_sub_small; linarith)+
  moreover have "len - k - 8 < 2147483648" "\<not> length (drop (4 + k) data) < len - k - 8" "\<not> length data < 4 + k" "\<not> length (drop (len - 4) data) < 4"
    using True assms(2-4) by simp_all linarith
  ultimately show ?thesis using True assms(2-4)
    by (simp add: protobuf_parse_def networkToHost32_def Let_def k_def [symmetric] read_array_def size_casts
        split: option.split del: length_drop)
next
  case False
  have "size_sub len 8 = len - 8" using assms by (simp add: size_sub_small)
  then show ?thesis using False assms(2-4)
    by (auto simp: protobuf_parse_def networkToHost32_def Let_def k_def [symmetric] size_casts)
qed

text \<open>
  C25: \<open>parse\<close> stays inside the frame.  For a frame of at least 8 bytes (and less than
  \<open>2 ^ 31\<close>) that lies in the memory, whatever its bytes are, no read is out of bounds, and the
  result is that of the frame alone: neither the name nor the payload handed to
  \<open>ParseFromArray\<close> reaches past its end, because the attacker-controlled name length is
  checked against the frame before it is used.
\<close>

theorem protobuf_parse_in_bounds:
  assumes "8 \<le> len" and "len \<le> length data" and "len < 2147483648"
  shows "\<exists>r. protobuf_parse pb data len = Inr r \<and> protobuf_parse pb (take len data) len = Inr r"
proof -
  let ?k = "size_of_int (sint (be_value32 data))"
  have "take (len - 4) (take len data) = take (len - 4) data"
    "be_value32 (drop (len - 4) (take len data)) = be_value32 (drop (len - 4) data)"
    "be_value32 (take len data) = be_value32 data"
    using assms by (simp_all add: drop_take min_def)
  moreover have "drop (4 + ?k) (take len data) = take (len - (4 + ?k)) (drop (4 + ?k) data)"
      "segment 4 (3 + ?k) (take len data) = segment 4 (3 + ?k) data"
      "take (len - ?k - 8) (take (len - (4 + ?k)) (drop (4 + ?k) data)) = take (len - ?k - 8) (drop (4 + ?k) data)"
    if "?k \<le> len - 8"
    using that assms by (simp_all add: drop_take segment_def min_def)
  ultimately show ?thesis using parse_value [OF assms, of pb] parse_value [of len "take len data" pb] assms
    by simp
qed

theorem protobuf_parse_in_bounds_witness:
  "\<exists>r. protobuf_parse sample_protobuf [127, 255, 255, 255, 1, 2, 0, 0, 0, 6] 10 = Inr r \<and>
     protobuf_parse sample_protobuf (take 10 [127, 255, 255, 255, 1, 2, 0, 0, 0, 6]) 10 = Inr r"
  by (rule protobuf_parse_in_bounds) simp_all

end
