(* ===== verification/Dispatcher.thy ===== *)
theory Dispatcher
  imports Protobuf_Codec
begin

text \<open>
  \<open>Net/Dispatcher.h\<close> with \<open>down_pointer_cast\<close> of \<open>Net/Types.h\<close>: the callbacks registered
  for the descriptors of message types.  A message pointer is \<open>None\<close> when null.  Parameters of the
  protobuf library: \<open>descriptor\<close> is \<open>GetDescriptor\<close>, and \<open>is_a t m\<close> says whether the
  \<open>dynamic_cast\<close> of \<open>m\<close> to the class with descriptor \<open>t\<close> succeeds.
\<close>

text \<open>\<open>CallbackT<T>\<close>: the descriptor of \<open>T\<close> and the callback.\<close>

record ('d, 'm, 'c) callback_t =
  class_of :: 'd
  callback :: "'m option \<Rightarrow> 'c \<Rightarrow> 'c result"

definition down_pointer_cast :: "('d \<Rightarrow> 'm \<Rightarrow> bool) \<Rightarrow> 'd \<Rightarrow> 'm option \<Rightarrow> 'm option result" where
  "down_pointer_cast is_a t f = (if (case f of None \<Rightarrow> True | Some m \<Rightarrow> is_a t m) then Inr f else Inl Assert_Failed)"

definition callback_onMessage ::
  "('d \<Rightarrow> 'm \<Rightarrow> bool) \<Rightarrow> ('d, 'm, 'c) callback_t \<Rightarrow> 'm option \<Rightarrow> 'c \<Rightarrow> 'c result" where
  "callback_onMessage is_a cb message conn =
     and_then (down_pointer_cast is_a (class_of cb) message) (\<lambda>concrete.
     if concrete = None then Inl Assert_Failed else callback cb concrete conn)"

record ('d, 'm, 'c) dispatcher =
  callbacks_map :: "'d \<Rightarrow> ('d, 'm, 'c) callback_t option"
  defaultCallback :: "'m option \<Rightarrow> 'c \<Rightarrow> 'c result"

definition Dispatcher_new :: "('m option \<Rightarrow> 'c \<Rightarrow> 'c result) \<Rightarrow> ('d, 'm, 'c) dispatcher" where
  "Dispatcher_new defaultCb = \<lparr>callbacks_map = (\<lambda>_. None), defaultCallback = defaultCb\<rparr>"

definition registerMessageCallback ::
  "'d \<Rightarrow> ('m option \<Rightarrow> 'c \<Rightarrow> 'c result) \<Rightarrow> ('d, 'm, 'c) dispatcher \<Rightarrow> ('d, 'm, 'c) dispatcher" where
  "registerMessageCallback t cb d =
     d\<lparr>callbacks_map := (callbacks_map d)(t \<mapsto> \<lparr>class_of = t, callback = cb\<rparr>)\<rparr>"

definition Dispatcher_onMessage ::
  "('d \<Rightarrow> 'm \<Rightarrow> bool) \<Rightarrow> ('m \<Rightarrow> 'd) \<Rightarrow> ('d, 'm, 'c) dispatcher \<Rightarrow> 'm option \<Rightarrow> 'c \<Rightarrow> 'c result" where
  "Dispatcher_onMessage is_a descriptor d message conn =
     (case message of
        None \<Rightarrow> Inl Null_Pointer
      | Some m \<Rightarrow> (case callbacks_map d (descriptor m) of
          Some cb \<Rightarrow> callback_onMessage is_a cb message conn
        | None \<Rightarrow> defaultCallback d message conn))"

text \<open>The dispatcher after a list of registrations, and the callback meant for a message: the last one of its type.\<close>

definition registrations ::
  "('d \<times> ('m option \<Rightarrow> 'c \<Rightarrow> 'c result)) list \<Rightarrow> ('m option \<Rightarrow> 'c \<Rightarrow> 'c result) \<Rightarrow> ('d, 'm, 'c) dispatcher" where
  "registrations regs default_cb = fold (\<lambda>(t, cb). registerMessageCallback t cb) regs (Dispatcher_new default_cb)"

definition callback_for ::
  "('d \<times> ('m option \<Rightarrow> 'c \<Rightarrow> 'c result)) list \<Rightarrow> ('m option \<Rightarrow> 'c \<Rightarrow> 'c result) \<Rightarrow> 'd \<Rightarrow> 'm option \<Rightarrow> 'c \<Rightarrow> 'c result" where
  "callback_for regs default_cb t = (case map_of (rev regs) t of None \<Rightarrow> default_cb | Some cb \<Rightarrow> cb)"

lemma registrations_simps [simp]:
  "defaultCallback (registrations regs default_cb) = default_cb"
  "callbacks_map (registrations regs default_cb) t = map_option (\<lambda>cb. \<lparr>class_of = t, callback = cb\<rparr>) (map_of (rev regs) t)"
proof (induction regs rule: rev_induct)
  case Nil
  { case 1 then show ?case by (simp add: registrations_def Dispatcher_new_def) }
  { case 2 then show ?case by (simp add: registrations_def Dispatcher_new_def) }
next
  case (snoc x regs)
  have step: "registrations (regs @ [x]) default_cb = (case x of (t, cb) \<Rightarrow> registerMessageCallback t cb (registrations regs default_cb))"
    by (cases x) (simp add: registrations_def)
  { case 1 then show ?case using snoc by (simp add: step registerMessageCallback_def split: prod.split) }
  { case 2 then show ?case using snoc by (simp add: step registerMessageCallback_def split: prod.split) }
qed

text \<open>\<open>is_a\<close> holds between a generated class and the messages with its descriptor.\<close>

lemma onMessage_registered:
  assumes "is_a (descriptor m) m"
  shows "Dispatcher_onMessage is_a descriptor (registrations regs default_cb) (Some m) conn =
    callback_for regs default_cb (descriptor m) (Some m) conn"
  using assms by (simp add: Dispatcher_onMessage_def callback_onMessage_def down_pointer_cast_def callback_for_def
    split: option.split)

text \<open>
  C14: sent messages reach their callbacks.  When messages of linked-in types are sent one
  after another and the receive buffer holds the bytes sent, followed by fewer than 14 others, the
  codec with the dispatcher as its callback returns, having called for each message in order the
  last callback registered for its type, or the default one, and leaves the other bytes.
\<close>

theorem messages_dispatched:
  assumes "\<forall>m\<in>set ms. registered pb m \<and> is_a (descriptor m) m"
    and "fold_result (Protobuf_send pb (\<lambda>b c. Inr (c @ content b))) ms [] = Inr stream"
    and "buf_ok b" and "content b = stream @ r" and "length r < 14"
  shows "\<exists>b'. Protobuf_onMessage pb
      (\<lambda>m. Dispatcher_onMessage is_a descriptor (registrations regs default_cb) (Some m)) shut conn b =
    Some (and_then (fold_result (\<lambda>m. callback_for regs default_cb (descriptor m) (Some m)) ms conn)
      (\<lambda>conn. Inr (conn, b'))) \<and> content b' = r"
proof -
  have reg: "\<forall>m\<in>set ms. registered pb m" using assms(1) by blast
  then have "content b = concat (map (protobuf_frame pb) ms) @ r"
    using assms(2,4) send_frames [OF reg] by simp
  from onMessage_frames [OF assms(3) this assms(5) reg] obtain b' where b': "content b' = r"
      "\<And>conn. Protobuf_onMessage pb (\<lambda>m. Dispatcher_onMessage is_a descriptor (registrations regs default_cb) (Some m)) shut conn b =
        Some (and_then (fold_result (\<lambda>m. Dispatcher_onMessage is_a descriptor (registrations regs default_cb) (Some m)) ms conn)
          (\<lambda>conn. Inr (conn, b')))"
    by blast
  have "fold_result (\<lambda>m. Dispatcher_onMessage is_a descriptor (registrations regs default_cb) (Some m)) ms conn =
      fold_result (\<lambda>m. callback_for regs default_cb (descriptor m) (Some m)) ms conn"
    using assms(1)
  proof (induction ms arbitrary: conn)
    case (Cons m ms)
    then show ?case by (simp add: onMessage_registered cong: and_then_cong)
  qed simp
  then show ?thesis using b' by auto
qed

theorem messages_dispatched_witness:
  "\<exists>b'. Protobuf_onMessage sample_protobuf
      (\<lambda>m. Dispatcher_onMessage (\<lambda>_ _. True) length
        (registrations [(1, \<lambda>m c. Inr (c @ [m]))] (\<lambda>_ _. Inl Assert_Failed)) (Some m)) Inr []
      \<lparr>vec = replicate 8 0 @ [0, 0, 0, 11, 0, 0, 0, 2, 77, 0, 5, 0, 0, 0, 7, 9], readerIndex = 8, writerIndex = 24\<rparr> =
    Some (and_then (fold_result (\<lambda>m. callback_for [(1, \<lambda>m c. Inr (c @ [m]))] (\<lambda>_ _. Inl Assert_Failed) (length m) (Some m))
      [[5]] []) (\<lambda>conn. Inr (conn, b'))) \<and> content b' = [9]"
proof (rule messages_dispatched)
  let ?b = "\<lparr>vec = replicate 8 0 @ [0, 0, 0, 11, 0, 0, 0, 2, 77, 0, 5, 0, 0, 0, 7, 9], readerIndex = 8, writerIndex = 24\<rparr>"
  show "\<forall>m\<in>set [[5]]. registered sample_protobuf m \<and> True" by (simp add: registered_sample)
  show "fold_result (Protobuf_send sample_protobuf (\<lambda>b c. Inr (c @ content b))) [[5]] [] =
      Inr ([] @ concat (map (protobuf_frame sample_protobuf) [[5]]))"
    by (rule send_frames) (simp add: registered_sample)
  show "content ?b = ([] @ concat (map (protobuf_frame sample_protobuf) [[5]])) @ [9]"
    by code_simp
qed (simp_all add: buffer_defs)

end
