(* ===== verification/Framed_Connection.thy ===== *)
theory Framed_Connection
  imports Codec Protobuf_Codec Tcp_Connection
begin

text \<open>
  A \<open>TcpConnection\<close> whose message callback is a codec's \<open>onMessage\<close>, as a user of the library
  sets it up: the bytes of a peer that sends frames, received in pieces of any size, reach the user
  as messages, once each and in order, and the calls the user makes from its callback are made on
  the connection.  What a codec promises is the locale \<open>frame_codec\<close>; \<open>LengthHeaderCodec\<close> and
  \<open>ProtobufCodec\<close> are its interpretations.
\<close>

section \<open>Codecs as message callbacks\<close>

text \<open>
  \<open>user\<close> is the callback given to the codec: from a message, the calls recorded so far and the
  user's state, it adds the calls it makes on the connection.  They do not touch the input buffer,
  so they are made when the codec has returned.  A codec that never returns is a fault here.
\<close>

type_synonym ('m, 'w) user = "'m \<Rightarrow> conn_call list \<times> 'w \<Rightarrow> (conn_call list \<times> 'w) result"

definition shutdown_call :: "conn_call list \<times> 'w \<Rightarrow> (conn_call list \<times> 'w) result" where
  "shutdown_call = (\<lambda>(calls, w). Inr (calls @ [Shutdown], w))"

definition codec_callback ::
  "(byte list, 'w) user \<Rightarrow> buffer \<Rightarrow> 'w \<Rightarrow> (buffer \<times> conn_call list \<times> 'w) result" where
  "codec_callback user b w =
     and_then (LengthHeader_onMessage user shutdown_call ([], w) b) (\<lambda>((calls, w), b). Inr (b, calls, w))"

definition protobuf_callback ::
  "('d, 'm) protobuf \<Rightarrow> ('m, 'w) user \<Rightarrow> buffer \<Rightarrow> 'w \<Rightarrow> (buffer \<times> conn_call list \<times> 'w) result" where
  "protobuf_callback pb user b w =
     (case Protobuf_onMessage pb user shutdown_call ([], w) b of
        None \<Rightarrow> Inl Never_Returns
      | Some r \<Rightarrow> and_then r (\<lambda>((calls, w), b). Inr (b, calls, w)))"

text \<open>What the user's callback on a message does to the connection.\<close>

definition deliver_message ::
  "('m, 'w) user \<Rightarrow> 'm \<Rightarrow> tcp_connection \<times> 'w \<Rightarrow> (tcp_connection \<times> 'w) result" where
  "deliver_message user m = (\<lambda>(c, w). and_then (user m ([], w)) (\<lambda>(calls, w).
     and_then (fold_result run_call calls c) (\<lambda>c. Inr (c, w))))"

text \<open>
  The stream from the peer: the kernel hands over at most \<open>n\<close> bytes, and no more than the pending
  \<open>async_read\<close> still wants.
\<close>

definition receive :: "'w callbacks \<Rightarrow> nat \<Rightarrow> (tcp_connection \<times> 'w) \<times> byte list \<Rightarrow>
    ((tcp_connection \<times> 'w) \<times> byte list) result" where
  "receive k n = (\<lambda>(cw, stream). case reading (fst cw) of
     None \<Rightarrow> Inr (cw, stream)
   | Some r \<Rightarrow>
       let m = min n (want r - got r) in
       and_then (conn_event k (Arrive (take m stream)) cw) (\<lambda>cw. Inr (cw, drop m stream)))"

section \<open>The calls of the user and the input side of the connection\<close>

text \<open>Two connections that differ in nothing but the input buffer and the pending read.\<close>

definition same_but_input :: "tcp_connection \<Rightarrow> tcp_connection \<Rightarrow> bool" where
  "same_but_input c c' \<longleftrightarrow> c' = c\<lparr>inputBuffer := inputBuffer c', reading := reading c'\<rparr>"

lemma same_but_input_refl [simp]: "same_but_input c c"
  by (simp add: same_but_input_def)

lemma same_but_input_update [simp]: "same_but_input c (c\<lparr>inputBuffer := b, reading := r\<rparr>)"
  by (simp add: same_but_input_def)

lemma same_but_inputD:
  assumes "same_but_input c c'"
  shows "state c' = state c" "outputBuffer c' = outputBuffer c" "writes c' = writes c" "wire c' = wire c"
    "send_shut c' = send_shut c"
  using assms unfolding same_but_input_def by (cases c, cases c', simp)+

lemma input_fields: "c\<lparr>inputBuffer := b, reading := r\<rparr> = (c::tcp_connection)\<lparr>reading := r, inputBuffer := b\<rparr>"
  by simp

lemma same_but_input_trans: "same_but_input a b \<Longrightarrow> same_but_input b c \<Longrightarrow> same_but_input a c"
  unfolding same_but_input_def by (cases a, cases b, cases c) simp

text \<open>A call does the same whatever the input side is.\<close>

lemma sendInThisThread_input:
  "sendInThisThread tid p (c\<lparr>inputBuffer := b, reading := r\<rparr>) =
     map_sum id (\<lambda>c. c\<lparr>inputBuffer := b, reading := r\<rparr>) (sendInThisThread tid p c)"
  by (cases "append_data (piece_ptr p) (size_of_int (sint (piece_length p))) (outputBuffer c)")
    (simp_all add: sendInThisThread_def conn_assertInLoopThread_def conn_write_def Let_def)

lemma run_call_input:
  "run_call x (c\<lparr>inputBuffer := b, reading := r\<rparr>) = map_sum id (\<lambda>c. c\<lparr>inputBuffer := b, reading := r\<rparr>) (run_call x c)"
  by (cases x) (simp_all add: run_call_def send_string_def sendInThisThread_input connected_def conn_shutdown_def
      shutdownInThisThread_def conn_assertInLoopThread_def setState_def forceClose_def conn_post_def Let_def)

lemma run_calls_input:
  assumes "fold_result run_call xs c = Inr c1"
  shows "fold_result run_call xs (c\<lparr>inputBuffer := b, reading := r\<rparr>) = Inr (c1\<lparr>inputBuffer := b, reading := r\<rparr>)"
  using assms by (induction xs arbitrary: c) (auto simp: and_then_eq_Inr run_call_input)

lemma deliver_message_input:
  assumes "deliver_message user m (c, w) = Inr (c1, w1)" and "same_but_input c c'"
  obtains c1' where "deliver_message user m (c', w) = Inr (c1', w1)" "same_but_input c1 c1'"
proof -
  have c': "c' = c\<lparr>inputBuffer := inputBuffer c', reading := reading c'\<rparr>"
    using assms(2) by (simp add: same_but_input_def)
  have "deliver_message user m (c', w) = Inr (c1\<lparr>inputBuffer := inputBuffer c', reading := reading c'\<rparr>, w1)"
    using assms(1) run_calls_input [of _ c c1 "reading c'" "inputBuffer c'"]
    by (subst c') (auto simp: deliver_message_def and_then_eq_Inr)
  then show thesis using that by simp
qed

section \<open>One frame through the buffer\<close>

lemma retrieve_all_ok:
  assumes "buf_ok b" and "n = length (content b)"
  shows "retrieve n b = Inr (retrieveAll b)"
  using assms by (simp add: retrieve_def length_content)

lemma onMessage_one_frame:
  assumes ok: "buf_ok b" and c: "content b = frame m" and m: "m \<noteq> []" "length m \<le> 65536"
  shows "LengthHeader_onMessage cb shut conn b = and_then (cb m conn) (\<lambda>conn. Inr (conn, retrieveAll b))"
proof -
  have len: "sint (word_of_nat (length m) :: int32) = int (length m)" using m(2) by (simp add: sint_int32_of_nat)
  have readable: "readableBytes b = 4 + length m"
    using length_content [OF ok] by (simp add: c frame_def)
  have peek: "peekInt32 b = Inr (word_of_nat (length m))"
    using ok c by (simp add: peekInt32_value frame_def)
  obtain b1 where b1: "retrieve 4 b = Inr b1" "buf_ok b1" "content b1 = m" "vec b1 = vec b"
    using retrieve_ok [OF ok, of 4] by (auto simp: c frame_def)
  have r1: "retrieveAll b1 = retrieveAll b" using b1(4) by (simp add: retrieveAll_def)
  have "readableBytes (retrieveAll b) = 0" by (simp add: retrieveAll_def readableBytes_def size_sub_def buffer_defs)
  then have last: "LengthHeader_onMessage cb shut conn1 (retrieveAll b) = Inr (conn1, retrieveAll b)" for conn1
    by (simp add: LengthHeader_onMessage.simps LengthHeader_kHeaderLen_def size_of_int_def)
  have "peek_bytes (length m) b1 = Inr m" using peek_bytes_ok [OF b1(2), of "length m"] b1(3) by simp
  moreover have "retrieve (length m) b1 = Inr (retrieveAll b)"
    using retrieve_all_ok [OF b1(2)] b1(3) r1 by simp
  moreover have "nat ((int (length m) + 4) mod 18446744073709551616) = length m + 4"
    "nat (int (length m) mod 18446744073709551616) = length m"
    using m(2) by simp_all
  ultimately show ?thesis using m readable
    by (subst LengthHeader_onMessage.simps)
      (simp add: LengthHeader_kHeaderLen_def LengthHeader_kMaxMessageLen_def LengthHeader_kMinMessageLen_def
        size_of_int_def peek len b1(1) last)
qed

text \<open>The connection while \<open>part\<close>, a proper prefix of the frame of \<open>m\<close>, has arrived.\<close>

definition receiving :: "byte list \<Rightarrow> byte list \<Rightarrow> tcp_connection \<Rightarrow> bool" where
  "receiving part m c \<longleftrightarrow> (let b = inputBuffer c in buf_ok b \<and> readerIndex b = 8 \<and>
     (if length part < 4 then writerIndex b = 8 \<and> 12 \<le> length (vec b) \<and> segment 8 (8 + length part) (vec b) = part \<and>
        reading c = Some \<lparr>stage = Header, target = 8, want = 4, got = length part\<rparr>
      else writerIndex b = 12 \<and> 12 + length m \<le> length (vec b) \<and> content b = take 4 (frame m) \<and>
        segment 12 (8 + length part) (vec b) = drop 4 part \<and>
        reading c = Some \<lparr>stage = Body, target = 12, want = length m, got = length part - 4\<rparr>))"

lemma length_lh_frame: "length (frame m) = 4 + length m"
  by (simp add: frame_def)

text \<open>More bytes stored behind those that have arrived.\<close>

lemma store_more:
  assumes "segment i (i + length xs) v = xs" and "i + length xs + length ys \<le> length v"
  shows "segment i (i + length (xs @ ys)) (overwrite (i + length xs) ys v) = xs @ ys"
  using assms by (subst segment_split [of _ "i + length xs"]) (simp_all add: segment_overwrite_before)

lemma hasWritten_content:
  assumes "buf_ok b" and "segment (writerIndex b) (writerIndex b + n) (vec b) = xs" and "writerIndex b + n \<le> length (vec b)"
  shows "hasWritten n b = Inr (b\<lparr>writerIndex := writerIndex b + n\<rparr>)" "content (b\<lparr>writerIndex := writerIndex b + n\<rparr>) = content b @ xs"
proof -
  note inv = buf_okD [OF assms(1)]
  show "hasWritten n b = Inr (b\<lparr>writerIndex := writerIndex b + n\<rparr>)"
    using inv assms by (simp add: hasWritten_def writable_ok size_simps)
  show "content (b\<lparr>writerIndex := writerIndex b + n\<rparr>) = content b @ xs"
    using inv assms(2) by (simp add: content_def) (subst segment_split [of _ "writerIndex b"], simp_all)
qed

lemma store_bytes_ok:
  assumes "buf_ok b" and "i + length xs \<le> length (vec b)"
  shows "store_bytes i xs b = Inr (b\<lparr>vec := overwrite i xs (vec b)\<rparr>)" "buf_ok (b\<lparr>vec := overwrite i xs (vec b)\<rparr>)"
  using assms by (simp_all add: store_bytes_def buffer_defs)

lemma arrive_partial:
  assumes ok: "buf_ok (inputBuffer c)" and r: "reading c = Some r" and fits: "target r + got r + length bs \<le> length (vec (inputBuffer c))"
    and part: "got r + length bs < want r"
  shows "conn_event k (Arrive bs) (c, w) = Inr (c\<lparr>inputBuffer := (inputBuffer c)\<lparr>vec := overwrite (target r + got r) bs (vec (inputBuffer c))\<rparr>,
    reading := Some (r\<lparr>got := got r + length bs\<rparr>)\<rparr>, w)"
proof -
  have "take (want r - got r) bs = bs" using part by simp
  then show ?thesis using store_bytes_ok [OF ok fits] r part by (simp add: conn_event_def arrive_def)
qed

lemma arrive_all:
  assumes ok: "buf_ok (inputBuffer c)" and r: "reading c = Some r" and fits: "target r + got r + length bs \<le> length (vec (inputBuffer c))"
    and all: "got r + length bs = want r"
  shows "conn_event k (Arrive bs) (c, w) = read_complete k (r\<lparr>got := want r\<rparr>)
    (c\<lparr>inputBuffer := (inputBuffer c)\<lparr>vec := overwrite (target r + got r) bs (vec (inputBuffer c))\<rparr>,
       reading := Some (r\<lparr>got := want r\<rparr>)\<rparr>, w)"
proof -
  have "take (want r - got r) bs = bs" using all by simp
  then show ?thesis using store_bytes_ok [OF ok fits] r all by (simp add: conn_event_def arrive_def Let_def)
qed

text \<open>The header is complete: room is made for the body and its read started.\<close>

lemma header_complete:
  assumes rec: "receiving part m c" and m: "length m \<le> 67108864" and bs: "length part + length bs = 4" "bs \<noteq> []"
    and pre: "part @ bs = take 4 (frame m)"
  shows "\<exists>c'. conn_event k (Arrive bs) (c, w) = Inr (c', w) \<and> same_but_input c c' \<and> receiving (part @ bs) m c'"
proof -
  let ?b = "inputBuffer c" and ?w = "word_of_nat (length m) :: int32"
  have short: "length part < 4" using bs by (cases bs) auto
  then have inv: "buf_ok ?b" "readerIndex ?b = 8" "writerIndex ?b = 8" "12 \<le> length (vec ?b)"
      "segment 8 (8 + length part) (vec ?b) = part"
      "reading c = Some \<lparr>stage = Header, target = 8, want = 4, got = length part\<rparr>"
    using rec by (simp_all add: receiving_def Let_def)
  have fits: "8 + length part + length bs \<le> length (vec ?b)" using inv(4) bs(1) by simp
  define b1 where "b1 = ?b\<lparr>vec := overwrite (8 + length part) bs (vec ?b)\<rparr>"
  have ok1: "buf_ok b1" using store_bytes_ok(2) [OF inv(1) fits] by (simp add: b1_def)
  have "segment 8 (8 + length (part @ bs)) (vec b1) = part @ bs"
    unfolding b1_def using store_more [OF inv(5), of bs] fits by simp
  then have stored: "segment (writerIndex b1) (writerIndex b1 + 4) (vec b1) = part @ bs"
    using inv(3) bs(1) by (simp add: b1_def)
  have room: "writerIndex b1 + 4 \<le> length (vec b1)" using inv(3,4) fits by (simp add: b1_def)
  define b2 where "b2 = b1\<lparr>writerIndex := writerIndex b1 + 4\<rparr>"
  have b2: "hasWritten 4 b1 = Inr b2" "content b2 = take 4 (frame m)" "buf_ok b2" "readerIndex b2 = 8" "writerIndex b2 = 12"
    using hasWritten_content [OF ok1 stored room] pre ok1 room inv(2,3)
    by (simp_all add: b2_def) (simp_all add: b1_def content_def buffer_defs)
  have peek: "peekInt32 b2 = Inr ?w" using b2 by (simp add: peekInt32_value frame_def)
  have n: "size_of_int (sint ?w) = length m" using m by (simp add: sint_int32_of_nat size_of_int_def)
  obtain b3 where b3: "ensureWritableBytes (length m) b2 = Inr b3" "buf_ok b3" "content b3 = content b2"
      "writerIndex b3 + length m \<le> length (vec b3)" "readerIndex b3 = 8"
    using ensureWritableBytes_ok [OF b2(3), of "length m"] b2(4,5) m by auto
  have "writerIndex b3 = 12"
    using length_content [OF b3(2)] readable_ok [OF b3(2)] buf_okD(1) [OF b3(2)] b3(3,5) b2(2)
    by (simp add: frame_def)
  then have "receiving (part @ bs) m (readBody (length m) (c\<lparr>inputBuffer := b3, reading := None\<rparr>))"
    using b3 b2(2) bs(1) by (simp add: receiving_def readBody_def Let_def)
  moreover have "conn_event k (Arrive bs) (c, w) = Inr (readBody (length m) (c\<lparr>inputBuffer := b3, reading := None\<rparr>), w)"
    using arrive_all [OF inv(1,6), of bs k w] fits bs(1)
    by (simp add: b1_def [symmetric] read_complete_def readHeader_done_def b2(1) peek n b3(1) readBody_def)
  moreover have "same_but_input c (readBody (length m) (c\<lparr>inputBuffer := b3, reading := None\<rparr>))"
    by (simp add: readBody_def)
  ultimately show ?thesis by blast
qed

text \<open>The body is complete: the message callback is run on a buffer that holds the frame.\<close>

lemma body_arrives:
  assumes rec: "receiving part m c" and part: "4 \<le> length part" and all: "part @ bs = frame m"
    and k: "messageCallback k = Some f"
  shows "\<exists>b. buf_ok b \<and> content b = frame m \<and> 12 \<le> length (vec b) \<and>
    conn_event k (Arrive bs) (c, w) = and_then (f b w) (\<lambda>(b, calls, w).
      and_then (fold_result run_call calls (c\<lparr>reading := None, inputBuffer := b\<rparr>)) (\<lambda>c. Inr (readHeader c, w)))"
proof -
  let ?b = "inputBuffer c" 
  have inv: "buf_ok ?b" "readerIndex ?b = 8" "writerIndex ?b = 12" "12 + length m \<le> length (vec ?b)"
      "content ?b = take 4 (frame m)" "segment 12 (8 + length part) (vec ?b) = drop 4 part"
      "reading c = Some \<lparr>stage = Body, target = 12, want = length m, got = length part - 4\<rparr>"
    using rec part by (simp_all add: receiving_def Let_def)
  have len: "length part + length bs = 4 + length m" using arg_cong [OF all, of length] by (simp add: length_lh_frame)
  have fits: "8 + length part + length bs \<le> length (vec ?b)" using inv(4) len part by simp
  define b1 where "b1 = ?b\<lparr>vec := overwrite (8 + length part) bs (vec ?b)\<rparr>"
  have ok1: "buf_ok b1" using store_bytes_ok(2) [OF inv(1) fits] by (simp add: b1_def)
  have "segment 12 (12 + length (drop 4 part)) (vec ?b) = drop 4 part" using inv(6) part by simp
  from store_more [OF this, of bs] have "segment 12 (12 + length m) (vec b1) = drop 4 part @ bs"
    using fits len part by (simp add: b1_def)
  moreover have "drop 4 part @ bs = m"
  proof -
    have "drop 4 (part @ bs) = m" unfolding all by (simp add: frame_def)
    then show ?thesis using part by simp
  qed
  ultimately have stored: "segment (writerIndex b1) (writerIndex b1 + length m) (vec b1) = m"
    using inv(3) by (simp add: b1_def)
  have room: "writerIndex b1 + length m \<le> length (vec b1)" using inv(3,4) fits by (simp add: b1_def)
  have "content b1 = content ?b" using inv(3) fits part
    by (simp add: b1_def content_def segment_overwrite_before)
  define b2 where "b2 = b1\<lparr>writerIndex := writerIndex b1 + length m\<rparr>"
  have b2: "hasWritten (length m) b1 = Inr b2" "content b2 = take 4 (frame m) @ m" "buf_ok b2" "vec b2 = vec b1"
    using hasWritten_content [OF ok1 stored room] \<open>content b1 = content ?b\<close> inv(5) ok1 room
    by (simp_all add: b2_def) (simp_all add: buffer_defs)
  have "content b2 = frame m" using b2(2) by (simp add: frame_def)
  moreover have "conn_event k (Arrive bs) (c, w) = and_then (f b2 w) (\<lambda>(b, calls, w).
      and_then (fold_result run_call calls (c\<lparr>reading := None, inputBuffer := b\<rparr>)) (\<lambda>c. Inr (readHeader c, w)))"
    using arrive_all [OF inv(1,7), of bs k w] fits len part
    by (simp add: b1_def [symmetric] read_complete_def readBody_done_def b2(1) k)
  moreover have "12 \<le> length (vec b2)" using inv(4) fits by (simp add: b2(4) b1_def)
  ultimately show ?thesis using b2(3) by blast
qed

abbreviation awaiting_header :: "tcp_connection \<Rightarrow> bool" where
  "awaiting_header c \<equiv> \<forall>m. receiving [] m c"

lemma delivers_input:
  assumes "fold_result (deliver_message user) ms (c, w) = Inr (c1, w1)" and "same_but_input c c'"
  shows "\<exists>c1'. fold_result (deliver_message user) ms (c', w) = Inr (c1', w1) \<and> same_but_input c1 c1'"
  using assms
proof (induction ms arbitrary: c c' w)
  case (Cons m ms)
  then obtain c2 w2 where del: "deliver_message user m (c, w) = Inr (c2, w2)"
      "fold_result (deliver_message user) ms (c2, w2) = Inr (c1, w1)"
    by (auto simp: and_then_eq_Inr)
  obtain c2' where "deliver_message user m (c', w) = Inr (c2', w2)" "same_but_input c2 c2'"
    using deliver_message_input [OF del(1) Cons.prems(2)] by blast
  then show ?case using Cons.IH [OF del(2)] by auto
qed auto

text \<open>Nothing happens to a waiting connection when no bytes are left.\<close>

lemma idle:
  assumes "\<forall>m. receiving [] m c"
  shows "fold_result (receive k) ns ((c, w), []) = Inr ((c, w), [])"
proof (induction ns)
  case (Cons x xs)
  have "conn_event k (Arrive []) (c, w) = Inr (c, w)"
    using assms by (auto simp: receiving_def Let_def conn_event_def arrive_def store_bytes_def overwrite_def buffer_defs)
  then show ?case using assms Cons by (simp add: receive_def receiving_def Let_def)
qed simp

section \<open>What a codec promises a connection\<close>

text \<open>
  A message has a body, which travels in a frame; given a buffer that holds one frame and nothing
  else, the codec calls the user on its message and empties the buffer.
\<close>

locale frame_codec =
  fixes body :: "'m \<Rightarrow> byte list"
    and callback :: "('m, 'w) user \<Rightarrow> buffer \<Rightarrow> 'w \<Rightarrow> (buffer \<times> conn_call list \<times> 'w) result"
    and valid :: "'m \<Rightarrow> bool"
  assumes body_size: "valid m \<Longrightarrow> body m \<noteq> [] \<and> length (body m) \<le> 67108864"
    and one_frame: "valid m \<Longrightarrow> buf_ok b \<Longrightarrow> content b = frame (body m) \<Longrightarrow>
      callback user b w = and_then (user m ([], w)) (\<lambda>(calls, w). Inr (retrieveAll b, calls, w))"
begin

text \<open>The codec takes the whole frame, the user's calls are made and the next header is waited for.\<close>

lemma body_complete:
  assumes rec: "receiving part (body m) c" and m: "valid m" and part: "4 \<le> length part"
    and all: "part @ bs = frame (body m)" and k: "messageCallback k = Some (callback user)"
    and del: "deliver_message user m (c, w) = Inr (c1, w1)"
  shows "\<exists>c'. conn_event k (Arrive bs) (c, w) = Inr (c', w1) \<and> same_but_input c1 c' \<and> awaiting_header c'"
proof -
  obtain b where b: "buf_ok b" "content b = frame (body m)" "12 \<le> length (vec b)"
      "conn_event k (Arrive bs) (c, w) = and_then (callback user b w) (\<lambda>(b, calls, w).
        and_then (fold_result run_call calls (c\<lparr>reading := None, inputBuffer := b\<rparr>)) (\<lambda>c. Inr (readHeader c, w)))"
    using body_arrives [OF rec part all k, of w] by blast
  obtain calls where calls: "user m ([], w) = Inr (calls, w1)" "fold_result run_call calls c = Inr c1"
    using del by (auto simp: deliver_message_def and_then_eq_Inr)
  let ?c' = "c1\<lparr>reading := None, inputBuffer := retrieveAll b\<rparr>"
  have "fold_result run_call calls (c\<lparr>reading := None, inputBuffer := retrieveAll b\<rparr>) = Inr ?c'"
    using run_calls_input [OF calls(2), of None "retrieveAll b"] by (simp only: input_fields)
  then have "conn_event k (Arrive bs) (c, w) = Inr (readHeader ?c', w1)"
    by (simp add: b(4) one_frame [OF m b(1,2)] calls(1))
  moreover have "receiving [] m' (readHeader ?c')" for m'
    using b(1,3) by (simp add: receiving_def readHeader_def Let_def retrieveAll_def buffer_defs)
  moreover have "same_but_input c1 (readHeader ?c')" by (simp add: readHeader_def)
  ultimately show ?thesis by blast
qed

lemma receive_step:
  assumes rec: "receiving part (body m) c" and proper: "part @ rest = frame (body m)" "rest \<noteq> []"
    and m: "valid m" and n: "0 < n" and k: "messageCallback k = Some (callback user)"
    and del: "deliver_message user m (c, w) = Inr (c1, w1)"
  shows "\<exists>c' bs rest'. receive k n ((c, w), rest @ later) =
      Inr ((c', if rest' = [] then w1 else w), rest' @ later) \<and> rest = bs @ rest' \<and> bs \<noteq> [] \<and>
    (if rest' = [] then same_but_input c1 c' \<and> awaiting_header c'
     else same_but_input c c' \<and> receiving (part @ bs) (body m) c')"
proof -
  let ?m = "body m"
  have m1: "?m \<noteq> []" "length ?m \<le> 67108864" using body_size [OF m] by auto
  obtain r where r: "reading c = Some r" using rec by (auto simp: receiving_def Let_def split: if_splits)
  have total: "length part + length rest = 4 + length ?m" using arg_cong [OF proper(1), of length] by (simp add: length_lh_frame)
  have wanted: "want r - got r \<le> length rest \<and> 0 < want r - got r"
    using rec r total proper(2) m1(1) by (cases rest) (auto simp: receiving_def Let_def split: if_splits)
  define i where "i = min n (want r - got r)"
  define bs where "bs = take i rest"
  have i: "0 < i" "i \<le> length rest" "i \<le> want r - got r" using n wanted by (auto simp: i_def)
  have bs: "bs \<noteq> []" "length bs = i" "rest = bs @ drop i rest" using i by (auto simp: bs_def)
  have step: "receive k n ((c, w), rest @ later) = and_then (conn_event k (Arrive bs) (c, w)) (\<lambda>cw. Inr (cw, drop i rest @ later))"
    using i by (simp add: receive_def r i_def [symmetric] bs_def)
  have "length part < 4 \<Longrightarrow> length part + i \<le> 4"
    using rec r i by (auto simp: receiving_def Let_def)
  then consider (hpart) "length part + i < 4" | (hdone) "length part < 4" "length part + i = 4"
    | (bpart) "4 \<le> length part" "i < length rest" | (bdone) "4 \<le> length part" "i = length rest"
    using i(2) by linarith
  then show ?thesis
  proof cases
    case hpart
    let ?r = "\<lparr>stage = Header, target = 8, want = 4, got = length part\<rparr>" and ?b = "inputBuffer c"
    have inv: "buf_ok ?b" "readerIndex ?b = 8" "writerIndex ?b = 8" "12 \<le> length (vec ?b)"
        "segment 8 (8 + length part) (vec ?b) = part" "reading c = Some ?r"
      using rec hpart by (auto simp: receiving_def Let_def)
    let ?c = "c\<lparr>inputBuffer := ?b\<lparr>vec := overwrite (8 + length part) bs (vec ?b)\<rparr>, reading := Some (?r\<lparr>got := length part + i\<rparr>)\<rparr>"
    have "conn_event k (Arrive bs) (c, w) = Inr (?c, w)"
      using arrive_partial [OF inv(1,6), of bs k w] hpart inv(4) bs(2) by simp
    moreover have "segment 8 (8 + length (part @ bs)) (overwrite (8 + length part) bs (vec ?b)) = part @ bs"
      using store_more [OF inv(5), of bs] hpart inv(4) bs(2) by simp
    then have "receiving (part @ bs) ?m ?c"
      using inv hpart bs(2) store_bytes_ok(2) [OF inv(1), of "8 + length part" bs] by (simp add: receiving_def Let_def)
    moreover have "drop i rest \<noteq> []" using total hpart by auto
    ultimately show ?thesis using step bs by (intro exI [of _ ?c] exI [of _ bs] exI [of _ "drop i rest"]) simp
  next
    case hdone
    have "4 - length part = i" using hdone by simp
    then have "part @ bs = take 4 (part @ rest)" using hdone(1) by (simp add: bs_def)
    then obtain c' where c': "conn_event k (Arrive bs) (c, w) = Inr (c', w)" "same_but_input c c'" "receiving (part @ bs) ?m c'"
      using header_complete [OF rec m1(2), of bs k w] hdone bs proper(1) by auto
    have "drop i rest \<noteq> []" using total hdone m1(1) i by (cases ?m) auto
    then show ?thesis using step c' bs by (intro exI [of _ c'] exI [of _ bs] exI [of _ "drop i rest"]) simp
  next
    case bpart
    let ?r = "\<lparr>stage = Body, target = 12, want = length ?m, got = length part - 4\<rparr>" and ?b = "inputBuffer c"
    have inv: "buf_ok ?b" "readerIndex ?b = 8" "writerIndex ?b = 12" "12 + length ?m \<le> length (vec ?b)"
        "content ?b = take 4 (frame ?m)" "segment 12 (8 + length part) (vec ?b) = drop 4 part" "reading c = Some ?r"
      using rec bpart by (auto simp: receiving_def Let_def)
    let ?c = "c\<lparr>inputBuffer := ?b\<lparr>vec := overwrite (8 + length part) bs (vec ?b)\<rparr>, reading := Some (?r\<lparr>got := length part - 4 + i\<rparr>)\<rparr>"
    have "conn_event k (Arrive bs) (c, w) = Inr (?c, w)"
      using arrive_partial [OF inv(1,7), of bs k w] bpart inv(4) bs(2) total by simp
    moreover have "segment 12 (12 + length (drop 4 part)) (vec ?b) = drop 4 part" using inv(6) bpart by simp
    from store_more [OF this, of bs]
    have "segment 12 (8 + length (part @ bs)) (overwrite (8 + length part) bs (vec ?b)) = drop 4 (part @ bs)"
      using bpart inv(4) bs(2) total by (simp add: add.commute)
    then have "receiving (part @ bs) ?m ?c"
      using inv bpart bs(2) total store_bytes_ok(2) [OF inv(1), of "8 + length part" bs]
      by (simp add: receiving_def Let_def content_def segment_overwrite_before)
    moreover have "drop i rest \<noteq> []" using bpart by simp
    ultimately show ?thesis using step bs by (intro exI [of _ ?c] exI [of _ bs] exI [of _ "drop i rest"]) simp
  next
    case bdone
    then have "bs = rest" "drop i rest = []" by (simp_all add: bs_def)
    then obtain c' where "conn_event k (Arrive bs) (c, w) = Inr (c', w1)" "same_but_input c1 c'" "awaiting_header c'"
      using body_complete [OF rec m bdone(1) _ k del, of bs] proper(1) by auto
    then show ?thesis using step bs \<open>drop i rest = []\<close>
      by (intro exI [of _ c'] exI [of _ bs] exI [of _ "[]"]) simp
  qed
qed

lemma frames_received:
  assumes "receiving part (body m) c" and "part @ rest = frame (body m)" and "rest \<noteq> []"
    and "\<forall>m\<in>set (m # ms). valid m" and "\<forall>n\<in>set ns. 0 < n"
    and "length (rest @ concat (map (\<lambda>m. frame (body m)) ms)) \<le> length ns"
    and "messageCallback k = Some (callback user)"
    and "fold_result (deliver_message user) (m # ms) (c, w) = Inr (c1, w1)"
  shows "\<exists>c'. fold_result (receive k) ns ((c, w), rest @ concat (map (\<lambda>m. frame (body m)) ms)) = Inr ((c', w1), []) \<and>
    same_but_input c1 c' \<and> awaiting_header c'"
  using assms
proof (induction ns arbitrary: part m c rest ms w c1)
  case Nil
  then show ?case by simp
next
  case (Cons n ns)
  let ?later = "concat (map (\<lambda>m. frame (body m)) ms)"
  obtain c2 w2 where del: "deliver_message user m (c, w) = Inr (c2, w2)"
      and dels: "fold_result (deliver_message user) ms (c2, w2) = Inr (c1, w1)"
    using Cons.prems(8) by (auto simp: and_then_eq_Inr)
  obtain c' bs rest' where step: "receive k n ((c, w), rest @ ?later) =
      Inr ((c', if rest' = [] then w2 else w), rest' @ ?later)" "rest = bs @ rest'" "bs \<noteq> []"
      "if rest' = [] then same_but_input c2 c' \<and> awaiting_header c'
       else same_but_input c c' \<and> receiving (part @ bs) (body m) c'"
    using receive_step [OF Cons.prems(1-3) _ _ Cons.prems(7) del, of n ?later] Cons.prems(4,5) by auto
  have len: "length (rest' @ ?later) \<le> length ns"
    using Cons.prems(6) step(2,3) by (cases bs) auto
  show ?case
  proof (cases "rest' = []")
    case False
    then have rec: "part @ bs @ rest' = frame (body m)" "receiving (part @ bs) (body m) c'" "same_but_input c c'"
      using Cons.prems(2) step(2,4) by auto
    obtain c1' where c1': "fold_result (deliver_message user) (m # ms) (c', w) = Inr (c1', w1)" "same_but_input c1 c1'"
      using delivers_input [OF Cons.prems(8) rec(3)] by blast
    show ?thesis using Cons.IH [of "part @ bs" m c' rest' ms w c1'] c1'(1) rec(1,2) step(1) False
      Cons.prems(4,5,7) len same_but_input_trans [OF c1'(2)] by auto
  next
    case fin: True
    then have rec: "awaiting_header c'" "same_but_input c2 c'" using step(4) by auto
    obtain c1' where c1': "fold_result (deliver_message user) ms (c', w2) = Inr (c1', w1)" "same_but_input c1 c1'"
      using delivers_input [OF dels rec(2)] by blast
    show ?thesis
    proof (cases ms)
      case empty: Nil
      then show ?thesis using step(1) fin empty c1' rec by (auto simp: idle)
    next
      case next_frame: (Cons m1 ms1)
      have "frame (body m1) \<noteq> []" by (simp add: frame_def be_bytes32_def)
      then show ?thesis
        using Cons.IH [of "[]" m1 c' "frame (body m1)" ms1 w2 c1'] rec step(1) fin next_frame Cons.prems(4,5,7) len
          c1' same_but_input_trans [OF c1'(2)] by auto
    qed
  qed
qed

text \<open>The stream of any number of messages, in pieces of any size.\<close>

lemma messages_received:
  assumes "awaiting_header c" and "\<forall>m\<in>set ms. valid m" and "ms \<noteq> []"
    and "\<forall>n\<in>set ns. 0 < n" and "length (concat (map (\<lambda>m. frame (body m)) ms)) \<le> length ns"
    and "messageCallback k = Some (callback user)"
    and "fold_result (deliver_message user) ms (c, w) = Inr (c1, w1)"
  shows "\<exists>c'. fold_result (receive k) ns ((c, w), concat (map (\<lambda>m. frame (body m)) ms)) = Inr ((c', w1), []) \<and>
    same_but_input c1 c' \<and> awaiting_header c'"
proof -
  obtain m ms' where ms: "ms = m # ms'" using assms(3) by (cases ms) auto
  have "frame (body m) \<noteq> []" by (simp add: frame_def be_bytes32_def)
  then show ?thesis using frames_received [of "[]" m c "frame (body m)" ms' ns k user w c1 w1] assms ms by simp
qed

end

section \<open>The two codecs\<close>

interpretation lh: frame_codec "\<lambda>m. m" codec_callback "\<lambda>m. m \<noteq> [] \<and> length m \<le> 65536"
proof
  fix m :: "byte list" and b and user :: "(byte list, 'a) user" and w :: 'a
  assume m: "m \<noteq> [] \<and> length m \<le> 65536" and "buf_ok b" "content b = frame m"
  then show "codec_callback user b w = and_then (user m ([], w)) (\<lambda>(calls, w). Inr (retrieveAll b, calls, w))"
    by (simp add: codec_callback_def onMessage_one_frame and_then_assoc)
      (auto simp: and_then_def split: sum.split)
qed auto

text \<open>What travels in a protobuf frame.\<close>

definition protobuf_body :: "('d, 'm) protobuf \<Rightarrow> 'm \<Rightarrow> byte list" where
  "protobuf_body pb m = protobuf_payload pb m @ be_bytes32 (adler32 pb (protobuf_payload pb m))"

lemma frame_protobuf_body: "frame (protobuf_body pb m) = protobuf_frame pb m"
  by (simp add: frame_def protobuf_body_def protobuf_frame_def)

lemma Protobuf_onMessage_one_frame:
  assumes ok: "buf_ok b" and c: "content b = protobuf_frame pb m" and reg: "registered pb m"
  shows "Protobuf_onMessage pb cb shut conn b = Some (and_then (cb m conn) (\<lambda>conn. Inr (conn, retrieveAll b)))"
proof -
  obtain b' where b': "retrieve (length (protobuf_frame pb m)) b = Inr b'"
      "Protobuf_onMessage pb cb shut conn b =
        (case cb m conn of Inl e \<Rightarrow> Some (Inl e) | Inr conn1 \<Rightarrow> Protobuf_onMessage pb cb shut conn1 b')"
    using onMessage_frame [OF ok, of pb m "[]"] c reg by fastforce
  have "b' = retrieveAll b" using b'(1) retrieve_all_ok [OF ok, of "length (protobuf_frame pb m)"] c by simp
  moreover have "readableBytes (retrieveAll b) = 0" by (simp add: retrieveAll_def readableBytes_def size_sub_def buffer_defs)
  then have "Protobuf_onMessage pb cb shut conn1 (retrieveAll b) = Some (Inr (conn1, retrieveAll b))" for conn1
    by (simp add: Protobuf_onMessage.simps Protobuf_iteration_def)
  ultimately show ?thesis using b'(2) by (simp split: sum.split)
qed

interpretation pbc: frame_codec "protobuf_body pb" "protobuf_callback pb" "registered pb" for pb
proof
  fix m :: 'b and b and user :: "('b, 'c) user" and w :: 'c
  assume m: "registered pb m"
  show "protobuf_body pb m \<noteq> [] \<and> length (protobuf_body pb m) \<le> 67108864"
    using m by (simp add: protobuf_body_def registered_def Protobuf_kMaxMessageLen_def be_bytes32_def)
  assume "buf_ok b" "content b = frame (protobuf_body pb m)"
  then show "protobuf_callback pb user b w = and_then (user m ([], w)) (\<lambda>(calls, w). Inr (retrieveAll b, calls, w))"
    using m by (simp add: protobuf_callback_def Protobuf_onMessage_one_frame frame_protobuf_body and_then_assoc)
      (auto simp: and_then_def split: sum.split)
qed

section \<open>Properties\<close>

text \<open>
  C2: frames in, messages out.  A connection waiting for a header, whose callback is the
  length-header codec, given the bytes of frames of 1 to 65536 bytes in pieces of any positive size,
  meets no fault unless the user does, hands the user exactly the bodies, in order, and has made the
  calls the user made on each; nothing but its input side differs from that, and it waits for the
  next header.
\<close>

theorem frames_delivered:
  assumes "\<forall>m'. receiving [] m' c" and "\<forall>m\<in>set ms. m \<noteq> [] \<and> length m \<le> 65536" and "ms \<noteq> []"
    and "\<forall>n\<in>set ns. 0 < n" and "length (concat (map frame ms)) \<le> length ns"
    and "messageCallback k = Some (codec_callback user)"
    and "fold_result (deliver_message user) ms (c, w) = Inr (c1, w1)"
  shows "\<exists>c'. fold_result (receive k) ns ((c, w), concat (map frame ms)) = Inr ((c', w1), []) \<and>
    same_but_input c1 c' \<and> (\<forall>m'. receiving [] m' c')"
  using lh.messages_received [of c ms ns k user w c1 w1] assms by simp

text \<open>
  C40: One corrupted frame stops the loop of a connection with the protobuf codec.  When the last bytes of a
  frame of legal length arrive and the checksum in it is not that of its payload, the message
  callback never returns, whatever the rest of the frame is.
\<close>

theorem corrupted_frame_stops_loop:
  assumes "receiving part (payload @ be_bytes32 chk) c" and "4 \<le> length part"
    and "part @ bs = frame (payload @ be_bytes32 chk)"
    and "6 \<le> length payload" and "length payload + 4 \<le> 67108864" and "adler32 pb payload \<noteq> chk"
    and "messageCallback k = Some (protobuf_callback pb user)"
  shows "conn_event k (Arrive bs) (c, w) = Inl Never_Returns"
proof -
  obtain b where b: "buf_ok b" "content b = frame (payload @ be_bytes32 chk)"
      "conn_event k (Arrive bs) (c, w) = and_then (protobuf_callback pb user b w) (\<lambda>(b, calls, w).
        and_then (fold_result run_call calls (c\<lparr>reading := None, inputBuffer := b\<rparr>)) (\<lambda>c. Inr (readHeader c, w)))"
    using body_arrives [OF assms(1-3,7), of w] by blast
  have "content b = be_bytes32 (word_of_nat (length payload + 4)) @ payload @ be_bytes32 chk @ []"
    using b(2) by (simp add: frame_def)
  then have "Protobuf_onMessage pb user shutdown_call ([], w) b = None"
    by (rule onMessage_stuck_checksum [OF b(1) _ refl assms(4-6)])
  then show ?thesis by (simp add: b(3) protobuf_callback_def)
qed

theorem corrupted_frame_stops_loop_witness:
  "conn_event \<lparr>connectionCallback = None, messageCallback = Some (protobuf_callback sample_protobuf (\<lambda>m. Inr)),
      closeCallback = None\<rparr> (Arrive [0, 0, 0, 0, 0, 0, 0, 0])
    (open_connection\<lparr>inputBuffer := \<lparr>vec = [0, 0, 0, 0, 0, 0, 0, 0, 0, 0, 0, 10, 0, 0, 0, 0, 0, 0, 0, 0, 0, 0], readerIndex = 8, writerIndex = 12\<rparr>,
       reading := Some \<lparr>stage = Body, target = 12, want = 10, got = 2\<rparr>\<rparr>, ()) = Inl Never_Returns"
proof (rule corrupted_frame_stops_loop [where part = "[0, 0, 0, 10, 0, 0]" and payload = "[0, 0, 0, 0, 0, 0]" and chk = 0])
  show "receiving [0, 0, 0, 10, 0, 0] ([0, 0, 0, 0, 0, 0] @ be_bytes32 0)
     (open_connection\<lparr>inputBuffer := \<lparr>vec = [0, 0, 0, 0, 0, 0, 0, 0, 0, 0, 0, 10, 0, 0, 0, 0, 0, 0, 0, 0, 0, 0], readerIndex = 8, writerIndex = 12\<rparr>,
       reading := Some \<lparr>stage = Body, target = 12, want = 10, got = 2\<rparr>\<rparr>)"
    by (simp add: receiving_def buffer_defs content_def segment_def frame_def be_bytes32_def)
qed (simp_all add: frame_def be_bytes32_def sample_protobuf_def)

text \<open>A connection just established waits for a header.\<close>

lemma established_receiving:
  assumes "TcpConnection_new tid socket = Inr c"
  shows "\<forall>m'. receiving [] m' (readHeader c)"
proof -
  obtain b where "Buffer_new kInitialSize = Inr b" "buf_ok b" "readerIndex b = 8" "writerIndex b = 8" "writableBytes b = 1024"
    using Buffer_new_ok [of kInitialSize] by (auto simp: kInitialSize_def)
  then show ?thesis using assms writable_ok [of b]
    by (auto simp: TcpConnection_new_def and_then_eq_Inr receiving_def readHeader_def Let_def split: if_splits)
qed

definition codec_user :: "byte list list callbacks" where
  "codec_user = \<lparr>connectionCallback = None, messageCallback = Some (codec_callback
     (\<lambda>s (calls, w). Inr (if s = [5, 6] then calls @ [Shutdown] else calls, w @ [s]))), closeCallback = None\<rparr>"

theorem frames_delivered_witness:
  "\<exists>c'. fold_result (receive codec_user) (replicate 20 3) ((open_connection, []), concat (map frame [[1, 2, 3], [4], [5, 6]])) =
      Inr ((c', [[1, 2, 3], [4], [5, 6]]), []) \<and>
    same_but_input (open_connection\<lparr>state := kDisconnecting, send_shut := True\<rparr>) c' \<and> (\<forall>m'. receiving [] m' c')"
proof (rule frames_delivered [where user = "\<lambda>s (calls, w). Inr (if s = [5, 6] then calls @ [Shutdown] else calls, w @ [s])"])
  have "TcpConnection_new 0 (sound_socket 0) = Inr fresh_connection" by (rule fresh_connection_new)
  then have "receiving [] m (readHeader fresh_connection)" for m using established_receiving by blast
  then show "\<forall>m'. receiving [] m' open_connection"
    by (simp add: receiving_def open_connection_def readHeader_def setState_def Let_def)
qed (simp_all add: codec_user_def frame_def deliver_message_def run_call_def conn_shutdown_def open_connection_def
    shutdownInThisThread_def conn_assertInLoopThread_def setState_def readHeader_def fresh_connection_def
    buffer_defs readableBytes_def size_sub_def)

end
