(* ===== verification/Query_Server.thy ===== *)
theory Query_Server
  imports Framed_Connection Dispatcher Tcp_Server
begin

text \<open>
  \<open>class QueryServer\<close> of \<open>main.cpp\<close>, the program's own use of the library: a \<open>TcpServer\<close> whose
  connections run \<open>ProtobufCodec::onMessage\<close>, whose codec runs \<open>Dispatcher::onMessage\<close>, whose
  callbacks answer a query and shut the connection down.  The classes generated from
  \<open>query.proto\<close> are parameters, and so are the addresses of a connection.
\<close>

section \<open>The code\<close>

text \<open>What the server uses of the generated classes \<open>QueryDef::Query\<close> and \<open>QueryDef::Answer\<close>.\<close>

record ('d, 'm) query_def =
  Query_descriptor :: 'd
  Answer_descriptor :: 'd
  new_Answer :: 'm
  set_id :: "int \<Rightarrow> 'm \<Rightarrow> 'm"
  set_questioner :: "string \<Rightarrow> 'm \<Rightarrow> 'm"
  set_answerer :: "string \<Rightarrow> 'm \<Rightarrow> 'm"
  DebugString :: "'m \<Rightarrow> byte list"

text \<open>The lines logged.\<close>

datatype log_line =
    Connection_Line string string
  | Unknown_Line "byte list"
  | Query_Line "byte list" "byte list"
  | Answer_Line "byte list"

text \<open>The connection as a callback sees it: the calls made on it so far, and the log.\<close>

type_synonym conn_ref = "conn_call list \<times> log_line list"

definition log_info :: "log_line \<Rightarrow> conn_ref \<Rightarrow> conn_ref" where
  "log_info l = (\<lambda>(calls, log). (calls, log @ [l]))"

text \<open>\<open>conn->send(&buff)\<close>, in the loop of the connection.\<close>

definition ref_send :: "buffer \<Rightarrow> conn_ref \<Rightarrow> conn_ref result" where
  "ref_send buff = (\<lambda>(calls, log).
     and_then (retrieveAllAsString buff) (\<lambda>(s, buff). Inr (calls @ [Send s], log)))"

definition onConnection :: "string \<Rightarrow> string \<Rightarrow> stateE \<Rightarrow> log_line list \<Rightarrow> conn_call list \<times> log_line list" where
  "onConnection localAddr remoteAddr st log = log_info (Connection_Line localAddr remoteAddr) ([], log)"

definition onUnknownMessage :: "('d, 'm) protobuf \<Rightarrow> 'm option \<Rightarrow> conn_ref \<Rightarrow> conn_ref result" where
  "onUnknownMessage pb message conn = (case message of
     None \<Rightarrow> Inl Null_Pointer
   | Some m \<Rightarrow> shutdown_call (log_info (Unknown_Line (type_name pb m)) conn))"

definition the_answer :: "('d, 'm) query_def \<Rightarrow> 'm" where
  "the_answer q = set_answerer q ''boost.org'' (set_questioner q ''Txhua'' (set_id q 1 (new_Answer q)))"

definition onQuery ::
  "('d, 'm) protobuf \<Rightarrow> ('d, 'm) query_def \<Rightarrow> 'm option \<Rightarrow> conn_ref \<Rightarrow> conn_ref result" where
  "onQuery pb q message conn = (case message of
     None \<Rightarrow> Inl Null_Pointer
   | Some m \<Rightarrow>
       and_then (Protobuf_send pb ref_send (the_answer q)
         (log_info (Query_Line (type_name pb m) (DebugString q m)) conn)) shutdown_call)"

definition onAnswer :: "('d, 'm) protobuf \<Rightarrow> 'm option \<Rightarrow> conn_ref \<Rightarrow> conn_ref result" where
  "onAnswer pb message conn = (case message of
     None \<Rightarrow> Inl Null_Pointer
   | Some m \<Rightarrow> shutdown_call (log_info (Answer_Line (type_name pb m)) conn))"

record ('d, 'm) query_server =
  qs_server :: tcp_server
  qs_dispatcher :: "('d, 'm, conn_ref) dispatcher"
  conn_callbacks :: "string \<Rightarrow> string \<Rightarrow> log_line list callbacks"

text \<open>
  The constructor.  \<open>is_a\<close> and \<open>descriptor\<close> are those of the dispatcher; \<open>conn_callbacks\<close>
  are the callbacks the server gives a connection with the given addresses (its close callback is
  the server's own and makes no call on the connection).
\<close>

definition QueryServer_new :: "('d, 'm) protobuf \<Rightarrow> ('d, 'm) query_def \<Rightarrow> ('d \<Rightarrow> 'm \<Rightarrow> bool) \<Rightarrow> ('m \<Rightarrow> 'd) \<Rightarrow>
    nat \<Rightarrow> string \<Rightarrow> ('d, 'm) query_server" where
  "QueryServer_new pb q is_a descriptor ios ipPort =
     (let d = Dispatcher_new (onUnknownMessage pb);
          d = registerMessageCallback (Query_descriptor q) (onQuery pb q) d;
          d = registerMessageCallback (Answer_descriptor q) (onAnswer pb) d;
          codec = protobuf_callback pb (\<lambda>m. Dispatcher_onMessage is_a descriptor d (Some m)) in
      \<lparr>qs_server = TcpServer_new ios ipPort ''IOEvent'', qs_dispatcher = d,
       conn_callbacks = (\<lambda>localAddr remoteAddr.
         setMessageCallback (Some codec) (setConnectionCallback (Some (onConnection localAddr remoteAddr))
           \<lparr>connectionCallback = None, messageCallback = None, closeCallback = Some (\<lambda>w. ([], w))\<rparr>))\<rparr>)"

definition QueryServer_start :: "(nat \<Rightarrow> nat) \<Rightarrow> ('d, 'm) query_server \<Rightarrow> ('d, 'm) query_server result" where
  "QueryServer_start start s =
     and_then (TcpServer_start start (server_setThreadNum 5 (qs_server s))) (\<lambda>server. Inr (s\<lparr>qs_server := server\<rparr>))"

section \<open>One message\<close>

text \<open>The line and the calls a message leads to.\<close>

definition line_of :: "('d, 'm) protobuf \<Rightarrow> ('d, 'm) query_def \<Rightarrow> ('m \<Rightarrow> 'd) \<Rightarrow> 'm \<Rightarrow> log_line" where
  "line_of pb q descriptor m =
     (if descriptor m = Answer_descriptor q then Answer_Line (type_name pb m)
      else if descriptor m = Query_descriptor q then Query_Line (type_name pb m) (DebugString q m)
      else Unknown_Line (type_name pb m))"

definition calls_of :: "('d, 'm) protobuf \<Rightarrow> ('d, 'm) query_def \<Rightarrow> ('m \<Rightarrow> 'd) \<Rightarrow> 'm \<Rightarrow> conn_call list" where
  "calls_of pb q descriptor m =
     (if descriptor m \<noteq> Answer_descriptor q \<and> descriptor m = Query_descriptor q
      then [Send (protobuf_frame pb (the_answer q)), Shutdown] else [Shutdown])"

lemma ref_send_frame:
  assumes "registered pb m"
  shows "Protobuf_send pb ref_send m (calls, log) = Inr (calls @ [Send (protobuf_frame pb m)], log)"
proof -
  obtain b where b: "buf_ok b" "content b = protobuf_frame pb m"
      "\<And>conn_send conn. Protobuf_send pb conn_send m conn = (conn_send b conn :: conn_ref result)"
    using send_frame [OF assms] by blast
  have "retrieveAllAsString b = Inr (protobuf_frame pb m, retrieveAll b)"
    using b(1,2) length_content [OF b(1)]
    by (simp add: retrieveAllAsString_def retrieveAsString_def peek_bytes_ok retrieve_all_ok)
  then show ?thesis by (simp add: b(3) ref_send_def)
qed

text \<open>The codec's user: the dispatcher of the constructor.\<close>

definition query_user :: "('d, 'm) protobuf \<Rightarrow> ('d, 'm) query_def \<Rightarrow> ('d \<Rightarrow> 'm \<Rightarrow> bool) \<Rightarrow> ('m \<Rightarrow> 'd) \<Rightarrow> ('m, log_line list) user" where
  "query_user pb q is_a descriptor = (\<lambda>m. Dispatcher_onMessage is_a descriptor
     (registrations [(Query_descriptor q, onQuery pb q), (Answer_descriptor q, onAnswer pb)] (onUnknownMessage pb)) (Some m))"

lemma conn_callbacks_simps:
  "messageCallback (conn_callbacks (QueryServer_new pb q is_a descriptor ios ipPort) l r) =
     Some (protobuf_callback pb (query_user pb q is_a descriptor))"
  "connectionCallback (conn_callbacks (QueryServer_new pb q is_a descriptor ios ipPort) l r) = Some (onConnection l r)"
  by (simp_all add: QueryServer_new_def Let_def setMessageCallback_def setConnectionCallback_def query_user_def registrations_def)

lemma query_user_calls:
  assumes "is_a (descriptor m) m" and "registered pb (the_answer q)"
  shows "query_user pb q is_a descriptor m ([], log) =
    Inr (calls_of pb q descriptor m, log @ [line_of pb q descriptor m])"
  using assms ref_send_frame [OF assms(2)]
  by (simp add: query_user_def onMessage_registered callback_for_def onQuery_def onAnswer_def onUnknownMessage_def
      shutdown_call_def log_info_def calls_of_def line_of_def)

section \<open>The answer on the wire\<close>

text \<open>A connection that has started to write \<open>s\<close>, in its output buffer \<open>out\<close>, and is shutting down.\<close>

definition answering :: "buffer \<Rightarrow> byte list \<Rightarrow> tcp_connection \<Rightarrow> tcp_connection" where
  "answering out s c = c\<lparr>state := kDisconnecting, outputBuffer := out, accepted_bytes := accepted_bytes c @ s,
     writes := [\<lparr>source = readerIndex out, count_bytes = length s, storage = length (vec out)\<rparr>]\<rparr>"

lemma answer_sent:
  assumes "state c = kConnected" and "buf_ok (outputBuffer c)" and "content (outputBuffer c) = []"
    and "writes c = []" and s: "s \<noteq> []" "length s \<le> 100000000" "length s \<le> buffer_room (outputBuffer c)"
  obtains out where "buf_ok out" "content out = s"
    "fold_result run_call [Send s, Shutdown] c = Inr (answering out s c)"
proof -
  obtain out where out: "append_all s (outputBuffer c) = Inr out" "buf_ok out" "content out = s"
    using bufq.put_law [OF assms(2) s(3)] assms(3) by auto
  have n: "readableBytes (outputBuffer c) = 0" "readableBytes out = length s"
    using length_content [OF assms(2)] length_content [OF out(2)] assms(3) out(3) by simp_all
  have "fold_result run_call [Send s, Shutdown] c = Inr (answering out s c)"
    using assms(1,4) s(1,2) n out(1)
    by (simp add: run_call_def send_string_loop connected_def conn_write_def conn_shutdown_def
        shutdownInThisThread_def conn_assertInLoopThread_def setState_def answering_def Let_def)
  then show thesis using that out(2,3) by blast
qed

text \<open>Once the connection is shutting down the calls do nothing.\<close>

lemma calls_ignored:
  "state c = kDisconnecting \<Longrightarrow> fold_result run_call (calls_of pb q descriptor m) c = Inr c"
  by (simp add: calls_of_def run_call_def send_string_def connected_def conn_shutdown_def)

lemma delivers_ignored:
  assumes "state c = kDisconnecting" and "registered pb (the_answer q)" and "\<forall>m\<in>set ms. is_a (descriptor m) m"
  shows "fold_result (deliver_message (query_user pb q is_a descriptor)) ms (c, log) =
    Inr (c, log @ map (line_of pb q descriptor) ms)"
  using assms(3)
proof (induction ms arbitrary: log)
  case (Cons m ms)
  then show ?case using assms(1,2) by (simp add: deliver_message_def query_user_calls calls_ignored)
qed simp

lemma delivers_answer:
  assumes "state c = kConnected" and "buf_ok (outputBuffer c)" and "content (outputBuffer c) = []"
    and "writes c = []" and room: "buffer_room (outputBuffer c) \<ge> 100000000"
    and reg: "registered pb (the_answer q)" and is_a: "\<forall>m\<in>set (m # ms). is_a (descriptor m) m"
    and query: "descriptor m = Query_descriptor q" "Query_descriptor q \<noteq> Answer_descriptor q"
  obtains out where "buf_ok out" "content out = protobuf_frame pb (the_answer q)"
    "fold_result (deliver_message (query_user pb q is_a descriptor)) (m # ms) (c, log) =
      Inr (answering out (protobuf_frame pb (the_answer q)) c, log @ map (line_of pb q descriptor) (m # ms))"
proof -
  let ?s = "protobuf_frame pb (the_answer q)"
  have "length ?s \<le> 100000000" "?s \<noteq> []"
    using reg by (auto simp: registered_def Protobuf_kMaxMessageLen_def length_frame protobuf_frame_def be_bytes32_def)
  then obtain out where out: "buf_ok out" "content out = ?s"
      "fold_result run_call [Send ?s, Shutdown] c = Inr (answering out ?s c)"
    using answer_sent [OF assms(1-4), of ?s] room by auto
  have "calls_of pb q descriptor m = [Send ?s, Shutdown]" using query by (simp add: calls_of_def)
  then have "deliver_message (query_user pb q is_a descriptor) m (c, log) =
      Inr (answering out ?s c, log @ [line_of pb q descriptor m])"
    using is_a reg out(3) by (simp add: deliver_message_def query_user_calls del: fold_result.simps)
  moreover have "fold_result (deliver_message (query_user pb q is_a descriptor)) ms
      (answering out ?s c, log @ [line_of pb q descriptor m]) =
      Inr (answering out ?s c, (log @ [line_of pb q descriptor m]) @ map (line_of pb q descriptor) ms)"
    using is_a reg by (intro delivers_ignored) (simp_all add: answering_def)
  ultimately show thesis using that [OF out(1,2)] by simp
qed

text \<open>A new connection, opened by the server.\<close>

lemma query_established:
  assumes "TcpConnection_new tid socket = Inr c"
  obtains c1 where "conn_event (conn_callbacks (QueryServer_new pb q is_a descriptor ios ipPort) l r) Established (c, []) =
      Inr (c1, [Connection_Line l r])"
    "awaiting_header c1" "state c1 = kConnected" "buf_ok (outputBuffer c1)" "content (outputBuffer c1) = []" "writes c1 = []"
    "buffer_room (outputBuffer c1) \<ge> 100000000" "wire c1 = []" "loopTid c1 = tid"
proof -
  obtain b where b: "Buffer_new kInitialSize = Inr b" "buf_ok b" "content b = []" "writerIndex b = 8"
    using Buffer_new_ok [of kInitialSize] by (auto simp: kInitialSize_def)
  have c: "c = \<lparr>loopTid = tid, state = kConnecting, inputBuffer = b, outputBuffer = b, reading = None,
       writes = [], conn_tasks = [], send_shut = False, strings = (\<lambda>_. None), upDowns = [],
       accepted_bytes = [], wire = [], half_written = 0, torn = False, odd_sent = False\<rparr>"
    using assms b(1) by (simp add: TcpConnection_new_def split: if_splits)
  let ?c1 = "readHeader (c\<lparr>state := kConnected, upDowns := [kConnected]\<rparr>)"
  have "conn_event (conn_callbacks (QueryServer_new pb q is_a descriptor ios ipPort) l r) Established (c, []) =
      Inr (?c1, [Connection_Line l r])"
    by (simp add: conn_event_def connectEstablished_def conn_assertInLoopThread_def c call_connection_if_set_def
        call_connection_def conn_callbacks_simps onConnection_def log_info_def setState_def)
  moreover have "awaiting_header ?c1"
    using established_receiving [OF assms] by (simp add: receiving_def readHeader_def Let_def)
  ultimately show thesis using that b(2-4) by (simp add: c readHeader_def buffer_room_def)
qed

text \<open>The pending write of the answer completes.\<close>

lemma answer_written:
  assumes "writes c = [\<lparr>source = readerIndex out, count_bytes = length s, storage = length (vec out)\<rparr>]"
    and "outputBuffer c = out" and "buf_ok out" and "content out = s" and "state c = kDisconnecting"
  obtains c' where "write_done 0 c = Inr c'" "wire c' = wire c @ s" "send_shut c'" "state c' = kDisconnecting" "writes c' = []"
proof -
  have seg: "segment (readerIndex out) (readerIndex out + length s) (vec out) = s"
    using assms(3,4) peek_bytes_ok [OF assms(3), of "length s"] by (auto simp: peek_bytes_def split: if_splits)
  have "retrieve (length s) out = Inr (retrieveAll out)" using retrieve_all_ok [OF assms(3)] assms(4) by simp
  moreover have "readableBytes (retrieveAll out) = 0" by (simp add: retrieveAll_def readableBytes_def size_sub_def buffer_defs)
  ultimately show thesis using that assms(1,2,5) seg
    by (simp add: write_done_def Let_def shutdownInThisThread_def conn_assertInLoopThread_def)
qed

section \<open>Properties\<close>

text \<open>
  C7: a query is answered, once, through all the layers.  A new connection of the query server is
  opened and then receives, in pieces of any positive size, the frames of a query and of any further
  messages.  Nothing faults; every message is logged once, in order, by the callback of its type;
  when the pending write completes the wire holds exactly the frame of the one answer, to the first
  query, and the sending side is shut down.
\<close>

theorem query_answered_once:
  assumes "TcpConnection_new tid socket = Inr c"
    and "k = conn_callbacks (QueryServer_new pb q is_a descriptor ios ipPort) localAddr remoteAddr"
    and "\<forall>m\<in>set (query # ms). registered pb m \<and> is_a (descriptor m) m" and "registered pb (the_answer q)"
    and "descriptor query = Query_descriptor q" and "Query_descriptor q \<noteq> Answer_descriptor q"
    and "\<forall>n\<in>set ns. 0 < n" and "length (concat (map (protobuf_frame pb) (query # ms))) \<le> length ns"
  shows "\<exists>c1 c2 c3 log. conn_event k Established (c, []) = Inr (c1, [Connection_Line localAddr remoteAddr]) \<and>
    fold_result (receive k) ns ((c1, [Connection_Line localAddr remoteAddr]), concat (map (protobuf_frame pb) (query # ms))) =
      Inr ((c2, log), []) \<and>
    log = Connection_Line localAddr remoteAddr # map (line_of pb q descriptor) (query # ms) \<and>
    conn_event k (WriteDone 0) (c2, log) = Inr (c3, log) \<and>
    wire c3 = protobuf_frame pb (the_answer q) \<and> send_shut c3 \<and> state c3 = kDisconnecting"
proof -
  let ?log = "[Connection_Line localAddr remoteAddr]" and ?s = "protobuf_frame pb (the_answer q)"
  let ?log2 = "?log @ map (line_of pb q descriptor) (query # ms)"
  obtain c1 where c1: "conn_event k Established (c, []) = Inr (c1, ?log)"
      "awaiting_header c1" "state c1 = kConnected" "buf_ok (outputBuffer c1)" "content (outputBuffer c1) = []" "writes c1 = []"
      "buffer_room (outputBuffer c1) \<ge> 100000000" "wire c1 = []"
    using query_established [OF assms(1)] assms(2) by metis
  have is_a: "\<forall>m\<in>set (query # ms). is_a (descriptor m) m" using assms(3) by blast
  obtain out where out: "buf_ok out" "content out = ?s"
      "fold_result (deliver_message (query_user pb q is_a descriptor)) (query # ms) (c1, ?log) =
      Inr (answering out ?s c1, ?log2)"
    by (rule delivers_answer [where log = ?log and is_a = is_a and descriptor = descriptor, OF c1(3-7) assms(4) is_a assms(5,6)])
  obtain c2 where c2: "fold_result (receive k) ns ((c1, ?log), concat (map (protobuf_frame pb) (query # ms))) = Inr ((c2, ?log2), [])"
      "same_but_input (answering out ?s c1) c2"
    using pbc.messages_received [where k = k and pb = pb, OF c1(2) _ _ assms(7) _ _ out(3)] assms(2,3,8)
    by (auto simp: frame_protobuf_body conn_callbacks_simps)
  have "writes c2 = [\<lparr>source = readerIndex out, count_bytes = length ?s, storage = length (vec out)\<rparr>]"
    "outputBuffer c2 = out" "state c2 = kDisconnecting" "wire c2 = []"
    using same_but_inputD [OF c2(2)] c1(8) by (simp_all add: answering_def)
  then obtain c3 where "write_done 0 c2 = Inr c3" "wire c3 = ?s" "send_shut c3" "state c3 = kDisconnecting"
    using answer_written [of c2 out ?s] out(1,2) by auto
  then have "conn_event k (WriteDone 0) (c2, ?log2) = Inr (c3, ?log2)" "wire c3 = ?s" "send_shut c3" "state c3 = kDisconnecting"
    by (simp_all add: conn_event_def)
  then show ?thesis using c1(1) c2(1) by auto
qed

definition sample_query :: "(nat, byte list) query_def" where
  "sample_query = \<lparr>Query_descriptor = 1, Answer_descriptor = 2, new_Answer = [], set_id = (\<lambda>i m. [word_of_int i, 0]),
     set_questioner = (\<lambda>_ m. m), set_answerer = (\<lambda>_ m. m), DebugString = (\<lambda>m. m)\<rparr>"

definition sample_protocol :: "(nat, byte list) protobuf" where
  "sample_protocol = \<lparr>find_message_type = (\<lambda>n. if n = [77] then Some 1 else None), get_prototype = (\<lambda>_. Some []),
     parse_from_array = (\<lambda>bs _. bs), type_name = (\<lambda>_. [77]), byte_size = (\<lambda>m. int (length m)),
     serialize = (\<lambda>m. m), adler32 = (\<lambda>bs. word_of_nat (length bs))\<rparr>"

theorem query_answered_once_witness:
  "\<exists>c c1 c2 c3 log. TcpConnection_new 3 (sound_socket 0) = Inr c \<and>
    conn_event (conn_callbacks (QueryServer_new sample_protocol sample_query (\<lambda>_ _. True) length 0 ''::'') ''a'' ''b'') Established (c, []) =
      Inr (c1, [Connection_Line ''a'' ''b'']) \<and>
    fold_result (receive (conn_callbacks (QueryServer_new sample_protocol sample_query (\<lambda>_ _. True) length 0 ''::'') ''a'' ''b''))
      (replicate 60 5) ((c1, [Connection_Line ''a'' ''b'']), concat (map (protobuf_frame sample_protocol) [[8], [9], [8, 8]])) =
      Inr ((c2, log), []) \<and>
    log = Connection_Line ''a'' ''b'' # map (line_of sample_protocol sample_query length) [[8], [9], [8, 8]] \<and>
    conn_event (conn_callbacks (QueryServer_new sample_protocol sample_query (\<lambda>_ _. True) length 0 ''::'') ''a'' ''b'')
      (WriteDone 0) (c2, log) = Inr (c3, log) \<and>
    wire c3 = protobuf_frame sample_protocol (the_answer sample_query) \<and> send_shut c3 \<and> state c3 = kDisconnecting"
proof -
  have reg: "registered sample_protocol m" if "length m \<le> 1000" for m
    using that by (simp add: registered_def sample_protocol_def length_payload Protobuf_kMaxMessageLen_def)
  obtain c where c: "TcpConnection_new 3 (sound_socket 0) = Inr c"
    using Buffer_new_ok [of kInitialSize] by (auto simp: TcpConnection_new_def kInitialSize_def sound_socket_def)
  have len: "length (concat (map (protobuf_frame sample_protocol) [[8], [9], [8, 8]])) \<le> length (replicate 60 (5 :: nat))"
    by (simp add: length_frame length_payload) (simp add: sample_protocol_def)
  show ?thesis
    using query_answered_once [OF c refl _ _ _ _ _ len, of "\<lambda>_ _. True" length sample_query 0 "''::''" "''a''" "''b''"] c
    by (simp add: reg sample_query_def the_answer_def)
qed

end
