(* ===== verification/Threads.thy ===== *)
theory Threads
  imports Prelude
begin

text \<open>
  \<open>Net/Thread.h/.cpp\<close>, \<open>Net/CountDownLatch.h\<close> and \<open>Net/IOLoopThread.h/.cpp\<close>: a thread
  that runs a loop, the two hand-shakes of its start (the latch for the thread's id, the condition for
  the loop's address), its stop and its destruction.  Two threads take steps in any order: the caller of \<open>start\<close>,
  \<open>stop\<close> and the destructor, and the new one.  A step is what a thread does while it holds a mutex, or one statement
  outside; a wait is a check and, if it fails, a sleep that a notification ends.
\<close>

section \<open>The id of a thread\<close>

text \<open>
  \<open>CurrentThread\<close>: \<open>cached_tid\<close>, a variable of each thread, holds its id once it has been asked for
  (0 stands for the id of no thread).
\<close>

definition CacheTid :: "nat \<Rightarrow> (nat \<Rightarrow> nat) \<Rightarrow> nat \<Rightarrow> nat" where
  "CacheTid this cached_tid = cached_tid(this := this)"

definition CurrentThread_tid :: "nat \<Rightarrow> (nat \<Rightarrow> nat) \<Rightarrow> nat \<times> (nat \<Rightarrow> nat)" where
  "CurrentThread_tid this cached_tid =
     (let cached_tid = (if cached_tid this = 0 then CacheTid this cached_tid else cached_tid) in (cached_tid this, cached_tid))"

definition tids_ok :: "(nat \<Rightarrow> nat) \<Rightarrow> bool" where
  "tids_ok cached_tid \<longleftrightarrow> (\<forall>t. cached_tid t \<noteq> 0 \<longrightarrow> cached_tid t = t)"

lemma CurrentThread_tid_ok:
  "tids_ok cached_tid \<Longrightarrow> fst (CurrentThread_tid this cached_tid) = this \<and> tids_ok (snd (CurrentThread_tid this cached_tid))"
  by (cases "cached_tid this = 0") (auto simp: tids_ok_def CurrentThread_tid_def CacheTid_def)

section \<open>State\<close>

datatype caller_pc =
    C_Ready | C_Latch | C_Latch_Asleep | C_Loop | C_Loop_Asleep | C_Running
  | C_Quitting | C_Calling | C_Joining | C_Stopped | C_Unjoined | C_Destroyed

datatype thread_pc =
    T_None | T_Entry | T_Id | T_Counted | T_Built | T_Looping | T_Returned | T_Cleared | T_Gone

text \<open>
  \<open>loop_set\<close>: \<open>loop_\<close> is not null; \<open>loop_lives\<close>: the loop on the new thread's stack exists;
  \<open>user_quit\<close>: someone other than \<open>stop\<close> has called \<open>quit\<close> on the loop; \<open>threw\<close>: a handler of
  the loop has thrown; \<open>deleting\<close>: the destructor has been called; \<open>detached\<close>: it let the thread go.
\<close>

record loop_thread =
  caller :: caller_pc
  thread :: thread_pc
  io_started :: bool
  thread_started :: bool
  join_called :: bool
  latch_count :: int
  tid_known :: bool
  loop_set :: bool
  loop_lives :: bool
  quit_posted :: bool
  user_quit :: bool
  threw :: bool
  deleting :: bool
  detached :: bool
  faulted :: "fault option"

definition IOLoopThread_new :: loop_thread where
  "IOLoopThread_new = \<lparr>caller = C_Ready, thread = T_None, io_started = False, thread_started = False,
     join_called = False, latch_count = 1, tid_known = False, loop_set = False, loop_lives = False,
     quit_posted = False, user_quit = False, threw = False, deleting = False, detached = False, faulted = None\<rparr>"

section \<open>Operations\<close>

definition fail_with :: "fault \<Rightarrow> loop_thread \<Rightarrow> loop_thread" where
  "fail_with e s = s\<lparr>faulted := Some e\<rparr>"

text \<open>\<open>Thread::start\<close> up to the wait on the latch.\<close>

definition Thread_start :: "loop_thread \<Rightarrow> loop_thread" where
  "Thread_start s = (if thread_started s then fail_with Assert_Failed s
     else s\<lparr>thread_started := True, thread := T_Entry, caller := C_Latch\<rparr>)"

definition IOLoopThread_start :: "loop_thread \<Rightarrow> loop_thread" where
  "IOLoopThread_start s = (if io_started s \<or> thread_started s then fail_with Assert_Failed s
     else Thread_start (s\<lparr>io_started := True\<rparr>))"

text \<open>\<open>CountDownLatch\<close>; \<open>notify_all\<close> ends the caller's sleep.\<close>

definition latch_wait :: "loop_thread \<Rightarrow> loop_thread" where
  "latch_wait s = (if latch_count s > 0 then s\<lparr>caller := C_Latch_Asleep\<rparr>
     else if \<not> tid_known s then fail_with Assert_Failed s
     else s\<lparr>caller := C_Loop\<rparr>)"

definition countDown :: "loop_thread \<Rightarrow> loop_thread" where
  "countDown s =
     (let s = s\<lparr>latch_count := latch_count s - 1\<rparr> in
      if latch_count s = 0 \<and> caller s = C_Latch_Asleep then s\<lparr>caller := C_Latch\<rparr> else s)"

definition getCount :: "loop_thread \<Rightarrow> int" where
  "getCount s = latch_count s"

definition loop_wait :: "loop_thread \<Rightarrow> loop_thread" where
  "loop_wait s = (if \<not> loop_set s then s\<lparr>caller := C_Loop_Asleep\<rparr> else s\<lparr>caller := C_Running\<rparr>)"

definition publish_loop :: "loop_thread \<Rightarrow> loop_thread" where
  "publish_loop s = s\<lparr>loop_set := True,
     caller := (if caller s = C_Loop_Asleep then C_Loop else caller s)\<rparr>"

text \<open>\<open>IOLoop::quit\<close> through a pointer to the loop.\<close>

definition loop_quit :: "loop_thread \<Rightarrow> loop_thread" where
  "loop_quit s = (if loop_lives s then s\<lparr>quit_posted := True\<rparr> else fail_with Use_After_Free s)"

definition IOLoopThread_stop :: "loop_thread \<Rightarrow> loop_thread" where
  "IOLoopThread_stop s = s\<lparr>io_started := False, caller := (if loop_set s then C_Quitting else C_Unjoined)\<rparr>"

text \<open>\<open>stop\<close> reads \<open>loop_\<close> a second time to call \<open>quit\<close>, without the mutex.\<close>

definition stop_reads :: "loop_thread \<Rightarrow> loop_thread" where
  "stop_reads s = (if loop_set s then s\<lparr>caller := C_Calling\<rparr> else fail_with Null_Pointer s)"

definition stop_quit :: "loop_thread \<Rightarrow> loop_thread" where
  "stop_quit s = loop_quit (s\<lparr>caller := C_Joining\<rparr>)"

definition Thread_join :: "loop_thread \<Rightarrow> loop_thread" where
  "Thread_join s = (if \<not> thread_started s \<or> join_called s then fail_with Assert_Failed s
     else s\<lparr>join_called := True, caller := C_Stopped\<rparr>)"

text \<open>
  The destructors: of \<open>IOLoopThread\<close>, which stops a started thread, and then of its members, the
  mutex, the condition and the \<open>Thread\<close>, which is detached unless it was joined.
\<close>

definition IOLoopThread_delete :: "loop_thread \<Rightarrow> loop_thread" where
  "IOLoopThread_delete s = (let s = s\<lparr>deleting := True\<rparr> in if io_started s then IOLoopThread_stop s else s)"

definition Thread_delete :: "loop_thread \<Rightarrow> loop_thread" where
  "Thread_delete s = (if thread_started s \<and> \<not> join_called s then s\<lparr>detached := True\<rparr> else s)"

definition delete_members :: "loop_thread \<Rightarrow> loop_thread" where
  "delete_members s = Thread_delete (s\<lparr>caller := C_Destroyed\<rparr>)"

text \<open>A step of the new thread on members of the \<open>IOLoopThread\<close> or its \<open>Thread\<close>.\<close>

definition on_members :: "loop_thread \<Rightarrow> loop_thread \<Rightarrow> loop_thread" where
  "on_members s s' = (if caller s = C_Destroyed then fail_with Use_After_Free s else s')"

text \<open>
  The next step of the new thread: \<open>runInThread\<close> up to the call of its function, then
  \<open>threadFunc\<close>; \<open>None\<close> when it has none, as inside a loop that nobody has quit.
\<close>

definition runInThread :: "loop_thread \<Rightarrow> loop_thread option" where
  "runInThread s = (case thread s of
       T_Entry \<Rightarrow> Some (on_members s (s\<lparr>tid_known := True, thread := T_Id\<rparr>))
     | T_Id \<Rightarrow> Some (on_members s (countDown (s\<lparr>thread := T_Counted\<rparr>)))
     | _ \<Rightarrow> None)"

definition threadFunc :: "loop_thread \<Rightarrow> loop_thread option" where
  "threadFunc s = (case thread s of
       T_Counted \<Rightarrow> Some (s\<lparr>loop_lives := True, thread := T_Built\<rparr>)
     | T_Built \<Rightarrow> Some (on_members s (publish_loop (s\<lparr>thread := T_Looping\<rparr>)))
     | T_Looping \<Rightarrow> if quit_posted s then Some (s\<lparr>thread := T_Returned\<rparr>) else None
     | T_Returned \<Rightarrow> Some (on_members s (s\<lparr>loop_set := False, thread := T_Cleared\<rparr>))
     | T_Cleared \<Rightarrow> Some (on_members s (s\<lparr>loop_lives := False, thread := T_Gone\<rparr>))
     | _ \<Rightarrow> None)"

text \<open>
  An exception leaves \<open>IOLoop::loop\<close>, which has no handler for one: the loop is destroyed and the
  handler of \<open>runInThread\<close> logs it as fatal.
\<close>

definition runInThread_catch :: "loop_thread \<Rightarrow> loop_thread" where
  "runInThread_catch s = fail_with Fatal_Log (s\<lparr>threw := True, loop_lives := False\<rparr>)"

inductive lt_step :: "loop_thread \<Rightarrow> loop_thread \<Rightarrow> bool" where
  start: "caller s = C_Ready \<Longrightarrow> \<not> deleting s \<Longrightarrow> faulted s = None \<Longrightarrow> lt_step s (IOLoopThread_start s)"
| latch: "caller s = C_Latch \<Longrightarrow> faulted s = None \<Longrightarrow> lt_step s (latch_wait s)"
| wait_loop: "caller s = C_Loop \<Longrightarrow> faulted s = None \<Longrightarrow> lt_step s (loop_wait s)"
| user: "caller s = C_Running \<Longrightarrow> faulted s = None \<Longrightarrow> lt_step s (loop_quit (s\<lparr>user_quit := True\<rparr>))"
| stop: "caller s = C_Running \<Longrightarrow> faulted s = None \<Longrightarrow> lt_step s (IOLoopThread_stop s)"
| reads: "caller s = C_Quitting \<Longrightarrow> faulted s = None \<Longrightarrow> lt_step s (stop_reads s)"
| quit: "caller s = C_Calling \<Longrightarrow> faulted s = None \<Longrightarrow> lt_step s (stop_quit s)"
| join: "caller s = C_Joining \<Longrightarrow> thread s = T_Gone \<Longrightarrow> faulted s = None \<Longrightarrow> lt_step s (Thread_join s)"
| delete: "caller s \<in> {C_Ready, C_Running, C_Stopped, C_Unjoined} \<Longrightarrow> \<not> deleting s \<Longrightarrow> faulted s = None \<Longrightarrow>
    lt_step s (IOLoopThread_delete s)"
| members: "caller s \<in> {C_Ready, C_Stopped, C_Unjoined} \<Longrightarrow> deleting s \<Longrightarrow> faulted s = None \<Longrightarrow>
    lt_step s (delete_members s)"
| run_in_thread: "runInThread s = Some s' \<Longrightarrow> faulted s = None \<Longrightarrow> lt_step s s'"
| thread_func: "threadFunc s = Some s' \<Longrightarrow> faulted s = None \<Longrightarrow> lt_step s s'"

text \<open>A condition variable may wake its waiter without a notification, and a handler may throw.\<close>

inductive spurious :: "loop_thread \<Rightarrow> loop_thread \<Rightarrow> bool" where
  wake_latch: "caller s = C_Latch_Asleep \<Longrightarrow> faulted s = None \<Longrightarrow> spurious s (s\<lparr>caller := C_Latch\<rparr>)"
| wake_loop: "caller s = C_Loop_Asleep \<Longrightarrow> faulted s = None \<Longrightarrow> spurious s (s\<lparr>caller := C_Loop\<rparr>)"
| throws: "thread s = T_Looping \<Longrightarrow> faulted s = None \<Longrightarrow> spurious s (runInThread_catch s)"

inductive lt_reachable :: "loop_thread \<Rightarrow> bool" where
  init: "lt_reachable IOLoopThread_new"
| step: "lt_reachable s \<Longrightarrow> lt_step s s' \<Longrightarrow> lt_reachable s'"
| wake: "lt_reachable s \<Longrightarrow> spurious s s' \<Longrightarrow> lt_reachable s'"

inductive_cases lt_stepE: "lt_step s s'"
inductive_cases spuriousE: "spurious s s'"

lemmas lt_defs = IOLoopThread_new_def fail_with_def Thread_start_def IOLoopThread_start_def latch_wait_def
  countDown_def loop_wait_def publish_loop_def loop_quit_def IOLoopThread_stop_def stop_reads_def stop_quit_def Thread_join_def
  IOLoopThread_delete_def Thread_delete_def delete_members_def on_members_def runInThread_catch_def Let_def

lemma thread_steps:
  assumes "faulted s = None" and "caller s \<noteq> C_Destroyed"
  shows "thread s = T_Entry \<Longrightarrow> lt_step s (s\<lparr>tid_known := True, thread := T_Id\<rparr>)"
    "thread s = T_Id \<Longrightarrow> lt_step s (countDown (s\<lparr>thread := T_Counted\<rparr>))"
    "thread s = T_Counted \<Longrightarrow> lt_step s (s\<lparr>loop_lives := True, thread := T_Built\<rparr>)"
    "thread s = T_Built \<Longrightarrow> lt_step s (publish_loop (s\<lparr>thread := T_Looping\<rparr>))"
    "thread s = T_Looping \<Longrightarrow> quit_posted s \<Longrightarrow> lt_step s (s\<lparr>thread := T_Returned\<rparr>)"
    "thread s = T_Returned \<Longrightarrow> lt_step s (s\<lparr>loop_set := False, thread := T_Cleared\<rparr>)"
    "thread s = T_Cleared \<Longrightarrow> lt_step s (s\<lparr>loop_lives := False, thread := T_Gone\<rparr>)"
  using assms by (auto intro: lt_step.run_in_thread lt_step.thread_func simp: runInThread_def threadFunc_def on_members_def)

lemma runInThread_disj:
  "runInThread s = Some s' \<Longrightarrow>
     thread s = T_Entry \<and> s' = on_members s (s\<lparr>tid_known := True, thread := T_Id\<rparr>) \<or>
     thread s = T_Id \<and> s' = on_members s (countDown (s\<lparr>thread := T_Counted\<rparr>))"
  by (unfold runInThread_def, cases "thread s") (simp_all split: if_split_asm)

lemma runInThread_cases:
  assumes "runInThread s = Some s'"
  obtains "thread s = T_Entry" "s' = on_members s (s\<lparr>tid_known := True, thread := T_Id\<rparr>)"
  | "thread s = T_Id" "s' = on_members s (countDown (s\<lparr>thread := T_Counted\<rparr>))"
  using runInThread_disj [OF assms] that by blast

lemma threadFunc_disj:
  "threadFunc s = Some s' \<Longrightarrow>
     thread s = T_Counted \<and> s' = s\<lparr>loop_lives := True, thread := T_Built\<rparr> \<or>
     thread s = T_Built \<and> s' = on_members s (publish_loop (s\<lparr>thread := T_Looping\<rparr>)) \<or>
     thread s = T_Looping \<and> quit_posted s \<and> s' = s\<lparr>thread := T_Returned\<rparr> \<or>
     thread s = T_Returned \<and> s' = on_members s (s\<lparr>loop_set := False, thread := T_Cleared\<rparr>) \<or>
     thread s = T_Cleared \<and> s' = on_members s (s\<lparr>loop_lives := False, thread := T_Gone\<rparr>)"
  by (unfold threadFunc_def, cases "thread s") (simp_all split: if_split_asm)

lemma threadFunc_cases:
  assumes "threadFunc s = Some s'"
  obtains "thread s = T_Counted" "s' = s\<lparr>loop_lives := True, thread := T_Built\<rparr>"
  | "thread s = T_Built" "s' = on_members s (publish_loop (s\<lparr>thread := T_Looping\<rparr>))"
  | "thread s = T_Looping" "quit_posted s" "s' = s\<lparr>thread := T_Returned\<rparr>"
  | "thread s = T_Returned" "s' = on_members s (s\<lparr>loop_set := False, thread := T_Cleared\<rparr>)"
  | "thread s = T_Cleared" "s' = on_members s (s\<lparr>loop_lives := False, thread := T_Gone\<rparr>)"
  using threadFunc_disj [OF assms] that by blast

section \<open>Invariant\<close>

text \<open>Where the new thread is says what it has done; the caller is asleep only before the event it waits for.\<close>

definition thread_ok :: "loop_thread \<Rightarrow> bool" where
  "thread_ok s \<longleftrightarrow>
     (thread_started s \<longleftrightarrow> thread s \<noteq> T_None) \<and>
     (tid_known s \<longleftrightarrow> thread s \<notin> {T_None, T_Entry}) \<and>
     latch_count s = (if thread s \<in> {T_None, T_Entry, T_Id} then 1 else 0) \<and>
     (loop_lives s \<longleftrightarrow> thread s \<in> {T_Built, T_Looping, T_Returned, T_Cleared}) \<and>
     (loop_set s \<longleftrightarrow> thread s \<in> {T_Looping, T_Returned}) \<and>
     (thread s \<in> {T_Returned, T_Cleared, T_Gone} \<longrightarrow> quit_posted s)"

definition caller_ok :: "loop_thread \<Rightarrow> bool" where
  "caller_ok s \<longleftrightarrow> (case caller s of
     C_Ready \<Rightarrow> thread s = T_None \<and> \<not> io_started s \<and> \<not> join_called s \<and> \<not> quit_posted s \<and> \<not> user_quit s
   | C_Latch \<Rightarrow> thread s \<noteq> T_None \<and> io_started s \<and> \<not> join_called s \<and> \<not> quit_posted s \<and> \<not> user_quit s
   | C_Latch_Asleep \<Rightarrow> thread s \<in> {T_Entry, T_Id} \<and> io_started s \<and> \<not> join_called s \<and> \<not> quit_posted s \<and> \<not> user_quit s
   | C_Loop \<Rightarrow> thread s \<notin> {T_None, T_Entry, T_Id} \<and> io_started s \<and> \<not> join_called s \<and> \<not> quit_posted s \<and> \<not> user_quit s
   | C_Loop_Asleep \<Rightarrow> thread s \<in> {T_Counted, T_Built} \<and> io_started s \<and> \<not> join_called s \<and> \<not> quit_posted s \<and> \<not> user_quit s
   | C_Running \<Rightarrow> thread s \<in> {T_Looping, T_Returned, T_Cleared, T_Gone} \<and> io_started s \<and> \<not> join_called s \<and>
       (quit_posted s \<longrightarrow> user_quit s)
   | C_Quitting \<Rightarrow> thread s \<in> {T_Looping, T_Returned, T_Cleared, T_Gone} \<and> \<not> io_started s \<and> \<not> join_called s \<and>
       (quit_posted s \<longrightarrow> user_quit s)
   | C_Calling \<Rightarrow> thread s \<in> {T_Looping, T_Returned, T_Cleared, T_Gone} \<and> \<not> io_started s \<and> \<not> join_called s \<and>
       (quit_posted s \<longrightarrow> user_quit s)
   | C_Joining \<Rightarrow> thread s \<in> {T_Looping, T_Returned, T_Cleared, T_Gone} \<and> \<not> io_started s \<and> \<not> join_called s \<and> quit_posted s
   | C_Stopped \<Rightarrow> thread s = T_Gone \<and> \<not> io_started s \<and> join_called s
   | C_Unjoined \<Rightarrow> thread s \<in> {T_Looping, T_Returned, T_Cleared, T_Gone} \<and> \<not> io_started s \<and> \<not> join_called s \<and> user_quit s
   | C_Destroyed \<Rightarrow> \<not> io_started s \<and> (join_called s \<longrightarrow> thread s = T_Gone) \<and>
       (\<not> join_called s \<longrightarrow> thread s = T_None \<or> user_quit s))"

definition delete_ok :: "loop_thread \<Rightarrow> bool" where
  "delete_ok s \<longleftrightarrow>
     (deleting s \<longrightarrow> caller s \<in> {C_Ready, C_Quitting, C_Calling, C_Joining, C_Stopped, C_Unjoined, C_Destroyed}) \<and>
     (caller s = C_Destroyed \<longrightarrow> deleting s) \<and>
     (detached s \<longrightarrow> user_quit s) \<and> \<not> threw s"

definition lt_ok :: "loop_thread \<Rightarrow> bool" where
  "lt_ok s \<longleftrightarrow> (faulted s = None \<longrightarrow> thread_ok s \<and> caller_ok s \<and> delete_ok s) \<and>
     (faulted s \<noteq> None \<longrightarrow> user_quit s \<and> faulted s \<in> {Some Use_After_Free, Some Null_Pointer} \<or> threw s \<and> faulted s = Some Fatal_Log)"

lemmas ok_defs = thread_ok_def caller_ok_def delete_ok_def

text \<open>A step of the new thread; on a destroyed object it is a fault, and only after another \<open>quit\<close>.\<close>

lemma thread_step_ok:
  assumes "thread_ok s" and "caller_ok s" and "delete_ok s" and "faulted s = None" and "lt_ok s'"
    and "thread s \<notin> {T_None, T_Gone}"
  shows "lt_ok (on_members s s')"
  using assms by (cases "caller s = C_Destroyed") (auto simp: on_members_def fail_with_def lt_ok_def caller_ok_def)

lemma lt_step_ok:
  assumes st: "lt_step s s'" and ok: "lt_ok s"
  shows "lt_ok s'"
proof -
  have f: "faulted s = None" using st by (cases rule: lt_step.cases) auto
  then have inv: "thread_ok s" "caller_ok s" "delete_ok s" using ok by (simp_all add: lt_ok_def)
  note goal = lt_ok_def ok_defs f
  show ?thesis using st
  proof (cases rule: lt_step.cases)
    case start
    then show ?thesis using inv by (simp add: goal IOLoopThread_start_def Thread_start_def)
  next
    case latch
    then show ?thesis using inv by (cases "thread s") (simp_all add: goal latch_wait_def)
  next
    case wait_loop
    then show ?thesis using inv by (cases "thread s") (simp_all add: goal loop_wait_def)
  next
    case user
    then show ?thesis using inv by (cases "thread s") (simp_all add: goal loop_quit_def fail_with_def)
  next
    case stop
    then show ?thesis using inv by (cases "thread s") (simp_all add: goal IOLoopThread_stop_def)
  next
    case reads
    then show ?thesis using inv by (cases "thread s") (simp_all add: goal stop_reads_def fail_with_def)
  next
    case quit
    then show ?thesis using inv by (cases "thread s") (simp_all add: goal stop_quit_def loop_quit_def fail_with_def)
  next
    case join
    then show ?thesis using inv by (simp add: goal Thread_join_def)
  next
    case delete
    then show ?thesis using inv
      by (cases "caller s"; cases "thread s"; simp add: goal IOLoopThread_delete_def IOLoopThread_stop_def)
  next
    case members
    then show ?thesis using inv by (cases "caller s"; cases "thread s"; simp add: goal delete_members_def Thread_delete_def)
  next
    case run_in_thread
    from run_in_thread(1) show ?thesis
    proof (cases rule: runInThread_cases)
      case 1
      then have "lt_ok (s\<lparr>tid_known := True, thread := T_Id\<rparr>)" using inv by (cases "caller s") (simp_all add: goal)
      then show ?thesis using thread_step_ok [OF inv f] 1 by simp
    next
      case 2
      then have "lt_ok (countDown (s\<lparr>thread := T_Counted\<rparr>))"
        using inv by (cases "caller s") (simp_all add: goal countDown_def)
      then show ?thesis using thread_step_ok [OF inv f] 2 by simp
    qed
  next
    case thread_func
    from thread_func(1) show ?thesis
    proof (cases rule: threadFunc_cases)
      case 1
      then show ?thesis using inv by (cases "caller s") (simp_all add: goal)
    next
      case 2
      then have "lt_ok (publish_loop (s\<lparr>thread := T_Looping\<rparr>))"
        using inv by (cases "caller s") (simp_all add: goal publish_loop_def)
      then show ?thesis using thread_step_ok [OF inv f] 2 by simp
    next
      case 3
      then show ?thesis using inv by (cases "caller s") (simp_all add: goal)
    next
      case 4
      then have "lt_ok (s\<lparr>loop_set := False, thread := T_Cleared\<rparr>)" using inv by (cases "caller s") (simp_all add: goal)
      then show ?thesis using thread_step_ok [OF inv f] 4 by simp
    next
      case 5
      then have "lt_ok (s\<lparr>loop_lives := False, thread := T_Gone\<rparr>)" using inv by (cases "caller s") (simp_all add: goal)
      then show ?thesis using thread_step_ok [OF inv f] 5 by simp
    qed
  qed
qed

lemma spurious_ok:
  assumes st: "spurious s s'" and ok: "lt_ok s"
  shows "lt_ok s'"
  using st
proof (cases rule: spurious.cases)
  case wake_latch
  then show ?thesis using ok by (auto simp: lt_ok_def ok_defs)
next
  case wake_loop
  then show ?thesis using ok by (auto simp: lt_ok_def ok_defs)
next
  case throws
  then show ?thesis using ok by (simp add: lt_ok_def runInThread_catch_def fail_with_def)
qed

lemma reachable_ok: "lt_reachable s \<Longrightarrow> lt_ok s"
proof (induction rule: lt_reachable.induct)
  case init
  then show ?case by (simp add: lt_ok_def thread_ok_def caller_ok_def delete_ok_def IOLoopThread_new_def)
qed (auto intro: lt_step_ok spurious_ok)

section \<open>A run\<close>

text \<open>A started thread whose caller got its loop, in a run without sleeps; then the loop is quit.\<close>

definition running_thread :: "thread_pc \<Rightarrow> bool \<Rightarrow> loop_thread" where
  "running_thread t u = \<lparr>caller = C_Running, thread = t, io_started = True, thread_started = True,
     join_called = False, latch_count = 0, tid_known = True, loop_set = (t \<in> {T_Looping, T_Returned}),
     loop_lives = (t \<noteq> T_Gone), quit_posted = u, user_quit = u, threw = False, deleting = False, detached = False, faulted = None\<rparr>"

lemma running_reachable: "lt_reachable (running_thread T_Looping False)"
proof -
  let ?s = "\<lambda>c t l i ls ll. \<lparr>caller = c, thread = t, io_started = True, thread_started = True, join_called = False,
     latch_count = l, tid_known = i, loop_set = ls, loop_lives = ll, quit_posted = False, user_quit = False, threw = False, deleting = False, detached = False, faulted = None\<rparr>"
  have "lt_reachable (?s C_Latch T_Entry 1 False False False)"
    using lt_reachable.step [OF lt_reachable.init lt_step.start] by (simp add: lt_defs)
  from lt_reachable.step [OF this thread_steps(1)] have "lt_reachable (?s C_Latch T_Id 1 True False False)" by simp
  from lt_reachable.step [OF this thread_steps(2)] have "lt_reachable (?s C_Latch T_Counted 0 True False False)" by (simp add: lt_defs)
  from lt_reachable.step [OF this thread_steps(3)] have "lt_reachable (?s C_Latch T_Built 0 True False True)" by simp
  from lt_reachable.step [OF this thread_steps(4)] have "lt_reachable (?s C_Latch T_Looping 0 True True True)" by (simp add: lt_defs)
  from lt_reachable.step [OF this lt_step.latch] have "lt_reachable (?s C_Loop T_Looping 0 True True True)" by (simp add: lt_defs)
  from lt_reachable.step [OF this lt_step.wait_loop] show ?thesis by (simp add: lt_defs running_thread_def)
qed

section \<open>Properties\<close>

lemma reachable_safe:
  assumes "lt_reachable s" and "\<not> user_quit s" and "\<not> threw s"
  shows "faulted s = None" "thread_ok s" "caller_ok s" "delete_ok s"
  using reachable_ok [OF assms(1)] assms(2,3) by (simp_all add: lt_ok_def)

text \<open>
  C15: the start, stop and destruction of a loop thread are safe.  As long as only \<open>stop\<close> quits the
  loop and no handler throws, no assertion fails and no dead loop or destroyed member is touched in any
  interleaving, wake-ups without a notification included; when \<open>start\<close> has returned, the thread's id
  is known and the loop it returned is alive; when \<open>stop\<close> has returned, the thread has ended and been
  joined; when the destructor has returned, no thread is left behind.
\<close>

theorem loop_thread_safe:
  assumes "lt_reachable s" and "\<not> user_quit s" and "\<not> threw s"
  shows "faulted s = None \<and> (caller s = C_Running \<longrightarrow> tid_known s \<and> loop_set s \<and> loop_lives s) \<and>
    (caller s = C_Stopped \<longrightarrow> thread s = T_Gone \<and> join_called s \<and> \<not> loop_lives s) \<and> caller s \<noteq> C_Unjoined \<and>
    (caller s = C_Destroyed \<longrightarrow> thread s \<in> {T_None, T_Gone} \<and> \<not> loop_lives s \<and> \<not> detached s)"
  using reachable_safe [OF assms] assms(2)
  by (cases "thread s") (simp_all add: thread_ok_def caller_ok_def delete_ok_def, auto)

theorem loop_thread_safe_witness:
  "faulted (running_thread T_Looping False) = None \<and> tid_known (running_thread T_Looping False) \<and>
   loop_set (running_thread T_Looping False) \<and> loop_lives (running_thread T_Looping False)"
  using loop_thread_safe [OF running_reachable] by (simp add: running_thread_def)

fun caller_rank :: "caller_pc \<Rightarrow> nat" where
  "caller_rank C_Ready = 11" | "caller_rank C_Latch = 10" | "caller_rank C_Latch_Asleep = 9"
| "caller_rank C_Loop = 8" | "caller_rank C_Loop_Asleep = 7" | "caller_rank C_Running = 6"
| "caller_rank C_Quitting = 5" | "caller_rank C_Calling = 4" | "caller_rank C_Joining = 3" | "caller_rank C_Stopped = 2" | "caller_rank C_Unjoined = 2"
| "caller_rank C_Destroyed = 1"

fun thread_rank :: "thread_pc \<Rightarrow> nat" where
  "thread_rank T_None = 9" | "thread_rank T_Entry = 8" | "thread_rank T_Id = 7" | "thread_rank T_Counted = 6"
| "thread_rank T_Built = 5" | "thread_rank T_Looping = 4" | "thread_rank T_Returned = 3"
| "thread_rank T_Cleared = 2" | "thread_rank T_Gone = 1"

text \<open>A notification costs the new thread one step and gives the caller one back.\<close>

definition lt_rank :: "loop_thread \<Rightarrow> nat" where
  "lt_rank s = 2 * (caller_rank (caller s) + 3 * thread_rank (thread s)) + (if deleting s then 0 else 1)"

lemma thread_can_step:
  assumes "thread s \<in> {T_Entry, T_Id, T_Counted, T_Built, T_Returned, T_Cleared} \<or> thread s = T_Looping \<and> quit_posted s"
    and "faulted s = None" and "caller s \<noteq> C_Destroyed"
  shows "\<exists>s'. lt_step s s'"
  using assms(1) thread_steps [OF assms(2,3)] by blast

lemma lt_step_rank:
  assumes st: "lt_step s s'" and c: "caller s \<notin> {C_Ready, C_Running} \<or> deleting s \<and> caller s \<noteq> C_Running" and f: "faulted s' = None"
    and io: "io_started s \<longrightarrow> caller s \<notin> {C_Ready, C_Stopped, C_Unjoined}"
  shows "lt_rank s' < lt_rank s"
  using st
proof (cases rule: lt_step.cases)
  case run_in_thread
  from run_in_thread(1) show ?thesis using f by (cases rule: runInThread_cases) (auto simp: lt_rank_def lt_defs split: if_splits)
next
  case thread_func
  from thread_func(1) show ?thesis using f by (cases rule: threadFunc_cases) (auto simp: lt_rank_def lt_defs split: if_splits)
qed (use c f io in \<open>auto simp: lt_rank_def lt_defs split: if_splits\<close>)

lemma quiet_step:
  assumes "lt_step s s'" and "caller s \<noteq> C_Running"
  shows "user_quit s' = user_quit s" "threw s' = threw s"
proof -
  have "user_quit s' = user_quit s \<and> threw s' = threw s"
    using assms(1)
  proof (cases rule: lt_step.cases)
    case run_in_thread
    from run_in_thread(1) show ?thesis by (cases rule: runInThread_cases) (auto simp: lt_defs)
  next
    case thread_func
    from thread_func(1) show ?thesis by (cases rule: threadFunc_cases) (auto simp: lt_defs)
  qed (use assms(2) in \<open>auto simp: lt_defs\<close>)
  then show "user_quit s' = user_quit s" "threw s' = threw s" by simp_all
qed

text \<open>
  C16: \<open>start\<close>, \<open>stop\<close> and the destructor return.  As long as only \<open>stop\<close> quits the loop and no
  handler throws, whenever the caller is inside one of them one of the two threads can take a step,
  and every step brings the return nearer: no notification is lost and no call waits for ever.
\<close>

theorem loop_thread_progress:
  assumes "lt_reachable s" and "\<not> user_quit s" and "\<not> threw s" and "caller s \<noteq> C_Destroyed"
    and "caller s \<notin> {C_Ready, C_Running, C_Stopped} \<or> deleting s"
  shows "(\<exists>s'. lt_step s s') \<and> (\<forall>s'. lt_step s s' \<longrightarrow> lt_rank s' < lt_rank s)"
proof -
  note ok = reachable_safe [OF assms(1-3)]
  have running: "caller s \<noteq> C_Running" using ok(4) assms(5) by (auto simp: delete_ok_def)
  have "\<exists>s'. lt_step s s'"
  proof (cases "caller s \<in> {C_Latch, C_Loop, C_Quitting, C_Calling} \<or> deleting s \<and> caller s \<in> {C_Ready, C_Stopped}")
    case True
    then show ?thesis using ok(1) by (auto intro: lt_step.intros)
  next
    case False
    then consider "caller s = C_Latch_Asleep" | "caller s = C_Loop_Asleep" | "caller s = C_Joining" | "caller s = C_Unjoined"
      using assms(4,5) running by (cases "caller s") auto
    then show ?thesis
    proof cases
      case 3
      then have "thread s \<in> {T_Looping, T_Returned, T_Cleared, T_Gone}" "quit_posted s"
        using ok(3) by (simp_all add: caller_ok_def)
      then show ?thesis using 3 ok(1) by (cases "thread s = T_Gone") (auto intro: lt_step.join thread_can_step)
    qed (use ok assms(2) in \<open>auto simp: caller_ok_def intro!: thread_can_step\<close>)
  qed
  moreover have "lt_rank s' < lt_rank s" if st: "lt_step s s'" for s'
  proof -
    have "faulted s' = None"
      using reachable_safe(1) [OF lt_reachable.step [OF assms(1) st]] quiet_step [OF st running] assms(2,3) by simp
    moreover have "io_started s \<longrightarrow> caller s \<notin> {C_Ready, C_Stopped, C_Unjoined}" using ok(3) by (auto simp: caller_ok_def)
    ultimately show ?thesis using lt_step_rank [OF st] assms(5) running by auto
  qed
  ultimately show ?thesis by blast
qed

theorem loop_thread_progress_witness:
  "\<exists>s'. lt_step (IOLoopThread_start IOLoopThread_new) s' \<and> lt_rank s' < lt_rank (IOLoopThread_start IOLoopThread_new)"
proof -
  have "lt_reachable (IOLoopThread_start IOLoopThread_new)"
    by (rule lt_reachable.step [OF lt_reachable.init lt_step.start]) (simp_all add: lt_defs)
  from loop_thread_progress [OF this] show ?thesis by (auto simp: lt_defs)
qed

text \<open>
  \<open>stop\<close> after another \<open>quit\<close>.  When someone else has quit the loop, \<open>stop\<close> can
  find the pointer set and read null the second time; or read it in time, and call \<open>quit\<close> on a loop
  that has been destroyed in between; or find it null at once, and return without joining the thread;
  the destructor then detaches a thread that goes on to use its mutex.
\<close>

theorem stop_after_quit:
  "(\<exists>s. lt_reachable s \<and> faulted s = Some Null_Pointer) \<and>
   (\<exists>s. lt_reachable s \<and> faulted s = Some Use_After_Free \<and> \<not> deleting s) \<and>
   (\<exists>s. lt_reachable s \<and> caller s = C_Unjoined \<and> \<not> join_called s \<and> loop_lives s) \<and>
   (\<exists>s. lt_reachable s \<and> caller s = C_Destroyed \<and> detached s \<and> faulted s = Some Use_After_Free)"
proof -
  let ?q = "running_thread T_Looping True"
  from lt_reachable.step [OF running_reachable lt_step.user] have q: "lt_reachable ?q"
    by (simp add: lt_defs running_thread_def)
  have dies: "lt_reachable (?q\<lparr>io_started := False, caller := c, thread := T_Cleared, loop_set := False\<rparr>) \<and>
      lt_reachable (?q\<lparr>io_started := False, caller := c, thread := T_Gone, loop_set := False, loop_lives := False\<rparr>)"
    if r: "lt_reachable (?q\<lparr>io_started := False, caller := c\<rparr>)" and c: "c \<noteq> C_Destroyed" for c
  proof -
    from lt_reachable.step [OF r thread_steps(5)]
    have "lt_reachable (?q\<lparr>io_started := False, caller := c, thread := T_Returned\<rparr>)" using c by (simp add: running_thread_def)
    from lt_reachable.step [OF this thread_steps(6)]
    have 1: "lt_reachable (?q\<lparr>io_started := False, caller := c, thread := T_Cleared, loop_set := False\<rparr>)"
      using c by (simp add: running_thread_def)
    from lt_reachable.step [OF this thread_steps(7)]
    show ?thesis using 1 c by (simp add: running_thread_def)
  qed
  from lt_reachable.step [OF q lt_step.stop] have quitting: "lt_reachable (?q\<lparr>io_started := False, caller := C_Quitting\<rparr>)"
    by (simp add: lt_defs running_thread_def)
  from lt_reachable.step [OF this lt_step.reads] have calling: "lt_reachable (?q\<lparr>io_started := False, caller := C_Calling\<rparr>)"
    by (simp add: lt_defs running_thread_def)
  have "lt_reachable (stop_reads (?q\<lparr>io_started := False, caller := C_Quitting, thread := T_Cleared, loop_set := False\<rparr>))"
    using dies [OF quitting] by (intro lt_reachable.step [OF _ lt_step.reads]) (simp_all add: running_thread_def)
  then have "\<exists>s. lt_reachable s \<and> faulted s = Some Null_Pointer"
    by (intro exI conjI, assumption) (simp add: lt_defs running_thread_def)
  moreover have "lt_reachable (stop_quit (?q\<lparr>io_started := False, caller := C_Calling, thread := T_Gone, loop_set := False, loop_lives := False\<rparr>))"
    using dies [OF calling] by (intro lt_reachable.step [OF _ lt_step.quit]) (simp_all add: running_thread_def)
  then have "\<exists>s. lt_reachable s \<and> faulted s = Some Use_After_Free \<and> \<not> deleting s"
    by (intro exI conjI, assumption) (simp_all add: lt_defs running_thread_def)
  moreover from lt_reachable.step [OF q thread_steps(5)]
  have "lt_reachable (?q\<lparr>thread := T_Returned\<rparr>)" by (simp add: running_thread_def)
  from lt_reachable.step [OF this thread_steps(6)]
  have "lt_reachable (?q\<lparr>thread := T_Cleared, loop_set := False\<rparr>)" by (simp add: running_thread_def)
  from lt_reachable.step [OF this lt_step.stop]
  have "lt_reachable (?q\<lparr>thread := T_Cleared, loop_set := False, io_started := False, caller := C_Unjoined\<rparr>)"
    by (simp add: lt_defs running_thread_def)
  then have "\<exists>s. lt_reachable s \<and> caller s = C_Unjoined \<and> \<not> join_called s \<and> loop_lives s"
    by (intro exI conjI, assumption) (simp_all add: running_thread_def)
  moreover from lt_reachable.step [OF \<open>lt_reachable (?q\<lparr>thread := T_Cleared, loop_set := False\<rparr>)\<close> lt_step.delete]
  have "lt_reachable (?q\<lparr>thread := T_Cleared, loop_set := False, io_started := False, caller := C_Unjoined, deleting := True\<rparr>)"
    by (simp add: lt_defs running_thread_def)
  from lt_reachable.step [OF this lt_step.members]
  have "lt_reachable (?q\<lparr>thread := T_Cleared, loop_set := False, io_started := False, caller := C_Destroyed,
      deleting := True, detached := True\<rparr>)"
    by (simp add: lt_defs running_thread_def)
  from lt_reachable.step [OF this lt_step.thread_func]
  have "lt_reachable (fail_with Use_After_Free (?q\<lparr>thread := T_Cleared, loop_set := False, io_started := False, caller := C_Destroyed,
      deleting := True, detached := True\<rparr>))"
    by (simp add: threadFunc_def on_members_def running_thread_def)
  then have "\<exists>s. lt_reachable s \<and> caller s = C_Destroyed \<and> detached s \<and> faulted s = Some Use_After_Free"
    by (intro exI conjI, assumption) (simp_all add: fail_with_def running_thread_def)
  ultimately show ?thesis by blast
qed

end
