(* ===== verification/File_IO.thy ===== *)
theory File_IO
  imports Prelude
begin

text \<open>
  \<open>File/File.h/.cpp\<close>: a descriptor and the loops that write or read all of a buffer.  Each
  system call is answered by the next element of a list: it transfers at most so many bytes, or
  fails with an \<open>errno\<close>.  When the list is used up the loop is still running (\<open>None\<close>), so that
  a loop returns is a statement about the answers it needs.
\<close>

section \<open>State\<close>

datatype errno = EINTR | EAGAIN | EWOULDBLOCK | EOTHER

datatype answer = Transfers nat | Fails errno

text \<open>
  \<open>append_flag\<close> is \<open>flags_ & APPEND\<close>, which the object remembers; \<open>o_append\<close> is whether the
  descriptor was opened with \<open>O_APPEND\<close>, which the system looks at; \<open>data\<close> are the bytes of the
  file, \<open>offset\<close> the position of the descriptor; \<open>logged\<close> counts the error logs, \<open>closed\<close> are
  the descriptors closed.
\<close>

record io_file =
  fd :: int
  append_flag :: bool
  o_append :: bool
  data :: "byte list"
  offset :: nat
  logged :: nat
  closed :: "int list"

text \<open>
  A file opened by path keeps the flags it was opened with; a file made from a descriptor that is
  already open has \<open>flags_ = 0\<close>, whatever the descriptor was opened with.
\<close>

definition File_open :: "int \<Rightarrow> bool \<Rightarrow> byte list \<Rightarrow> io_file" where
  "File_open d ap content =
     \<lparr>fd = d, append_flag = ap, o_append = ap, data = content, offset = 0, logged = 0, closed = []\<rparr>"

definition File_of_fd :: "int \<Rightarrow> bool \<Rightarrow> nat \<Rightarrow> byte list \<Rightarrow> io_file" where
  "File_of_fd d oap pos content =
     \<lparr>fd = d, append_flag = False, o_append = oap, data = content, offset = pos, logged = 0, closed = []\<rparr>"

definition file_ready :: "io_file \<Rightarrow> bool" where
  "file_ready f \<longleftrightarrow> fd f \<noteq> -1"

section \<open>System calls\<close>

text \<open>A hole before the position is filled with zeros; writing nothing changes nothing.\<close>

definition put_at :: "nat \<Rightarrow> byte list \<Rightarrow> byte list \<Rightarrow> byte list" where
  "put_at i xs ys = (if xs = [] then ys else take i ys @ replicate (i - length ys) 0 @ xs @ drop (i + length xs) ys)"

text \<open>A descriptor opened with \<open>O_APPEND\<close> writes at the end, on Linux with \<open>pwrite\<close> too.\<close>

definition file_pwrite :: "byte list \<Rightarrow> nat \<Rightarrow> io_file \<Rightarrow> io_file" where
  "file_pwrite bs i f = f\<lparr>data := (if o_append f then data f @ bs else put_at i bs (data f))\<rparr>"

definition file_write :: "byte list \<Rightarrow> io_file \<Rightarrow> io_file" where
  "file_write bs f = (if o_append f then f\<lparr>data := data f @ bs, offset := length (data f) + length bs\<rparr>
     else f\<lparr>data := put_at (offset f) bs (data f), offset := offset f + length bs\<rparr>)"

definition file_pread :: "nat \<Rightarrow> nat \<Rightarrow> io_file \<Rightarrow> byte list" where
  "file_pread n i f = take n (drop i (data f))"

definition file_read :: "nat \<Rightarrow> io_file \<Rightarrow> byte list \<times> io_file" where
  "file_read n f = (let bs = file_pread n (offset f) f in (bs, f\<lparr>offset := offset f + length bs\<rparr>))"

definition log_error :: "errno \<Rightarrow> io_file \<Rightarrow> io_file" where
  "log_error e f = (if e = EAGAIN \<or> e = EWOULDBLOCK then f else f\<lparr>logged := logged f + 1\<rparr>)"

section \<open>The loops\<close>

fun writeAll :: "answer list \<Rightarrow> byte list \<Rightarrow> nat \<Rightarrow> io_file \<Rightarrow> (nat \<times> io_file) option" where
  "writeAll answers buf write_bytes f =
     (if \<not> write_bytes < length buf then Some (write_bytes, f)
      else (case answers of
          [] \<Rightarrow> None
        | Transfers k # answers \<Rightarrow>
            (let bs = take k (drop write_bytes buf) in
             if bs \<noteq> [] then writeAll answers buf (write_bytes + length bs)
               (if append_flag f then file_write bs f else file_pwrite bs write_bytes f)
             else Some (write_bytes, f))
        | Fails e # answers \<Rightarrow>
            if e = EINTR then writeAll answers buf write_bytes f else Some (write_bytes, log_error e f)))"

text \<open>\<open>got\<close> is what the caller's buffer of \<open>n\<close> bytes holds so far.\<close>

fun readAll :: "answer list \<Rightarrow> nat \<Rightarrow> byte list \<Rightarrow> io_file \<Rightarrow> (byte list \<times> io_file) option" where
  "readAll answers n got f =
     (if \<not> length got < n then Some (got, f)
      else (case answers of
          [] \<Rightarrow> None
        | Transfers k # answers \<Rightarrow>
            (let bs = file_pread (min k (n - length got)) (length got) f in
             if bs \<noteq> [] then readAll answers n (got @ bs) f else Some (got, f))
        | Fails e # answers \<Rightarrow>
            if e = EINTR then readAll answers n got f else Some (got, log_error e f)))"

declare writeAll.simps [simp del] readAll.simps [simp del]

section \<open>The rest\<close>

text \<open>The C library returns 0 for success: \<open>ok\<close> says whether the call succeeded.\<close>

definition c_result :: "bool \<Rightarrow> int" where
  "c_result ok = (if ok then 0 else -1)"

definition file_sync :: "bool \<Rightarrow> bool" where
  "file_sync ok \<longleftrightarrow> c_result ok = 0"

definition file_truncate :: "bool \<Rightarrow> nat \<Rightarrow> io_file \<Rightarrow> bool \<times> io_file" where
  "file_truncate ok n f = (c_result ok \<noteq> 0,
     if ok then f\<lparr>data := take n (data f) @ replicate (n - length (data f)) 0\<rparr> else f)"

definition file_lock :: "bool \<Rightarrow> bool" where
  "file_lock ok \<longleftrightarrow> c_result ok \<noteq> 0"

definition file_unlock :: "bool \<Rightarrow> bool" where
  "file_unlock ok \<longleftrightarrow> c_result ok \<noteq> 0"

text \<open>\<open>fstat\<close>: the status is the size and whether the file is a regular one.\<close>

definition file_stat :: "bool \<Rightarrow> bool \<Rightarrow> io_file \<Rightarrow> (nat \<times> bool) option \<times> io_file" where
  "file_stat ok regular f = (if c_result ok < 0 then (None, f\<lparr>logged := logged f + 1\<rparr>)
     else (Some (length (data f), regular), f))"

definition fileGetSize :: "bool \<Rightarrow> bool \<Rightarrow> io_file \<Rightarrow> int \<times> io_file" where
  "fileGetSize ok regular f = (if c_result ok < 0 then (-1, f\<lparr>logged := logged f + 1\<rparr>)
     else if \<not> regular then (-1, f\<lparr>logged := logged f + 1\<rparr>) else (int (length (data f)), f))"

definition file_release :: "io_file \<Rightarrow> io_file" where
  "file_release f = f\<lparr>fd := -1\<rparr>"

definition file_close :: "bool \<Rightarrow> io_file \<Rightarrow> bool \<times> io_file" where
  "file_close ok f = (if fd f = -1 then (False, f)
     else (c_result ok = 0, f\<lparr>fd := -1, closed := closed f @ [fd f]\<rparr>))"

definition File_delete :: "io_file \<Rightarrow> io_file" where
  "File_delete f = (if fd f \<ge> 0 then f\<lparr>closed := closed f @ [fd f]\<rparr> else f)"

definition setOffset :: "nat \<Rightarrow> io_file \<Rightarrow> nat \<times> io_file" where
  "setOffset n f = (n, f\<lparr>offset := n\<rparr>)"

definition getOffset :: "io_file \<Rightarrow> nat" where
  "getOffset f = offset f"

section \<open>Properties\<close>

lemma put_at_prefix: "i \<le> length ys \<Longrightarrow> put_at i xs ys = take i ys @ xs @ drop (i + length xs) ys"
  by (simp add: put_at_def append_take_drop_id)

lemma put_next:
  assumes "w \<le> length buf" and "data f = take w buf @ drop w d" and "bs = take k (drop w buf)" and "\<not> o_append f"
  shows "data (file_pwrite bs w f) = take (w + length bs) buf @ drop (w + length bs) d"
proof -
  have "take w buf @ bs = take (w + length bs) buf" using assms(3) by (auto simp: take_add min_def)
  moreover have "w \<le> length (data f)" using assms(1,2) by simp
  moreover have "take w (data f) = take w buf" "drop (w + length bs) (data f) = drop (w + length bs) d"
    using assms(1,2) by (simp_all add: min_def add.commute)
  ultimately show ?thesis using assms(4) by (simp add: file_pwrite_def put_at_prefix)
qed

text \<open>Every constructor makes an object that remembers \<open>APPEND\<close> only of an \<open>O_APPEND\<close> descriptor.\<close>

definition flags_ok :: "io_file \<Rightarrow> bool" where
  "flags_ok f \<longleftrightarrow> (append_flag f \<longrightarrow> o_append f)"

lemma flags_ok_new: "flags_ok (File_open d ap c)" "flags_ok (File_of_fd d oap pos c)"
  by (simp_all add: flags_ok_def File_open_def File_of_fd_def)

lemma writeAll_steps:
  "\<not> w < length buf \<Longrightarrow> writeAll answers buf w f = Some (w, f)"
  "w < length buf \<Longrightarrow> writeAll [] buf w f = None"
  "w < length buf \<Longrightarrow> writeAll (Transfers 0 # answers) buf w f = Some (w, f)"
  "w < length buf \<Longrightarrow> 0 < k \<Longrightarrow> bs = take k (drop w buf) \<Longrightarrow> writeAll (Transfers k # answers) buf w f =
     writeAll answers buf (w + length bs) (if append_flag f then file_write bs f else file_pwrite bs w f)"
  "w < length buf \<Longrightarrow> writeAll (Fails e # answers) buf w f =
     (if e = EINTR then writeAll answers buf w f else Some (w, log_error e f))"
  by (subst writeAll.simps; simp add: Let_def)+

lemma readAll_steps:
  "\<not> length got < n \<Longrightarrow> readAll answers n got f = Some (got, f)"
  "length got < n \<Longrightarrow> readAll [] n got f = None"
  "length got < n \<Longrightarrow> bs = file_pread (min k (n - length got)) (length got) f \<Longrightarrow>
     readAll (Transfers k # answers) n got f = (if bs \<noteq> [] then readAll answers n (got @ bs) f else Some (got, f))"
  "length got < n \<Longrightarrow> readAll (Fails e # answers) n got f =
     (if e = EINTR then readAll answers n got f else Some (got, log_error e f))"
  by (subst readAll.simps; simp add: Let_def)+

lemma writeAll_from:
  assumes "writeAll answers buf w f = Some (w', f')" and "w \<le> length buf" and "flags_ok f"
    and "data f = (if o_append f then d @ take w buf else take w buf @ drop w d)"
  shows "w' \<le> length buf \<and> data f' = (if o_append f then d @ take w' buf else take w' buf @ drop w' d)"
  using assms
proof (induction answers arbitrary: w f)
  case Nil
  then show ?case by (cases "w < length buf") (auto simp: writeAll_steps)
next
  case (Cons a answers)
  show ?case
  proof (cases "w < length buf")
    case False
    then show ?thesis using Cons.prems by (auto simp: writeAll_steps)
  next
    case w: True
    show ?thesis
    proof (cases a)
      case (Fails e)
      show ?thesis
      proof (cases "e = EINTR")
        case True
        then show ?thesis using Cons Fails w by (simp add: writeAll_steps)
      next
        case False
        then show ?thesis using Cons.prems Fails w by (auto simp: writeAll_steps log_error_def)
      qed
    next
      case (Transfers k)
      show ?thesis
      proof (cases "k = 0")
        case True
        then show ?thesis using Cons.prems Transfers w by (auto simp: writeAll_steps)
      next
        case False
        define bs where "bs = take k (drop w buf)"
        let ?f = "if append_flag f then file_write bs f else file_pwrite bs w f"
        have "take w buf @ bs = take (w + length bs) buf" by (auto simp: bs_def take_add min_def)
        then have "data ?f = (if o_append ?f then d @ take (w + length bs) buf
            else take (w + length bs) buf @ drop (w + length bs) d)"
          using Cons.prems(2,3,4) put_next [of w buf f d bs k]
          by (auto simp: bs_def file_write_def file_pwrite_def flags_ok_def)
        moreover have "o_append ?f = o_append f" "flags_ok ?f" using Cons.prems(3)
          by (simp_all add: file_write_def file_pwrite_def flags_ok_def)
        moreover have "w + length bs \<le> length buf" using Cons.prems(2) by (simp add: bs_def)
        moreover have "writeAll answers buf (w + length bs) ?f = Some (w', f')"
          using Cons.prems(1) Transfers w False by (simp add: writeAll_steps(4) [OF w _ bs_def])
        ultimately show ?thesis using Cons.IH [of "w + length bs" ?f] by simp
      qed
    qed
  qed
qed

lemma readAll_from:
  assumes "readAll answers n got f = Some (got', f')" and "got = take (length got) (data f)"
  shows "got' = take (length got') (data f)"
  using assms
proof (induction answers arbitrary: got)
  case Nil
  then show ?case by (cases "length got < n") (auto simp: readAll_steps)
next
  case (Cons a answers)
  show ?case
  proof (cases "length got < n")
    case False
    then show ?thesis using Cons.prems by (auto simp: readAll_steps)
  next
    case n: True
    show ?thesis
    proof (cases a)
      case (Fails e)
      then show ?thesis using Cons n by (auto simp: readAll_steps split: if_splits)
    next
      case (Transfers k)
      define bs where "bs = file_pread (min k (n - length got)) (length got) f"
      have more: "got @ bs = take (length (got @ bs)) (data f)"
      proof -
        have "length got \<le> length (data f)" using Cons.prems(2) by (metis length_take min.cobounded1)
        then have "take (length got + length bs) (data f) = take (length got) (data f) @ bs"
          by (auto simp: bs_def file_pread_def take_add min_def)
        then show ?thesis using Cons.prems(2) by simp
      qed
      have "if bs \<noteq> [] then readAll answers n (got @ bs) f = Some (got', f') else got' = got"
        using Cons.prems(1) Transfers by (auto simp: readAll_steps(3) [OF n bs_def] split: if_splits)
      then show ?thesis using Cons.IH [OF _ more] Cons.prems(2) by (metis (full_types))
    qed
  qed
qed

lemma readAll_length:
  "readAll answers n got0 f = Some (got, f') \<Longrightarrow> length got0 \<le> n \<Longrightarrow> length got \<le> n"
proof (induction answers arbitrary: got0)
  case Nil
  then show ?case by (cases "length got0 < n") (auto simp: readAll_steps)
next
  case (Cons a as)
  show ?case
  proof (cases "length got0 < n")
    case False
    then show ?thesis using Cons.prems by (auto simp: readAll_steps)
  next
    case n: True
    then show ?thesis using Cons
      by (cases a) (auto simp: readAll_steps file_pread_def split: if_splits)
  qed
qed

text \<open>The answers with which a loop goes on: an interruption, or a transfer of something.\<close>

definition progresses :: "answer \<Rightarrow> bool" where
  "progresses a \<longleftrightarrow> a = Fails EINTR \<or> (\<exists>k. a = Transfers (Suc k))"

text \<open>With such answers, one for each byte asked for, \<open>readAll\<close> reads all that is there.\<close>

lemma readAll_complete:
  assumes "n - length got \<le> length (filter (\<lambda>a. a \<noteq> Fails EINTR) answers)" and "list_all progresses answers"
    and "got = take (length got) (data f)" and "length got \<le> n"
  shows "readAll answers n got f = Some (take n (data f), f)"
  using assms
proof (induction answers arbitrary: got)
  case Nil
  then show ?case by (simp add: readAll_steps)
next
  case (Cons a as)
  show ?case
  proof (cases "length got < n")
    case False
    then show ?thesis using Cons.prems by (simp add: readAll_steps)
  next
    case n: True
    show ?thesis
    proof (cases "a = Fails EINTR")
      case True
      then show ?thesis using Cons n by (simp add: readAll_steps)
    next
      case False
      then obtain k where k: "a = Transfers (Suc k)" using Cons.prems(2) by (auto simp: progresses_def)
      define bs where "bs = file_pread (min (Suc k) (n - length got)) (length got) f"
      have got: "length got \<le> length (data f)" using Cons.prems(3) by (metis length_take min.cobounded1)
      show ?thesis
      proof (cases "bs = []")
        case True
        then have "length (data f) \<le> length got" using n by (auto simp: bs_def file_pread_def)
        then have "take n (data f) = got" using got n Cons.prems(3) by simp
        then show ?thesis using True k by (simp add: readAll_steps(3) [OF n bs_def])
      next
        case False
        then have len: "0 < length bs" "length got + length bs \<le> n" using n by (auto simp: bs_def file_pread_def)
        have "take (length got + length bs) (data f) = take (length got) (data f) @ bs"
          by (auto simp: bs_def file_pread_def take_add min_def)
        then have front: "got @ bs = take (length (got @ bs)) (data f)" using Cons.prems(3) by simp
        have "n - length got \<le> Suc (length (filter (\<lambda>a. a \<noteq> Fails EINTR) as))"
          using Cons.prems(1) k by simp
        then have enough: "n - length (got @ bs) \<le> length (filter (\<lambda>a. a \<noteq> Fails EINTR) as)"
          unfolding length_append using len(1) by linarith
        have "readAll as n (got @ bs) f = Some (take n (data f), f)"
          using Cons.IH [OF enough _ front] Cons.prems(2) len(2) by simp
        then show ?thesis using False k by (simp add: readAll_steps(3) [OF n bs_def])
      qed
    qed
  qed
qed

text \<open>
  C28: \<open>writeAll\<close> and \<open>readAll\<close> move the bytes they report.  Whatever the system answers,
  the bytes \<open>writeAll\<close> reports as written, and no others, are in the file: at its end if the
  descriptor was opened for appending, else over its first bytes.  Whatever it answers then,
  \<open>readAll\<close> of \<open>n\<close> bytes reports no more than \<open>n\<close> and gives a front of the file; with one
  answer that transfers something for each byte asked for it gives all the first \<open>n\<close> bytes.  So
  what was written over the file, or appended to an empty one, is read back whole.
\<close>

theorem writeAll_then_readAll:
  assumes "writeAll answers buf 0 f = Some (w, f')" and "flags_ok f"
  shows "w \<le> length buf \<and>
    data f' = (if o_append f then data f @ take w buf else take w buf @ drop w (data f)) \<and>
    (\<forall>as n got f''. readAll as n [] f' = Some (got, f'') \<longrightarrow> length got \<le> n \<and> got = take (length got) (data f')) \<and>
    (\<forall>as n. n \<le> length (filter (\<lambda>a. a \<noteq> Fails EINTR) as) \<and> list_all progresses as \<longrightarrow>
      readAll as n [] f' = Some (take n (data f'), f') \<and>
      (n = w \<and> (o_append f \<longrightarrow> data f = []) \<longrightarrow> readAll as n [] f' = Some (take w buf, f')))"
proof -
  have w: "w \<le> length buf" "data f' = (if o_append f then data f @ take w buf else take w buf @ drop w (data f))"
    using writeAll_from [OF assms(1) _ assms(2), of "data f"] by auto
  have front: "length got \<le> n \<and> got = take (length got) (data f')" if "readAll as n [] f' = Some (got, f'')"
    for as n got f''
    using readAll_length [OF that] readAll_from [OF that] by simp
  have all: "readAll as n [] f' = Some (take n (data f'), f')"
    if "n \<le> length (filter (\<lambda>a. a \<noteq> Fails EINTR) as)" "list_all progresses as" for as n
    using readAll_complete [of n "[]" as f'] that by simp
  have "take w (data f') = take w buf" if "o_append f \<longrightarrow> data f = []" using w that by auto
  then show ?thesis using w front all by metis
qed

theorem writeAll_then_readAll_witness:
  "\<exists>f'. writeAll [Transfers 1, Fails EINTR, Transfers 1, Fails EOTHER] [1, 2, 3] 0 (File_open 4 False [9, 9, 9]) = Some (2, f') \<and>
    data f' = [1, 2, 9] \<and> readAll [Transfers 1, Fails EINTR, Transfers 5] 2 [] f' = Some ([1, 2], f')"
proof -
  have "writeAll [Transfers 1, Fails EINTR, Transfers 1, Fails EOTHER] [1, 2, 3] 0 (File_open 4 False [9, 9, 9]) =
      Some (2, (File_open 4 False [9, 9, 9])\<lparr>data := [1, 2, 9], logged := 1\<rparr>)"
    by (simp add: writeAll.simps File_open_def file_pwrite_def put_at_def log_error_def)
  from writeAll_then_readAll [OF this flags_ok_new(1)] this show ?thesis
    by (auto simp: File_open_def progresses_def numeral_2_eq_2)
qed

lemma writeAll_returns:
  assumes "length (filter (\<lambda>a. a \<noteq> Fails EINTR) answers) \<ge> length buf - w"
  shows "\<exists>w' f'. writeAll answers buf w f = Some (w', f') \<and>
    ((\<forall>a\<in>set answers. a = Fails EINTR \<or> (\<exists>k. a = Transfers (Suc k))) \<longrightarrow> w \<le> length buf \<longrightarrow> w' = length buf)"
  using assms
proof (induction answers arbitrary: w f)
  case Nil
  then show ?case by (simp add: writeAll_steps)
next
  case (Cons a answers)
  show ?case
  proof (cases "w < length buf")
    case False
    then show ?thesis by (simp add: writeAll_steps)
  next
    case w: True
    show ?thesis
    proof (cases a)
      case (Fails e)
      show ?thesis
      proof (cases "e = EINTR")
        case True
        then obtain w' f' where "writeAll answers buf w f = Some (w', f')"
            "(\<forall>a\<in>set answers. a = Fails EINTR \<or> (\<exists>k. a = Transfers (Suc k))) \<longrightarrow> w \<le> length buf \<longrightarrow> w' = length buf"
          using Cons.IH [of w f] Cons.prems Fails by auto
        then show ?thesis using Fails w True by (simp add: writeAll_steps)
      qed (use Fails w in \<open>simp add: writeAll_steps\<close>)
    next
      case (Transfers k)
      show ?thesis
      proof (cases "k = 0")
        case True
        then show ?thesis using Transfers w by (simp add: writeAll_steps)
      next
        case False
        define bs where "bs = take k (drop w buf)"
        have bs: "0 < length bs" "w + length bs \<le> length buf" using w False by (auto simp: bs_def)
        have "length buf - w \<le> Suc (length (filter (\<lambda>a. a \<noteq> Fails EINTR) answers))"
          using Cons.prems Transfers by simp
        then have "length buf - (w + length bs) \<le> length (filter (\<lambda>a. a \<noteq> Fails EINTR) answers)"
          using bs by linarith
        from Cons.IH [OF this, of "if append_flag f then file_write bs f else file_pwrite bs w f"]
        obtain w' f' where "writeAll answers buf (w + length bs)
            (if append_flag f then file_write bs f else file_pwrite bs w f) = Some (w', f')"
            "(\<forall>a\<in>set answers. a = Fails EINTR \<or> (\<exists>k. a = Transfers (Suc k))) \<longrightarrow> w' = length buf"
          using bs(2) by blast
        then show ?thesis using Transfers False by (simp add: writeAll_steps(4) [OF w _ bs_def])
      qed
    qed
  qed
qed

text \<open>
  C39: the loops return.  As long as the calls transfer something or are interrupted,
  \<open>writeAll\<close> needs one answer for each byte and each interruption at most, and then reports every
  byte; nothing else makes it go on.
\<close>

theorem writeAll_terminates:
  assumes "length buf \<le> length (filter (\<lambda>a. a \<noteq> Fails EINTR) answers)"
  shows "\<exists>w f'. writeAll answers buf 0 f = Some (w, f') \<and>
    ((\<forall>a\<in>set answers. a = Fails EINTR \<or> (\<exists>k. a = Transfers (Suc k))) \<longrightarrow> w = length buf)"
  using writeAll_returns [of buf 0 answers f] assms by simp

theorem writeAll_terminates_witness:
  "\<exists>f'. writeAll [Transfers 1, Fails EINTR, Transfers 9] [1, 2] 0 (File_open 4 False []) = Some (2, f')"
  using writeAll_terminates [of "[1, 2 :: byte]" "[Transfers 1, Fails EINTR, Transfers 9]" "File_open 4 False []"] by auto

text \<open>
  three results are the wrong way round.  \<open>truncate\<close>, \<open>lock\<close> and \<open>unlock\<close> return true
  exactly when the call failed, \<open>sync\<close> and \<open>close\<close> exactly when it succeeded.
\<close>

theorem file_results:
  "fst (file_truncate ok n f) = (\<not> ok) \<and> file_lock ok = (\<not> ok) \<and> file_unlock ok = (\<not> ok) \<and>
   file_sync ok = ok \<and> fst (file_close ok (f\<lparr>fd := 3\<rparr>)) = ok"
  by (simp add: file_truncate_def file_lock_def file_unlock_def file_sync_def file_close_def c_result_def)

text \<open>
  a descriptor is closed once.  Whether the object is closed, closed again and deleted,
  or deleted only, its descriptor is closed exactly once; after \<open>release\<close> not at all.
\<close>

theorem descriptor_closed_once:
  assumes "0 \<le> d"
  shows "closed (File_delete (snd (file_close ok' (snd (file_close ok (File_open d ap c)))))) = [d] \<and>
    closed (File_delete (File_open d ap c)) = [d] \<and>
    closed (File_delete (snd (file_close ok (file_release (File_open d ap c))))) = []"
  using assms by (simp add: file_close_def File_delete_def File_open_def file_release_def)

theorem descriptor_closed_once_witness:
  "closed (File_delete (snd (file_close True (snd (file_close False (File_open 5 True [])))))) = [5] \<and>
    closed (File_delete (File_open 5 True [])) = [5] \<and>
    closed (File_delete (snd (file_close False (file_release (File_open 5 True []))))) = []"
  by (rule descriptor_closed_once) simp

end
