(* ===== verification/String_Piece.thy ===== *)
theory String_Piece
  imports Buffer "HOL-Library.List_Lexorder"
begin

text \<open>
  The rest of \<open>Net/StringPiece.h\<close>: a piece is a pointer, here the memory it leads to, and an
  \<open>int\<close> length, both of which the caller may set to anything; what reads outside the memory is a
  fault.
\<close>

section \<open>Operations\<close>

text \<open>
  \<open>NULL\<close> is memory of no bytes, as is the end of an allocation: no byte can be read through
  either.  A comparison that reads no bytes gives 0 for both; the C standard leaves
  \<open>memcmp(NULL, p, 0)\<close> undefined, though every implementation answers 0.
\<close>

definition piece_null :: string_piece where
  "piece_null = \<lparr>piece_ptr = [], piece_length = 0\<rparr>"

definition piece_of_range :: "byte list \<Rightarrow> int32 \<Rightarrow> string_piece" where
  "piece_of_range offset len = \<lparr>piece_ptr = offset, piece_length = len\<rparr>"

text \<open>\<open>strlen\<close> reads on until it meets the null.\<close>

fun strlen :: "byte list \<Rightarrow> nat result" where
  "strlen [] = Inl Out_Of_Bounds"
| "strlen (c # cs) = (if c = 0 then Inr 0 else and_then (strlen cs) (\<lambda>n. Inr (Suc n)))"

definition piece_of_c_str :: "byte list \<Rightarrow> string_piece result" where
  "piece_of_c_str str = and_then (strlen str) (\<lambda>n. Inr \<lparr>piece_ptr = str, piece_length = word_of_nat n\<rparr>)"

definition piece_set_c_str :: "byte list \<Rightarrow> string_piece \<Rightarrow> string_piece result" where
  "piece_set_c_str str p = and_then (strlen str) (\<lambda>n. Inr (p\<lparr>piece_ptr := str, piece_length := word_of_nat n\<rparr>))"

definition piece_data :: "string_piece \<Rightarrow> byte list" where
  "piece_data p = piece_ptr p"

definition piece_size :: "string_piece \<Rightarrow> int32" where
  "piece_size p = piece_length p"

text \<open>\<open>begin\<close> is \<open>data\<close>; \<open>end\<close> must point into the memory or just behind it.\<close>

definition piece_end :: "string_piece \<Rightarrow> byte list result" where
  "piece_end p = (if sint (piece_length p) < 0 \<or> length (piece_ptr p) < nat (sint (piece_length p)) then Inl Out_Of_Bounds
     else Inr (drop (nat (sint (piece_length p))) (piece_ptr p)))"

definition piece_clear :: "string_piece \<Rightarrow> string_piece" where
  "piece_clear p = p\<lparr>piece_ptr := [], piece_length := 0\<rparr>"

definition piece_set :: "byte list \<Rightarrow> int32 \<Rightarrow> string_piece \<Rightarrow> string_piece" where
  "piece_set buffer len p = p\<lparr>piece_ptr := buffer, piece_length := len\<rparr>"

definition piece_empty :: "string_piece \<Rightarrow> bool" where
  "piece_empty p \<longleftrightarrow> piece_length p = 0"

definition piece_at :: "string_piece \<Rightarrow> int32 \<Rightarrow> byte result" where
  "piece_at p i = (if 0 \<le> sint i \<and> nat (sint i) < length (piece_ptr p) then Inr (piece_ptr p ! nat (sint i))
     else Inl Out_Of_Bounds)"

text \<open>The lengths are \<open>int\<close>s: a result that does not fit is undefined.\<close>

definition remove_suffix :: "int32 \<Rightarrow> string_piece \<Rightarrow> string_piece result" where
  "remove_suffix n p = (if sint (piece_length p - n) \<noteq> sint (piece_length p) - sint n then Inl Signed_Overflow
     else Inr (p\<lparr>piece_length := piece_length p - n\<rparr>))"

definition remove_prefix :: "int32 \<Rightarrow> string_piece \<Rightarrow> string_piece result" where
  "remove_prefix n p = (if sint n < 0 \<or> length (piece_ptr p) < nat (sint n) then Inl Out_Of_Bounds
     else remove_suffix n (p\<lparr>piece_ptr := drop (nat (sint n)) (piece_ptr p)\<rparr>))"

fun memcmp_bytes :: "byte list \<Rightarrow> byte list \<Rightarrow> int" where
  "memcmp_bytes (x # xs) (y # ys) = (if x < y then -1 else if y < x then 1 else memcmp_bytes xs ys)"
| "memcmp_bytes _ _ = 0"

text \<open>\<open>memcmp\<close> on an \<open>int\<close> converted to \<open>size_t\<close>.\<close>

definition memcmp :: "byte list \<Rightarrow> byte list \<Rightarrow> int32 \<Rightarrow> int result" where
  "memcmp a b n = (let n = size_of_int (sint n) in
     if length a < n \<or> length b < n then Inl Out_Of_Bounds else Inr (memcmp_bytes (take n a) (take n b)))"

definition shorter :: "string_piece \<Rightarrow> string_piece \<Rightarrow> int32" where
  "shorter p x = (if sint (piece_length p) < sint (piece_length x) then piece_length p else piece_length x)"

definition piece_equal :: "string_piece \<Rightarrow> string_piece \<Rightarrow> bool result" where
  "piece_equal p x = (if piece_length p \<noteq> piece_length x then Inr False
     else and_then (memcmp (piece_ptr p) (piece_ptr x) (piece_length p)) (\<lambda>r. Inr (r = 0)))"

definition piece_differs :: "string_piece \<Rightarrow> string_piece \<Rightarrow> bool result" where
  "piece_differs p x = and_then (piece_equal p x) (\<lambda>e. Inr (\<not> e))"

text \<open>The macro: \<open>auxcmp\<close> on the bytes, \<open>cmp\<close> on the lengths.\<close>

definition piece_predicate :: "(int \<Rightarrow> int \<Rightarrow> bool) \<Rightarrow> (int \<Rightarrow> int \<Rightarrow> bool) \<Rightarrow> string_piece \<Rightarrow> string_piece \<Rightarrow> bool result" where
  "piece_predicate cmp auxcmp p x = and_then (memcmp (piece_ptr p) (piece_ptr x) (shorter p x)) (\<lambda>r.
     Inr (auxcmp r 0 \<or> r = 0 \<and> cmp (sint (piece_length p)) (sint (piece_length x))))"

definition piece_less :: "string_piece \<Rightarrow> string_piece \<Rightarrow> bool result" where
  "piece_less = piece_predicate (<) (<)"

definition piece_less_eq :: "string_piece \<Rightarrow> string_piece \<Rightarrow> bool result" where
  "piece_less_eq = piece_predicate (\<le>) (<)"

definition piece_greater_eq :: "string_piece \<Rightarrow> string_piece \<Rightarrow> bool result" where
  "piece_greater_eq = piece_predicate (\<ge>) (>)"

definition piece_greater :: "string_piece \<Rightarrow> string_piece \<Rightarrow> bool result" where
  "piece_greater = piece_predicate (>) (>)"

definition piece_compare :: "string_piece \<Rightarrow> string_piece \<Rightarrow> int result" where
  "piece_compare p x = and_then (memcmp (piece_ptr p) (piece_ptr x) (shorter p x)) (\<lambda>r.
     Inr (if r = 0 then
            (if sint (piece_length p) < sint (piece_length x) then -1
             else if sint (piece_length p) > sint (piece_length x) then 1 else r)
          else r))"

text \<open>\<open>std::string(data(), size())\<close>: a negative length is too long a string.\<close>

definition as_string :: "string_piece \<Rightarrow> byte list result" where
  "as_string p = (if sint (piece_length p) < 0 then Inl Length_Error
     else if length (piece_ptr p) < nat (sint (piece_length p)) then Inl Out_Of_Bounds
     else Inr (take (nat (sint (piece_length p))) (piece_ptr p)))"

definition starts_with :: "string_piece \<Rightarrow> string_piece \<Rightarrow> bool result" where
  "starts_with p x = (if \<not> sint (piece_length p) \<ge> sint (piece_length x) then Inr False
     else and_then (memcmp (piece_ptr p) (piece_ptr x) (piece_length x)) (\<lambda>r. Inr (r = 0)))"

section \<open>Bytes\<close>

definition piece_ok :: "string_piece \<Rightarrow> bool" where
  "piece_ok p \<longleftrightarrow> 0 \<le> sint (piece_length p) \<and> nat (sint (piece_length p)) \<le> length (piece_ptr p)"

definition piece_bytes :: "string_piece \<Rightarrow> byte list" where
  "piece_bytes p = take (nat (sint (piece_length p))) (piece_ptr p)"

lemma length_piece_bytes: "piece_ok p \<Longrightarrow> int (length (piece_bytes p)) = sint (piece_length p)"
  by (simp add: piece_ok_def piece_bytes_def)

lemma strlen_c_str: "0 \<notin> set s \<Longrightarrow> strlen (s @ 0 # rest) = Inr (length s)"
  by (induction s) auto

text \<open>A piece of a C string holds its characters, without the null, when there are fewer than \<open>2 ^ 31\<close>.\<close>

lemma piece_of_c_str_bytes:
  assumes "0 \<notin> set s" and "length s < 2 ^ 31"
  shows "\<exists>p. piece_of_c_str (s @ 0 # rest) = Inr p \<and> piece_ok p \<and> as_string p = Inr s"
  using assms by (auto simp: piece_of_c_str_def strlen_c_str piece_ok_def as_string_def sint_int32_of_nat)

lemma memcmp_bytes_take:
  "memcmp_bytes (take (min (length xs) (length ys)) xs) (take (min (length xs) (length ys)) ys) = memcmp_bytes xs ys"
  by (induction xs ys rule: memcmp_bytes.induct) auto

lemma nil_less: "([] :: byte list) < xs \<longleftrightarrow> xs \<noteq> []"
  by (cases xs) auto

lemma memcmp_bytes_less: "xs < ys \<longleftrightarrow> memcmp_bytes xs ys < 0 \<or> memcmp_bytes xs ys = 0 \<and> length xs < length ys"
  by (induction xs ys rule: memcmp_bytes.induct) (auto simp: nil_less)

lemma memcmp_bytes_greater: "ys < xs \<longleftrightarrow> memcmp_bytes xs ys > 0 \<or> memcmp_bytes xs ys = 0 \<and> length ys < length xs"
  by (induction xs ys rule: memcmp_bytes.induct) (auto simp: nil_less)

lemma memcmp_bytes_eq: "length xs = length ys \<Longrightarrow> memcmp_bytes xs ys = 0 \<longleftrightarrow> xs = ys"
  by (induction xs ys rule: memcmp_bytes.induct) (auto simp: neq_iff)

lemma size_of_length:
  assumes "piece_ok p"
  shows "size_of_int (sint (piece_length p)) = nat (sint (piece_length p))"
  using assms sint_lt [of "piece_length p"]
  by (simp add: piece_ok_def size_of_int_def)

lemma memcmp_shorter:
  assumes "piece_ok p" and "piece_ok x"
  shows "memcmp (piece_ptr p) (piece_ptr x) (shorter p x) = Inr (memcmp_bytes (piece_bytes p) (piece_bytes x))"
proof -
  let ?m = "min (nat (sint (piece_length p))) (nat (sint (piece_length x)))"
  have n: "size_of_int (sint (shorter p x)) = ?m"
    using assms size_of_length [OF assms(1)] size_of_length [OF assms(2)]
    by (auto simp: shorter_def piece_ok_def min_def)
  have "take ?m (piece_ptr p) = take ?m (piece_bytes p)" "take ?m (piece_ptr x) = take ?m (piece_bytes x)"
    by (simp_all add: piece_bytes_def min.commute min.left_commute)
  moreover have "?m = min (length (piece_bytes p)) (length (piece_bytes x))"
    using assms by (simp add: piece_bytes_def piece_ok_def)
  ultimately have "memcmp_bytes (take ?m (piece_ptr p)) (take ?m (piece_ptr x)) = memcmp_bytes (piece_bytes p) (piece_bytes x)"
    using memcmp_bytes_take by metis
  moreover have "\<not> (length (piece_ptr p) < ?m \<or> length (piece_ptr x) < ?m)" using assms by (auto simp: piece_ok_def)
  ultimately show ?thesis by (simp add: memcmp_def n Let_def)
qed

text \<open>
  C30: pieces are ordered as their bytes.  On pieces whose length is that of memory they
  lead to, the four comparisons and \<open>compare\<close> are those of the lexicographic order of byte
  strings, \<open>==\<close> is equality, \<open>starts_with\<close> is being a prefix, and \<open>as_string\<close> gives the bytes.
\<close>

theorem piece_comparisons:
  assumes "piece_ok p" and "piece_ok x"
  shows "piece_less p x = Inr (piece_bytes p < piece_bytes x) \<and>
    piece_less_eq p x = Inr (piece_bytes p \<le> piece_bytes x) \<and>
    piece_greater_eq p x = Inr (piece_bytes x \<le> piece_bytes p) \<and>
    piece_greater p x = Inr (piece_bytes x < piece_bytes p) \<and>
    (\<exists>c. piece_compare p x = Inr c \<and> (c < 0 \<longleftrightarrow> piece_bytes p < piece_bytes x) \<and> (c = 0 \<longleftrightarrow> piece_bytes p = piece_bytes x)) \<and>
    piece_equal p x = Inr (piece_bytes p = piece_bytes x) \<and>
    starts_with p x = Inr (\<exists>zs. piece_bytes p = piece_bytes x @ zs) \<and> as_string p = Inr (piece_bytes p)"
proof -
  let ?a = "piece_bytes p" and ?b = "piece_bytes x"
  have len: "sint (piece_length p) = int (length ?a)" "sint (piece_length x) = int (length ?b)"
    using assms by (simp_all add: length_piece_bytes)
  define r where "r = memcmp_bytes ?a ?b"
  have less: "?a < ?b \<longleftrightarrow> r < 0 \<or> r = 0 \<and> length ?a < length ?b"
    and greater: "?b < ?a \<longleftrightarrow> r > 0 \<or> r = 0 \<and> length ?b < length ?a"
    unfolding r_def by (rule memcmp_bytes_less, rule memcmp_bytes_greater)
  have eq: "?a = ?b \<longleftrightarrow> r = 0 \<and> length ?a = length ?b"
    using memcmp_bytes_eq unfolding r_def by metis
  have le: "?a \<le> ?b \<longleftrightarrow> \<not> ?b < ?a" "?b \<le> ?a \<longleftrightarrow> \<not> ?a < ?b" by (simp_all add: not_less)
  have mem: "memcmp (piece_ptr p) (piece_ptr x) (shorter p x) = Inr r"
    unfolding r_def by (rule memcmp_shorter [OF assms])
  have "piece_less p x = Inr (?a < ?b)" unfolding less by (simp add: piece_less_def piece_predicate_def mem len)
  moreover have "piece_greater p x = Inr (?b < ?a)"
    unfolding greater by (simp add: piece_greater_def piece_predicate_def mem len)
  moreover have "piece_less_eq p x = Inr (?a \<le> ?b)"
    unfolding le greater by (simp add: piece_less_eq_def piece_predicate_def mem len) linarith
  moreover have "piece_greater_eq p x = Inr (?b \<le> ?a)"
    unfolding le less by (simp add: piece_greater_eq_def piece_predicate_def mem len) linarith
  moreover have "\<exists>c. piece_compare p x = Inr c \<and> (c < 0 \<longleftrightarrow> ?a < ?b) \<and> (c = 0 \<longleftrightarrow> ?a = ?b)"
    unfolding less eq by (simp add: piece_compare_def mem len)
  moreover have "piece_equal p x = Inr (?a = ?b)"
  proof (cases "piece_length p = piece_length x")
    case True
    then have "shorter p x = piece_length p" by (simp add: shorter_def)
    then show ?thesis using mem True len by (simp add: piece_equal_def eq)
  next
    case False
    then have "length ?a \<noteq> length ?b" using len by (metis signed_word_eqI)
    then show ?thesis using False by (auto simp: piece_equal_def)
  qed
  moreover have "starts_with p x = Inr (\<exists>zs. ?a = ?b @ zs)"
  proof (cases "length ?b \<le> length ?a")
    case True
    let ?n = "nat (sint (piece_length x))"
    have n: "size_of_int (sint (piece_length x)) = ?n" "?n \<le> length (piece_ptr p)" "?n \<le> length (piece_ptr x)"
      using size_of_length [OF assms(2)] assms True len by (auto simp: piece_ok_def)
    have nb: "?n = length ?b" and le: "?n \<le> nat (sint (piece_length p))" using True len by simp_all
    have "take ?n (piece_ptr p) = take ?n ?a" using le by (simp add: piece_bytes_def)
    moreover have "take ?n (piece_ptr x) = ?b" by (simp add: piece_bytes_def)
    moreover have "sint (piece_length x) \<le> sint (piece_length p)" using True len by simp
    ultimately have "starts_with p x = Inr (memcmp_bytes (take ?n ?a) ?b = 0)"
      using n by (simp add: starts_with_def memcmp_def)
    then have "starts_with p x = Inr (memcmp_bytes (take (length ?b) ?a) ?b = 0)" unfolding nb .
    moreover have "memcmp_bytes (take (length ?b) ?a) ?b = 0 \<longleftrightarrow> take (length ?b) ?a = ?b"
      using True by (intro memcmp_bytes_eq) simp
    moreover have "take (length ?b) ?a = ?b \<longleftrightarrow> (\<exists>zs. ?a = ?b @ zs)"
      by (metis append_eq_conv_conj append_take_drop_id)
    ultimately show ?thesis by simp
  next
    case False
    then have "\<not> (\<exists>zs. ?a = ?b @ zs)" by (metis length_append le_add1)
    moreover have "starts_with p x = Inr False" using False len by (simp add: starts_with_def)
    ultimately show ?thesis by simp
  qed
  moreover have "as_string p = Inr ?a" using assms(1) by (simp add: as_string_def piece_ok_def piece_bytes_def)
  ultimately show ?thesis by blast
qed

theorem piece_comparisons_witness:
  "let p = piece_of_string [1, 200]; x = piece_of_string [1] in
    piece_less p x = Inr (piece_bytes p < piece_bytes x) \<and>
    piece_less_eq p x = Inr (piece_bytes p \<le> piece_bytes x) \<and>
    piece_greater_eq p x = Inr (piece_bytes x \<le> piece_bytes p) \<and>
    piece_greater p x = Inr (piece_bytes x < piece_bytes p) \<and>
    (\<exists>c. piece_compare p x = Inr c \<and> (c < 0 \<longleftrightarrow> piece_bytes p < piece_bytes x) \<and> (c = 0 \<longleftrightarrow> piece_bytes p = piece_bytes x)) \<and>
    piece_equal p x = Inr (piece_bytes p = piece_bytes x) \<and>
    starts_with p x = Inr (\<exists>zs. piece_bytes p = piece_bytes x @ zs) \<and> as_string p = Inr (piece_bytes p)"
  unfolding Let_def
  by (rule piece_comparisons) (simp_all add: piece_ok_def piece_of_string_def)

end
