(* ===== verification/Shared_Memory.thy ===== *)
theory Shared_Memory
  imports Prelude
begin

text \<open>
  \<open>Memory/SharedMemory.h/.cpp\<close>: blocks of shared memory with their size in front.  A block is
  one mapping; \<open>mmap\<close> answers with its address or fails (\<open>None\<close>), and maps whole pages of
  \<open>page\<close> bytes, all zero.  An access past the end of a mapping is a fault.
\<close>

section \<open>State and operations\<close>

text \<open>The header's field and the bytes behind it; a block is known by the address behind the header.\<close>

record region =
  region_size :: nat
  memory :: "byte list"

type_synonym shm = "nat \<Rightarrow> region option"

abbreviation sizeof_SharedMemory :: nat where
  "sizeof_SharedMemory \<equiv> 8"

definition page_round :: "nat \<Rightarrow> nat \<Rightarrow> nat" where
  "page_round page n = (n + page - 1) div page * page"

definition fetch_object :: "nat \<Rightarrow> shm \<Rightarrow> region result" where
  "fetch_object ptr h = (case h ptr of None \<Rightarrow> Inl Use_After_Free | Some r \<Rightarrow> Inr r)"

definition shm_alloc :: "nat \<Rightarrow> nat option \<Rightarrow> nat \<Rightarrow> shm \<Rightarrow> nat option \<times> shm" where
  "shm_alloc page mmap n h =
     (let n = size_add n sizeof_SharedMemory in
      case mmap of
        None \<Rightarrow> (None, h)
      | Some mem \<Rightarrow> (Some (mem + sizeof_SharedMemory),
          h(mem + sizeof_SharedMemory \<mapsto>
            \<lparr>region_size = n, memory = replicate (page_round page n - sizeof_SharedMemory) 0\<rparr>)))"

text \<open>A \<open>munmap\<close> that fails leaves the block.\<close>

definition shm_free :: "bool \<Rightarrow> nat \<Rightarrow> shm \<Rightarrow> shm result" where
  "shm_free munmap ptr h = and_then (fetch_object ptr h) (\<lambda>_. Inr (if munmap then h(ptr := None) else h))"

definition shmMalloc :: "nat \<Rightarrow> nat option \<Rightarrow> nat \<Rightarrow> shm \<Rightarrow> nat option \<times> shm" where
  "shmMalloc = shm_alloc"

definition ShmCalloc :: "nat \<Rightarrow> nat option \<Rightarrow> nat \<Rightarrow> nat \<Rightarrow> shm \<Rightarrow> nat option \<times> shm" where
  "ShmCalloc page mmap num n = shm_alloc page mmap (num * n mod size_lim)"

text \<open>\<open>memcpy\<close> between two blocks, from the start of each.\<close>

definition copy_block :: "nat \<Rightarrow> nat \<Rightarrow> nat \<Rightarrow> shm \<Rightarrow> shm result" where
  "copy_block dst src n h =
     and_then (fetch_object src h) (\<lambda>s.
     and_then (fetch_object dst h) (\<lambda>d.
     if length (memory s) < n \<or> length (memory d) < n then Inl Out_Of_Bounds
     else Inr (h(dst \<mapsto> d\<lparr>memory := overwrite 0 (take n (memory s)) (memory d)\<rparr>))))"

definition Realloc :: "nat \<Rightarrow> nat option \<Rightarrow> bool \<Rightarrow> nat \<Rightarrow> nat \<Rightarrow> shm \<Rightarrow> (nat option \<times> shm) result" where
  "Realloc page mmap munmap ptr new_size h =
     (case shmMalloc page mmap new_size h of
        (None, h) \<Rightarrow> Inr (None, h)
      | (Some new_ptr, h) \<Rightarrow>
          and_then (fetch_object ptr h) (\<lambda>object.
          and_then (copy_block new_ptr ptr (region_size object) h) (\<lambda>h.
          and_then (shm_free munmap ptr h) (\<lambda>h. Inr (Some new_ptr, h)))))"

text \<open>A store by the owner of the block.\<close>

definition store :: "nat \<Rightarrow> nat \<Rightarrow> byte list \<Rightarrow> shm \<Rightarrow> shm result" where
  "store ptr i xs h = and_then (fetch_object ptr h) (\<lambda>r.
     if length (memory r) < i + length xs then Inl Out_Of_Bounds
     else Inr (h(ptr \<mapsto> r\<lparr>memory := overwrite i xs (memory r)\<rparr>)))"

text \<open>The protection of the pages is not part of a block; \<open>mprotect\<close> succeeds or not.\<close>

definition ShmProtect :: "bool \<Rightarrow> nat \<Rightarrow> shm \<Rightarrow> int result" where
  "ShmProtect mprotect addr h = and_then (fetch_object addr h) (\<lambda>_. Inr (if mprotect then 0 else -1))"

text \<open>\<open>ShmMapFree\<close> has a result and returns none.\<close>

definition ShmMapFree :: "bool \<Rightarrow> nat \<Rightarrow> shm \<Rightarrow> shm result" where
  "ShmMapFree munmap ptr h = and_then (shm_free munmap ptr h) (\<lambda>_. Inl No_Return)"

section \<open>Invariant\<close>

definition shm_ok :: "nat \<Rightarrow> shm \<Rightarrow> bool" where
  "shm_ok page h \<longleftrightarrow> (\<forall>p r. h p = Some r \<longrightarrow> 8 \<le> region_size r \<and> length (memory r) = page_round page (region_size r) - 8)"

definition user_size :: "shm \<Rightarrow> nat \<Rightarrow> nat" where
  "user_size h p = region_size (the (h p)) - 8"

definition user_bytes :: "shm \<Rightarrow> nat \<Rightarrow> byte list" where
  "user_bytes h p = take (user_size h p) (memory (the (h p)))"

lemma page_round_ge: "0 < page \<Longrightarrow> n \<le> page_round page n"
proof -
  assume "0 < page"
  then have "n + page - 1 < (n + page - 1) div page * page + page"
    using div_mult_mod_eq [of "n + page - 1" page] mod_less_divisor [of page "n + page - 1"] by linarith
  then show ?thesis unfolding page_round_def using \<open>0 < page\<close> by linarith
qed

lemma length_user_bytes:
  assumes "shm_ok page h" and "h p = Some r" and "0 < page"
  shows "length (user_bytes h p) = user_size h p"
  using assms page_round_ge [of page "region_size r"] by (simp add: user_bytes_def user_size_def shm_ok_def)

lemma shm_alloc_ok:
  assumes "shm_ok page h" and "n + 8 < size_lim"
  shows "\<exists>h'. shm_alloc page (Some mem) n h = (Some (mem + 8), h') \<and> shm_ok page h' \<and>
    h' (mem + 8) = Some \<lparr>region_size = n + 8, memory = replicate (page_round page (n + 8) - 8) 0\<rparr> \<and>
    (\<forall>p. p \<noteq> mem + 8 \<longrightarrow> h' p = h p)"
  using assms by (auto simp: shm_alloc_def size_simps shm_ok_def Let_def)

section \<open>Properties\<close>

text \<open>
  what \<open>Realloc\<close> does.  The size it copies is that of the mapping and not of the
  user's bytes, eight more.  When these fit in the pages of both blocks, the new block holds the old
  bytes as far as both sizes go, the old one is gone and no other is touched; else the copy runs over
  the end of a mapping.
\<close>

theorem Realloc_spec:
  assumes "shm_ok page h" and "0 < page" and "h p = Some r" and "h (mem + 8) = None" and "new_size + 8 < size_lim"
  defines "n \<equiv> user_size h p" and "q \<equiv> mem + 8"
  shows "if n + 16 \<le> page_round page (n + 8) \<and> n + 16 \<le> page_round page (new_size + 8)
    then \<exists>h'. Realloc page (Some mem) True p new_size h = Inr (Some q, h') \<and> shm_ok page h' \<and> h' p = None \<and>
      user_size h' q = new_size \<and> take (min n new_size) (user_bytes h' q) = take (min n new_size) (user_bytes h p) \<and>
      (\<forall>p'. p' \<noteq> p \<and> p' \<noteq> q \<longrightarrow> h' p' = h p')
    else Realloc page (Some mem) True p new_size h = Inl Out_Of_Bounds"
proof -
  let ?d = "\<lparr>region_size = new_size + 8, memory = replicate (page_round page (new_size + 8) - 8) (0::byte)\<rparr>"
  obtain h1 where h1: "shm_alloc page (Some mem) new_size h = (Some q, h1)" "shm_ok page h1" "h1 q = Some ?d"
      "\<forall>p. p \<noteq> q \<longrightarrow> h1 p = h p"
    using shm_alloc_ok [OF assms(1,5)] unfolding q_def by blast
  have pq: "p \<noteq> q" using assms(3,4) unfolding q_def by auto
  have r: "h1 p = Some r" "region_size r = n + 8" "length (memory r) = page_round page (n + 8) - 8"
    using assms(1,3) h1(4) pq by (auto simp: n_def user_size_def shm_ok_def)
  have run: "Realloc page (Some mem) True p new_size h = and_then (copy_block q p (n + 8) h1)
      (\<lambda>h. and_then (shm_free True p h) (\<lambda>h. Inr (Some q, h)))"
    by (simp add: Realloc_def shmMalloc_def h1(1) fetch_object_def r)
  show ?thesis
  proof (cases "n + 16 \<le> page_round page (n + 8) \<and> n + 16 \<le> page_round page (new_size + 8)")
    case False
    then have "copy_block q p (n + 8) h1 = Inl Out_Of_Bounds"
      using page_round_ge [OF assms(2), of "n + 8"] page_round_ge [OF assms(2), of "new_size + 8"]
      by (auto simp: copy_block_def fetch_object_def r h1(3))
    then show ?thesis using run False by simp
  next
    case fits: True
    have le: "n + 8 \<le> page_round page (n + 8) - 8" "n + 8 \<le> page_round page (new_size + 8) - 8"
      using fits by linarith+
    define m where "m = overwrite 0 (take (n + 8) (memory r)) (memory ?d)"
    have copy: "copy_block q p (n + 8) h1 = Inr (h1(q \<mapsto> ?d\<lparr>memory := m\<rparr>))"
      using le by (auto simp: copy_block_def fetch_object_def r h1(3) m_def)
    have len: "length m = page_round page (new_size + 8) - 8" using le r(3) by (simp add: m_def)
    have bytes: "take (min n new_size) m = take (min n new_size) (memory r)"
      using le r(3) by (simp add: m_def overwrite_def min_def)
    define h' where "h' = h1(q \<mapsto> ?d\<lparr>memory := m\<rparr>, p := None)"
    have at: "h' p = None" "h' q = Some (?d\<lparr>memory := m\<rparr>)" "\<And>p'. p' \<noteq> p \<Longrightarrow> p' \<noteq> q \<Longrightarrow> h' p' = h p'"
      using pq h1(4) by (simp_all add: h'_def)
    have "Realloc page (Some mem) True p new_size h = Inr (Some q, h')"
      using run copy pq r(1) by (simp add: shm_free_def fetch_object_def h'_def)
    moreover have "shm_ok page h'"
      unfolding shm_ok_def
    proof (intro allI impI)
      fix p' r' assume "h' p' = Some r'"
      then show "8 \<le> region_size r' \<and> length (memory r') = page_round page (region_size r') - 8"
        using at assms(1) len by (cases "p' = p"; cases "p' = q") (auto simp: shm_ok_def)
    qed
    moreover have "user_size h' q = new_size" by (simp add: user_size_def at)
    moreover have "take (min n new_size) (user_bytes h' q) = take (min n new_size) (user_bytes h p)"
      using bytes assms(3) by (simp add: user_bytes_def user_size_def at n_def [unfolded user_size_def] min.absorb1)
    ultimately have "Realloc page (Some mem) True p new_size h = Inr (Some q, h') \<and> shm_ok page h' \<and> h' p = None \<and>
      user_size h' q = new_size \<and> take (min n new_size) (user_bytes h' q) = take (min n new_size) (user_bytes h p) \<and>
      (\<forall>p'. p' \<noteq> p \<and> p' \<noteq> q \<longrightarrow> h' p' = h p')" using at by simp
    then show ?thesis using fits by auto
  qed
qed

theorem Realloc_spec_witness:
  "(let h = [108 \<mapsto> \<lparr>region_size = 12, memory = [1, 2, 3, 4] @ replicate 52 0\<rparr>] in
     \<exists>h'. Realloc 64 (Some 200) True 108 6 h = Inr (Some 208, h') \<and> shm_ok 64 h' \<and> h' 108 = None \<and>
       user_size h' 208 = 6 \<and> take 4 (user_bytes h' 208) = [1, 2, 3, 4])"
proof -
  let ?h = "[108 \<mapsto> \<lparr>region_size = 12, memory = [1, 2, 3, 4] @ replicate 52 0\<rparr>] :: shm"
  have "shm_ok 64 ?h" by (simp add: shm_ok_def page_round_def)
  from Realloc_spec [OF this, of 108 _ 200 6]
  show ?thesis by (fastforce simp: user_size_def user_bytes_def page_round_def)
qed

text \<open>
  An overflow in \<open>ShmCalloc\<close>.  The product of the two sizes wraps, and a block that is
  much too small is returned as if it were large enough.
\<close>

theorem ShmCalloc_overflows:
  "\<exists>h'. ShmCalloc page (Some mem) (2 ^ 33) (2 ^ 33) Map.empty = (Some (mem + 8), h') \<and> user_size h' (mem + 8) = 0"
  by (simp add: ShmCalloc_def shm_alloc_def size_add_def user_size_def Let_def)

end
