(* ===== verification/IO_Timer.thy ===== *)
theory IO_Timer
  imports Prelude
begin

text \<open>
  \<open>Net/IOTimer.h\<close>: a timer with a thread of its own, which calls every registered callback at
  each expiry.  Times are milliseconds from when the timer was made; a callback is a name in the log
  \<open>calls\<close>, with the time it was called for, or \<open>None\<close> for an empty function.

  The member \<open>work_\<close> is a work guard that the constructor assigns in its body; \<open>asio\<close>'s guard has
  neither a default constructor nor an assignment, so no \<open>IOTimer\<close> can be made until \<open>work_\<close> is
  initialised in the member list instead.  Nothing in the repository makes one.  What follows models
  the class with that one initialisation: the guard only keeps the thread's \<open>run\<close> from returning.
\<close>

section \<open>State and operations\<close>

text \<open>
  \<open>duration\<close> is \<open>None\<close> until it is set: the constructor leaves the field uninitialised.
  \<open>posted\<close> are the callbacks \<open>addTimer\<close> has posted and the thread not yet taken;
  \<open>stopped\<close> says that the service has been stopped and runs no handler any more.
\<close>

record 'f io_timer =
  funcs :: "'f option list"
  posted :: "'f option list"
  duration :: "nat option"
  isSingleShot :: bool
  isActive :: bool
  io_thread_started :: bool
  io_joined :: bool
  stopped :: bool
  expires_at :: nat
  pending_wait :: bool
  calls :: "(nat \<times> 'f) list"

definition IOTimer_new :: "'f io_timer" where
  "IOTimer_new = \<lparr>funcs = [], posted = [], duration = None, isSingleShot = False, isActive = False,
     io_thread_started = False, io_joined = False, stopped = False, expires_at = 0, pending_wait = False, calls = []\<rparr>"

definition setDuration :: "nat \<Rightarrow> 'f io_timer \<Rightarrow> 'f io_timer" where
  "setDuration d t = t\<lparr>duration := Some (d mod 2 ^ 32)\<rparr>"

definition setSingleShot :: "bool \<Rightarrow> 'f io_timer \<Rightarrow> 'f io_timer" where
  "setSingleShot b t = t\<lparr>isSingleShot := b\<rparr>"

text \<open>Reading the uninitialised field is undefined behaviour.\<close>

definition io_timer_run :: "'f io_timer \<Rightarrow> 'f io_timer result" where
  "io_timer_run t = (case duration t of None \<Rightarrow> Inl Out_Of_Bounds
     | Some d \<Rightarrow> Inr (t\<lparr>expires_at := expires_at t + d, pending_wait := True\<rparr>))"

definition io_timer_start :: "'f io_timer \<Rightarrow> 'f io_timer result" where
  "io_timer_start t = (if isActive t then Inl Assert_Failed
     else if io_thread_started t then Inl Assert_Failed
     else io_timer_run (t\<lparr>isActive := True, io_thread_started := True\<rparr>))"

definition io_timer_stop :: "'f io_timer \<Rightarrow> 'f io_timer result" where
  "io_timer_stop t = (if \<not> isActive t then Inl Assert_Failed
     else let t = t\<lparr>isActive := False, stopped := True\<rparr> in
     if \<not> io_thread_started t \<or> io_joined t then Inl Assert_Failed
     else Inr (t\<lparr>io_joined := True\<rparr>))"

definition IOTimer_delete :: "'f io_timer \<Rightarrow> 'f io_timer result" where
  "IOTimer_delete t = (if isActive t then io_timer_stop t else Inr t)"

definition io_addTimer :: "'f option \<Rightarrow> 'f io_timer \<Rightarrow> 'f io_timer" where
  "io_addTimer cb t = t\<lparr>posted := posted t @ [cb]\<rparr>"

definition io_addTimerInThisThread :: "'f option \<Rightarrow> 'f io_timer \<Rightarrow> 'f io_timer" where
  "io_addTimerInThisThread cb t = t\<lparr>funcs := funcs t @ [cb]\<rparr>"

definition call_func :: "'f option \<Rightarrow> 'f io_timer \<Rightarrow> 'f io_timer result" where
  "call_func cb t = (case cb of None \<Rightarrow> Inl Bad_Function_Call | Some f \<Rightarrow> Inr (t\<lparr>calls := calls t @ [(expires_at t, f)]\<rparr>))"

definition io_timerHandle :: "bool \<Rightarrow> 'f io_timer \<Rightarrow> 'f io_timer result" where
  "io_timerHandle success t = (if \<not> success then Inr t
     else and_then (fold_result call_func (funcs t) t) (\<lambda>t.
       if \<not> isSingleShot t then io_timer_run t else Inr t))"

text \<open>
  What happens after the start: a call from any thread, the service running the next posted task,
  and the wait that ends.  A stopped service runs nothing.
\<close>

datatype 'f io_event = IO_Add "'f option" | IO_Task | IO_Expire bool | IO_Single bool

fun io_step :: "'f io_event \<Rightarrow> 'f io_timer \<Rightarrow> 'f io_timer result" where
  "io_step (IO_Add cb) t = Inr (io_addTimer cb t)"
| "io_step (IO_Single b) t = Inr (setSingleShot b t)"
| "io_step IO_Task t = (if stopped t then Inr t else (case posted t of [] \<Rightarrow> Inr t
     | cb # r \<Rightarrow> Inr (io_addTimerInThisThread cb (t\<lparr>posted := r\<rparr>))))"
| "io_step (IO_Expire ok) t = (if stopped t \<or> \<not> pending_wait t then Inr t
     else io_timerHandle ok (t\<lparr>pending_wait := False\<rparr>))"

section \<open>Properties\<close>

definition added :: "'f io_event list \<Rightarrow> 'f option list" where
  "added es = concat (map (\<lambda>e. case e of IO_Add cb \<Rightarrow> [cb] | _ \<Rightarrow> []) es)"

definition expiries :: "'f io_event list \<Rightarrow> nat" where
  "expiries es = length (filter (\<lambda>e. e = IO_Expire True) es)"

text \<open>
  What a timer of period \<open>d\<close> that next expires at \<open>x\<close> is to call, and when: at each
  expiry every callback registered by then.
\<close>

fun schedule :: "nat \<Rightarrow> 'f option list \<Rightarrow> 'f option list \<Rightarrow> nat \<Rightarrow> 'f io_event list \<Rightarrow> (nat \<times> 'f) list" where
  "schedule d registered waiting x [] = []"
| "schedule d registered waiting x (IO_Add cb # es) = schedule d registered (waiting @ [cb]) x es"
| "schedule d registered waiting x (IO_Task # es) =
     schedule d (registered @ take 1 waiting) (drop 1 waiting) x es"
| "schedule d registered waiting x (IO_Expire ok # es) =
     map (\<lambda>cb. (x, the cb)) registered @ schedule d registered waiting (x + d) es"
| "schedule d registered waiting x (IO_Single b # es) = schedule d registered waiting x es"

lemma call_funcs:
  assumes "None \<notin> set cbs"
  shows "fold_result call_func cbs t = Inr (t\<lparr>calls := calls t @ map (\<lambda>cb. (expires_at t, the cb)) cbs\<rparr>)"
  using assms
proof (induction cbs arbitrary: t)
  case (Cons cb cbs)
  then obtain f where "cb = Some f" by (cases cb) auto
  then show ?case using Cons by (simp add: call_func_def)
qed simp

text \<open>A started timer of period \<open>d\<close> between two events.\<close>

definition periodic :: "nat \<Rightarrow> 'f io_timer \<Rightarrow> bool" where
  "periodic d t \<longleftrightarrow> duration t = Some d \<and> \<not> isSingleShot t \<and> \<not> stopped t \<and> pending_wait t"

lemma periodic_run:
  assumes "periodic d t" and "None \<notin> set (funcs t @ posted t @ added es)"
    and "\<forall>e\<in>set es. (\<exists>cb. e = IO_Add cb) \<or> e = IO_Task \<or> e = IO_Expire True"
  shows "\<exists>t'. fold_result io_step es t = Inr t' \<and> periodic d t' \<and> expires_at t' = expires_at t + expiries es * d \<and>
    funcs t' @ posted t' = funcs t @ posted t @ added es \<and>
    calls t' = calls t @ schedule d (funcs t) (posted t) (expires_at t) es"
  using assms
proof (induction es arbitrary: t)
  case Nil
  then show ?case by (simp add: added_def expiries_def)
next
  case (Cons e es)
  have later: "\<forall>e\<in>set es. (\<exists>cb. e = IO_Add cb) \<or> e = IO_Task \<or> e = IO_Expire True" using Cons.prems(3) by simp
  consider cb where "e = IO_Add cb" | "e = IO_Task" | "e = IO_Expire True" using Cons.prems(3) by auto
  then show ?case
  proof cases
    case 1
    then show ?thesis using Cons.IH [of "io_addTimer cb t", OF _ _ later] Cons.prems(1,2)
      by (auto simp: periodic_def io_addTimer_def added_def expiries_def)
  next
    case 2
    show ?thesis
    proof (cases "posted t")
      case Nil
      then show ?thesis using 2 Cons.IH [OF Cons.prems(1) _ later] Cons.prems(1,2)
        by (auto simp: periodic_def added_def expiries_def)
    next
      case (Cons cb r)
      then show ?thesis using 2 Cons.IH [of "io_addTimerInThisThread cb (t\<lparr>posted := r\<rparr>)", OF _ _ later] Cons.prems(1,2)
        by (auto simp: periodic_def io_addTimerInThisThread_def added_def expiries_def)
    qed
  next
    case 3
    let ?t = "t\<lparr>pending_wait := False\<rparr>"
    let ?u = "?t\<lparr>calls := calls t @ map (\<lambda>cb. (expires_at t, the cb)) (funcs t), expires_at := expires_at t + d, pending_wait := True\<rparr>"
    have "io_step (IO_Expire True) t = Inr ?u"
      using Cons.prems(1,2) call_funcs [of "funcs t" ?t] by (simp add: periodic_def io_timerHandle_def io_timer_run_def)
    then show ?thesis using 3 Cons.IH [of ?u, OF _ _ later] Cons.prems(1,2)
      by (auto simp: periodic_def added_def expiries_def)
  qed
qed

text \<open>
  C34: the timer does not drift and forgets nothing.  Started with a period of \<open>d\<close>
  milliseconds, after any additions, tasks and expiries it waits for the next multiple of \<open>d\<close>; at
  each multiple so far it has called the callbacks registered by then, each once and in the order of
  registration, and nothing at any other time; and every callback added is registered or about to be.
\<close>

theorem io_timer_periodic:
  assumes "d < 2 ^ 32" and "None \<notin> set (added es)"
    and "\<forall>e\<in>set es. (\<exists>cb. e = IO_Add cb) \<or> e = IO_Task \<or> e = IO_Expire True"
  shows "\<exists>t. and_then (io_timer_start (setDuration d IOTimer_new)) (fold_result io_step es) = Inr t \<and>
    expires_at t = (expiries es + 1) * d \<and> funcs t @ posted t = added es \<and> calls t = schedule d [] [] d es"
proof -
  let ?t0 = "(setDuration d IOTimer_new)\<lparr>isActive := True, io_thread_started := True, expires_at := d, pending_wait := True\<rparr>"
  have start: "io_timer_start (setDuration d IOTimer_new) = Inr ?t0"
    using assms(1) by (simp add: io_timer_start_def io_timer_run_def setDuration_def IOTimer_new_def)
  have "periodic d ?t0" using assms(1) by (simp add: periodic_def setDuration_def IOTimer_new_def)
  from periodic_run [OF this _ assms(3)] assms(2) show ?thesis
    unfolding start and_then_Inr by (auto simp: setDuration_def IOTimer_new_def)
qed

theorem io_timer_periodic_witness:
  "\<exists>t. and_then (io_timer_start (setDuration 50 IOTimer_new))
      (fold_result io_step [IO_Add (Some ''a''), IO_Task, IO_Expire True, IO_Add (Some ''b''), IO_Task, IO_Expire True]) = Inr t \<and>
    expires_at t = 150 \<and> calls t = [(50, ''a''), (100, ''a''), (100, ''b'')]"
  using io_timer_periodic [of 50 "[IO_Add (Some ''a''), IO_Task, IO_Expire True, IO_Add (Some ''b''), IO_Task, IO_Expire True]"]
  by (auto simp: added_def expiries_def)

text \<open>
  Three ways to misuse the timer: started before a period is set, it reads an uninitialised
  field; stopped, it cannot be started again; and an empty callback ends its thread with an exception.
\<close>

theorem io_timer_misuse:
  "io_timer_start (IOTimer_new :: 'f io_timer) = Inl Out_Of_Bounds \<and>
   and_then (io_timer_start (setDuration d (IOTimer_new :: 'f io_timer)))
     (\<lambda>t. and_then (io_timer_stop t) io_timer_start) = Inl Assert_Failed \<and>
   and_then (io_timer_start (setDuration d (IOTimer_new :: 'f io_timer)))
     (fold_result io_step [IO_Add None, IO_Task, IO_Expire True]) = Inl Bad_Function_Call"
  by (simp add: io_timer_start_def io_timer_stop_def io_timer_run_def setDuration_def IOTimer_new_def io_addTimer_def
    io_addTimerInThisThread_def io_timerHandle_def call_func_def Let_def)

end
