(* ===== verification/Signals.thy ===== *)
theory Signals
  imports Prelude
begin

text \<open>
  \<open>Signal/Signal.h/.cpp\<close>: handlers for signals.  The table \<open>signals_\<close> is a vector of which
  the constructor reserves room for \<open>SIGNO_MAX\<close> elements without making any; an access to an
  element that is not there is a fault.
\<close>

section \<open>State and operations\<close>

text \<open>What a signal can be set to: the two dispositions of the system, the class's own handler, the user's.\<close>

datatype 'h signal_handler = SIG_DFL | SIG_IGN | Async_Handler | User_Handler 'h

record 'h signal_data =
  signal_callback :: "'h signal_handler option"
  signo :: nat
  activated :: bool

text \<open>\<open>dispositions\<close> is what the process has set for each signal; \<open>invoked\<close> the user's handlers called, \<open>warnings\<close> the number of warnings logged.\<close>

record 'h signals =
  signal_table :: "'h signal_data list"
  signal_lock :: bool
  dispositions :: "int \<Rightarrow> 'h signal_handler"
  invoked :: "('h \<times> int) list"
  all_blocked :: bool
  warnings :: nat

definition SIGNO_MAX :: int where
  "SIGNO_MAX = 128"

definition Signal_new :: "'h signals" where
  "Signal_new = \<lparr>signal_table = [], signal_lock = False, dispositions = (\<lambda>_. SIG_DFL), invoked = [],
     all_blocked = False, warnings = 0\<rparr>"

definition signal_at :: "int \<Rightarrow> 'h signals \<Rightarrow> 'h signal_data result" where
  "signal_at n s = (if 0 \<le> n \<and> nat n < length (signal_table s) then Inr (signal_table s ! nat n) else Inl Out_Of_Bounds)"

text \<open>
  The argument: null, the \<open>-1\<close> that clears, or a handler.  \<open>sigaction\<close> succeeds or not, and
  gives the old disposition.
\<close>

datatype 'h handler_arg = Null_Handler | Clear_Handler | The_Handler "'h signal_handler"

definition signalSet_mask :: "bool \<Rightarrow> int \<Rightarrow> 'h handler_arg \<Rightarrow> 'h signals \<Rightarrow> 'h signal_handler option \<times> 'h signals" where
  "signalSet_mask sigaction n cb s =
     (let act = (case cb of Null_Handler \<Rightarrow> SIG_IGN | Clear_Handler \<Rightarrow> SIG_DFL | The_Handler h \<Rightarrow> h) in
      if \<not> sigaction then (None, s)
      else (Some (dispositions s n), s\<lparr>dispositions := (dispositions s)(n := act)\<rparr>))"

text \<open>The overload without a mask has a result and returns none.\<close>

definition signalSet :: "bool \<Rightarrow> int \<Rightarrow> 'h signal_handler option \<Rightarrow> 'h signals \<Rightarrow> 'h signals result" where
  "signalSet sigaction n cb s =
     and_then (signal_at n s) (\<lambda>d.
       let s = s\<lparr>signal_table := (signal_table s)[nat n := d\<lparr>signal_callback := cb, activated := True, signo := nat n\<rparr>]\<rparr>;
           s = snd (signalSet_mask sigaction n (The_Handler Async_Handler) s)
       in Inl No_Return)"

definition signalGetHandler :: "int \<Rightarrow> 'h signals \<Rightarrow> ('h signal_handler option \<times> 'h signals) result" where
  "signalGetHandler n s = (if n > SIGNO_MAX then Inr (None, s\<lparr>warnings := warnings s + 1\<rparr>) else and_then (signal_at n s) (\<lambda>d. Inr (signal_callback d, s)))"

definition signalClear :: "bool \<Rightarrow> 'h signals \<Rightarrow> 'h signals result" where
  "signalClear sigaction s =
     and_then (fold_result (\<lambda>i s. and_then (signal_at (int i) s) (\<lambda>d.
         Inr (if activated d then snd (signalSet_mask sigaction (int (signo d)) Clear_Handler s) else s)))
       [0..<nat SIGNO_MAX] s) (\<lambda>s. Inr (s\<lparr>signal_table := []\<rparr>))"

text \<open>\<open>pthread_sigmask\<close> returns 0 or a positive error number.\<close>

definition signalNone :: "int \<Rightarrow> 'h signals \<Rightarrow> 'h signals" where
  "signalNone ret s =
     (let s = (if ret = 0 then s\<lparr>all_blocked := True\<rparr> else s) in
      if ret < 0 then s\<lparr>warnings := warnings s + 1\<rparr> else s)"

text \<open>\<open>kill\<close> names itself and not the system call; \<open>depth\<close> is the room on the stack.\<close>

fun signal_kill :: "nat \<Rightarrow> int \<Rightarrow> int \<Rightarrow> int result" where
  "signal_kill depth pid sig = (if pid \<le> 0 then Inr (-1)
     else (case depth of 0 \<Rightarrow> Inl Stack_Overflow | Suc depth \<Rightarrow> signal_kill depth pid sig))"

declare signal_kill.simps [simp del]

definition signalCallback :: "int \<Rightarrow> 'h signals \<Rightarrow> 'h signals result" where
  "signalCallback n s = (if n \<ge> SIGNO_MAX then Inr (s\<lparr>warnings := warnings s + 1\<rparr>)
     else and_then (signal_at n s) (\<lambda>d. case signal_callback d of
         Some (User_Handler h) \<Rightarrow> Inr (s\<lparr>invoked := invoked s @ [(h, n)]\<rparr>)
       | Some _ \<Rightarrow> Inl Bad_Function_Call
       | None \<Rightarrow> Inr (s\<lparr>warnings := warnings s + 1\<rparr>)))"

definition signalAsyncHandler :: "int \<Rightarrow> 'h signals \<Rightarrow> 'h signals result" where
  "signalAsyncHandler n s = (if signal_lock s then Inr s
     else and_then (signalCallback n (s\<lparr>signal_lock := True\<rparr>)) (\<lambda>s. Inr (s\<lparr>signal_lock := False\<rparr>)))"

section \<open>Properties\<close>

text \<open>
  No signal can be handled.  The table has no elements, so every operation that reads it
  is an access out of bounds, for every signal number it lets through; and \<open>kill\<close> of any process
  calls itself until the stack ends.
\<close>

theorem Signal_unusable:
  "signalSet sigaction n cb (Signal_new :: 'h signals) = Inl Out_Of_Bounds \<and>
   signalClear sigaction (Signal_new :: 'h signals) = Inl Out_Of_Bounds \<and>
   signalGetHandler n (Signal_new :: 'h signals) = (if n \<le> 128 then Inl Out_Of_Bounds else Inr (None, Signal_new\<lparr>warnings := 1\<rparr>)) \<and>
   signalAsyncHandler n (Signal_new :: 'h signals) = (if n < 128 then Inl Out_Of_Bounds else Inr (Signal_new\<lparr>warnings := 1\<rparr>)) \<and>
   signal_kill depth pid sig = (if 0 < pid then Inl Stack_Overflow else Inr (-1))"
proof -
  have "signal_kill depth pid sig = (if 0 < pid then Inl Stack_Overflow else Inr (-1))"
    by (induction depth; subst signal_kill.simps; simp)
  moreover have "[0..<nat SIGNO_MAX] = 0 # [1..<nat SIGNO_MAX]" by (simp add: SIGNO_MAX_def upt_conv_Cons)
  ultimately show ?thesis
    by (simp add: signalSet_def signalClear_def signalGetHandler_def signalAsyncHandler_def signalCallback_def
      signal_at_def Signal_new_def SIGNO_MAX_def)
qed

end
