(* ===== verification/Unix_Socket.thy ===== *)
theory Unix_Socket
  imports File_IO
begin

unbundle bit_operations_syntax

text \<open>
  \<open>UnixSocket/UnixSocket.h/.cpp\<close>: a pair of connected local sockets, the flags of their
  descriptors and the sizes of their buffers.  As in \<open>File_IO\<close>, the calls of \<open>fcntl\<close> are answered
  by the elements of a list.  The log statements, whose parentheses do not match in the source, are
  read with matching ones.  The outcome \<open>No_Return\<close> is the end of a \<open>bool\<close> function without a return.
\<close>

section \<open>State\<close>

text \<open>What the kernel keeps for a descriptor; \<open>O_NONBLOCK\<close> and \<open>FD_CLOEXEC\<close> have their values on Linux.\<close>

record kernel =
  status_flags :: "int \<Rightarrow> int32"
  fd_flags :: "int \<Rightarrow> int32"
  rcvbuf :: "int \<Rightarrow> int32"
  sndbuf :: "int \<Rightarrow> int32"
  warnings :: nat

definition O_NONBLOCK :: int32 where
  "O_NONBLOCK = 2048"

definition FD_CLOEXEC :: int32 where
  "FD_CLOEXEC = 1"

text \<open>
  \<open>socks\<close> is \<open>None\<close> before \<open>socketpair\<close> has filled it; a socket object is the descriptor it was
  assigned, or \<open>None\<close> when null; \<open>closes\<close> are the descriptors closed, in order.
\<close>

record socket_pair =
  socks :: "(int \<times> int) option"
  masterSocket :: "int option"
  workerSocket :: "int option"
  closes :: "int list"

section \<open>Flags\<close>

datatype fcntl_answer = Done | Failed errno

definition warn :: "kernel \<Rightarrow> kernel" where
  "warn k = k\<lparr>warnings := warnings k + 1\<rparr>"

text \<open>The loop \<open>do ret = fcntl(...); while (ret < 0 && errno == EINTR)\<close>: whether the call succeeded at last.\<close>

fun fcntl_retry :: "fcntl_answer list \<Rightarrow> (bool \<times> fcntl_answer list) option" where
  "fcntl_retry [] = None"
| "fcntl_retry (Done # as) = Some (True, as)"
| "fcntl_retry (Failed e # as) = (if e = EINTR then fcntl_retry as else Some (False, as))"

text \<open>Each part returns the early \<open>return false\<close> as \<open>False\<close>.\<close>

definition set_nonblock :: "fcntl_answer list \<Rightarrow> int \<Rightarrow> int32 \<Rightarrow> kernel \<Rightarrow> (bool \<times> kernel \<times> fcntl_answer list) option" where
  "set_nonblock as sock nonblock k = (case fcntl_retry as of
     None \<Rightarrow> None
   | Some (ok, as) \<Rightarrow> if \<not> ok then Some (False, warn k, as) else
       (let opts = status_flags k sock;
            opts = (if nonblock \<noteq> 0 then opts OR O_NONBLOCK else opts AND NOT O_NONBLOCK) in
        case fcntl_retry as of
          None \<Rightarrow> None
        | Some (ok, as) \<Rightarrow> if \<not> ok then Some (False, warn k, as)
            else Some (True, k\<lparr>status_flags := (status_flags k)(sock := opts)\<rparr>, as)))"

text \<open>A failed \<open>F_GETFD\<close> is only logged, so \<open>opts\<close> is -1 then; of the flags set the kernel keeps \<open>FD_CLOEXEC\<close>.\<close>

definition set_cloexec :: "fcntl_answer list \<Rightarrow> int \<Rightarrow> int32 \<Rightarrow> kernel \<Rightarrow> (bool \<times> kernel \<times> fcntl_answer list) option" where
  "set_cloexec as sock cloexec k = (case fcntl_retry as of
     None \<Rightarrow> None
   | Some (ok, as) \<Rightarrow>
       (let opts = (if ok then fd_flags k sock else -1);
            k = (if ok then k else warn k);
            opts = (if cloexec \<noteq> 0 then opts OR FD_CLOEXEC else opts AND NOT FD_CLOEXEC) in
        case fcntl_retry as of
          None \<Rightarrow> None
        | Some (ok, as) \<Rightarrow> if \<not> ok then Some (False, warn k, as)
            else Some (True, k\<lparr>fd_flags := (fd_flags k)(sock := opts AND FD_CLOEXEC)\<rparr>, as)))"

definition set_sock_blocking ::
  "fcntl_answer list \<Rightarrow> int \<Rightarrow> int32 \<Rightarrow> int32 \<Rightarrow> kernel \<Rightarrow> (bool \<times> kernel \<times> fcntl_answer list) option" where
  "set_sock_blocking as sock nonblock cloexec k =
     (case (if 0 \<le> sint nonblock then set_nonblock as sock nonblock k else Some (True, k, as)) of
        None \<Rightarrow> None
      | Some (ok, k, as) \<Rightarrow> if \<not> ok then Some (False, k, as)
          else if 0 \<le> sint cloexec then set_cloexec as sock cloexec k else Some (True, k, as))"

text \<open>\<open>setBlocking\<close> ends without a return.\<close>

definition setBlocking :: "fcntl_answer list \<Rightarrow> int32 \<Rightarrow> int32 \<Rightarrow> socket_pair \<Rightarrow> kernel \<Rightarrow> (bool result \<times> kernel) option" where
  "setBlocking as nonblock cloexec p k = (case socks p of
     None \<Rightarrow> Some (Inl Out_Of_Bounds, k)
   | Some (s0, s1) \<Rightarrow> (case set_sock_blocking as s0 nonblock cloexec k of
        None \<Rightarrow> None
      | Some (_, k, as) \<Rightarrow> (case set_sock_blocking as s1 nonblock cloexec k of
          None \<Rightarrow> None
        | Some (_, k, _) \<Rightarrow> Some (Inl No_Return, k))))"

section \<open>Buffer sizes\<close>

datatype sock_option = SO_RCVBUF | SO_SNDBUF

text \<open>\<open>setsockopt\<close> returns 0 when it succeeds (\<open>ok\<close>), so the \<open>bool\<close> is true when it failed.\<close>

definition set_option :: "bool \<Rightarrow> int \<Rightarrow> sock_option \<Rightarrow> int32 \<Rightarrow> kernel \<Rightarrow> bool \<times> kernel" where
  "set_option ok sock opt val k = (c_result ok \<noteq> 0,
     if \<not> ok then k else case opt of
       SO_RCVBUF \<Rightarrow> k\<lparr>rcvbuf := (rcvbuf k)(sock := val)\<rparr>
     | SO_SNDBUF \<Rightarrow> k\<lparr>sndbuf := (sndbuf k)(sock := val)\<rparr>)"

definition setRecvBuffSize :: "bool \<Rightarrow> bool \<Rightarrow> int32 \<Rightarrow> socket_pair \<Rightarrow> kernel \<Rightarrow> bool result \<times> kernel" where
  "setRecvBuffSize ok0 ok1 n p k = (case socks p of
     None \<Rightarrow> (Inl Out_Of_Bounds, k)
   | Some (s0, s1) \<Rightarrow>
       let (failed, k) = set_option ok0 s0 SO_RCVBUF n k in
       if failed then (Inr False, warn k) else
       let (failed, k) = set_option ok1 s1 SO_RCVBUF n k in
       if failed then (Inr False, warn k) else (Inr True, k))"

definition setSendBuffSize :: "bool \<Rightarrow> bool \<Rightarrow> int32 \<Rightarrow> socket_pair \<Rightarrow> kernel \<Rightarrow> bool result \<times> kernel" where
  "setSendBuffSize ok0 ok1 n p k = (case socks p of
     None \<Rightarrow> (Inl Out_Of_Bounds, k)
   | Some (s0, s1) \<Rightarrow>
       let (failed, k) = set_option ok0 s0 SO_SNDBUF n k in
       if failed then (Inr False, warn k) else
       let (failed, k) = set_option ok1 s1 SO_SNDBUF n k in
       if failed then (Inr False, warn k) else (Inr True, k))"

text \<open>\<open>setBufferSize\<close> returns only when one of the two has failed.\<close>

definition setBufferSize :: "bool \<Rightarrow> bool \<Rightarrow> bool \<Rightarrow> bool \<Rightarrow> int32 \<Rightarrow> socket_pair \<Rightarrow> kernel \<Rightarrow> bool result \<times> kernel" where
  "setBufferSize r0 r1 s0 s1 n p k =
     (case setRecvBuffSize r0 r1 n p k of
        (Inl e, k) \<Rightarrow> (Inl e, k)
      | (Inr ok, k) \<Rightarrow> if \<not> ok then (Inr False, k) else
          (case setSendBuffSize s0 s1 n p k of
             (Inl e, k) \<Rightarrow> (Inl e, k)
           | (Inr ok, k) \<Rightarrow> if \<not> ok then (Inr False, k) else (Inl No_Return, k)))"

section \<open>Sockets\<close>

text \<open>\<open>pair\<close> is what \<open>socketpair\<close> gives, or \<open>None\<close> when it fails.\<close>

definition UnixSocket_new :: "(int \<times> int) option \<Rightarrow> socket_pair" where
  "UnixSocket_new pair = \<lparr>socks = pair, masterSocket = None, workerSocket = None, closes = []\<rparr>"

text \<open>Both branches assign \<open>socks[1]\<close>; neither returns.\<close>

definition initSocket :: "bool \<Rightarrow> socket_pair \<Rightarrow> bool result \<times> socket_pair" where
  "initSocket master p = (case socks p of
     None \<Rightarrow> (Inl Out_Of_Bounds, p)
   | Some (s0, s1) \<Rightarrow> (Inl No_Return,
       if master then (if masterSocket p = None then p\<lparr>masterSocket := Some s1\<rparr> else p)
       else (if workerSocket p = None then p\<lparr>workerSocket := Some s1\<rparr> else p)))"

definition getSocket :: "bool \<Rightarrow> socket_pair \<Rightarrow> int option" where
  "getSocket master p = (if master then masterSocket p else workerSocket p)"

definition socket_ready :: "socket_pair \<Rightarrow> bool" where
  "socket_ready p \<longleftrightarrow> masterSocket p \<noteq> None \<and> workerSocket p \<noteq> None"

definition SocketPair_delete :: "socket_pair \<Rightarrow> socket_pair" where
  "SocketPair_delete p =
     (let p = (case masterSocket p of None \<Rightarrow> p | Some s \<Rightarrow> p\<lparr>closes := closes p @ [s]\<rparr>) in
      case workerSocket p of None \<Rightarrow> p | Some s \<Rightarrow> p\<lparr>closes := closes p @ [s]\<rparr>)"

section \<open>Retrying\<close>

text \<open>A call that is only ever interrupted succeeds in the end.\<close>

lemma fcntl_retry_interrupted: "fcntl_retry (replicate n (Failed EINTR) @ Done # as) = Some (True, as)"
  by (induction n) simp_all

lemma fcntl_retry_failed: "e \<noteq> EINTR \<Longrightarrow> fcntl_retry (replicate n (Failed EINTR) @ Failed e # as) = Some (False, as)"
  by (induction n) simp_all

text \<open>What the flags become.\<close>

definition flag_set :: "int32 \<Rightarrow> int32 \<Rightarrow> int32 \<Rightarrow> int32" where
  "flag_set v flag opts = (if sint v < 0 then opts else if v \<noteq> 0 then opts OR flag else opts AND NOT flag)"

lemma flag_set_bits:
  "0 \<le> sint v \<Longrightarrow> flag_set v flag opts AND flag = (if v \<noteq> 0 then flag else 0)"
  "flag_set v flag opts AND NOT flag = opts AND NOT flag"
  by (auto simp: flag_set_def bit_eq_iff bit_simps)

section \<open>Properties\<close>

text \<open>The answers to the calls for a flag that is asked for: each interrupted so many times, then done.\<close>

definition answers_for :: "int32 \<Rightarrow> nat list \<Rightarrow> fcntl_answer list" where
  "answers_for v ns = (if sint v < 0 then [] else concat (map (\<lambda>n. replicate n (Failed EINTR) @ [Done]) ns))"

lemma flag_set_only:
  assumes "opts AND NOT flag = 0"
  shows "flag_set v flag opts = (if sint v < 0 then opts else if v \<noteq> 0 then flag else 0)"
proof -
  have "opts OR flag = flag" using assms by (simp add: bit_eq_iff bit_simps) blast
  then show ?thesis using assms by (simp add: flag_set_def)
qed

lemma set_cloexec_done:
  assumes "0 \<le> sint v" and "fd_flags k sock AND NOT FD_CLOEXEC = 0"
  shows "set_cloexec (answers_for v [c, d] @ rest) sock v k =
    Some (True, k\<lparr>fd_flags := (fd_flags k)(sock := flag_set v FD_CLOEXEC (fd_flags k sock))\<rparr>, rest)"
proof (cases "v = 0")
  case True
  then show ?thesis using flag_set_only [OF assms(2), of v] assms
    by (simp add: set_cloexec_def answers_for_def fcntl_retry_interrupted Let_def)
next
  case False
  have "(fd_flags k sock OR FD_CLOEXEC) AND FD_CLOEXEC = FD_CLOEXEC" by (simp add: bit_eq_iff bit_simps)
  then show ?thesis using False flag_set_only [OF assms(2), of v] assms(1)
    by (simp add: set_cloexec_def answers_for_def fcntl_retry_interrupted Let_def)
qed

text \<open>
  \<open>set_sock_blocking\<close> sets exactly the flags asked for.  However often its calls are
  interrupted, when none of them fails otherwise it returns true, sets or clears \<open>O_NONBLOCK\<close> and
  \<open>FD_CLOEXEC\<close> as its arguments say (a negative one leaves the flag alone), and changes no other flag
  of the descriptor and nothing of another; it needs two answers for each flag and one for each
  interruption.
\<close>

theorem set_sock_blocking_sets:
  assumes "fd_flags k sock AND NOT FD_CLOEXEC = 0"
  shows "set_sock_blocking (answers_for nonblock [a, b] @ answers_for cloexec [c, d] @ rest) sock nonblock cloexec k =
      Some (True, k\<lparr>status_flags := (status_flags k)(sock := flag_set nonblock O_NONBLOCK (status_flags k sock)),
           fd_flags := (fd_flags k)(sock := flag_set cloexec FD_CLOEXEC (fd_flags k sock))\<rparr>, rest) \<and>
    flag_set nonblock O_NONBLOCK (status_flags k sock) AND O_NONBLOCK =
      (if sint nonblock < 0 then status_flags k sock AND O_NONBLOCK else if nonblock \<noteq> 0 then O_NONBLOCK else 0) \<and>
    flag_set nonblock O_NONBLOCK (status_flags k sock) AND NOT O_NONBLOCK = status_flags k sock AND NOT O_NONBLOCK \<and>
    flag_set cloexec FD_CLOEXEC (fd_flags k sock) =
      (if sint cloexec < 0 then fd_flags k sock else if cloexec \<noteq> 0 then FD_CLOEXEC else 0)"
proof -
  let ?k = "k\<lparr>status_flags := (status_flags k)(sock := flag_set nonblock O_NONBLOCK (status_flags k sock))\<rparr>"
  have nb: "(if 0 \<le> sint nonblock then set_nonblock (answers_for nonblock [a, b] @ as) sock nonblock k
      else Some (True, k, answers_for nonblock [a, b] @ as)) = Some (True, ?k, as)" for as
    by (simp add: set_nonblock_def answers_for_def flag_set_def fcntl_retry_interrupted Let_def)
  have ce: "(if 0 \<le> sint cloexec then set_cloexec (answers_for cloexec [c, d] @ rest) sock cloexec ?k
      else Some (True, ?k, answers_for cloexec [c, d] @ rest)) =
      Some (True, ?k\<lparr>fd_flags := (fd_flags k)(sock := flag_set cloexec FD_CLOEXEC (fd_flags k sock))\<rparr>, rest)"
    using set_cloexec_done [of cloexec ?k sock c d rest] assms
    by (cases "0 \<le> sint cloexec") (simp_all add: flag_set_def answers_for_def)
  have "set_sock_blocking (answers_for nonblock [a, b] @ answers_for cloexec [c, d] @ rest) sock nonblock cloexec k =
      Some (True, ?k\<lparr>fd_flags := (fd_flags k)(sock := flag_set cloexec FD_CLOEXEC (fd_flags k sock))\<rparr>, rest)"
    unfolding set_sock_blocking_def nb using ce by simp
  moreover have "flag_set nonblock O_NONBLOCK (status_flags k sock) AND O_NONBLOCK =
      (if sint nonblock < 0 then status_flags k sock AND O_NONBLOCK else if nonblock \<noteq> 0 then O_NONBLOCK else 0)"
    using flag_set_bits(1) [of nonblock O_NONBLOCK "status_flags k sock"] by (auto simp: flag_set_def)
  ultimately show ?thesis using flag_set_bits(2) flag_set_only [OF assms] by blast
qed

theorem set_sock_blocking_sets_witness:
  "set_sock_blocking (answers_for 1 [0, 2] @ answers_for 1 [1, 0] @ []) 7 1 1
      \<lparr>status_flags = \<lambda>_. 2, fd_flags = \<lambda>_. 0, rcvbuf = \<lambda>_. 0, sndbuf = \<lambda>_. 0, warnings = 0\<rparr> =
    Some (True, \<lparr>status_flags = (\<lambda>_. 2)(7 := 2050), fd_flags = (\<lambda>_. 0)(7 := 1), rcvbuf = \<lambda>_. 0, sndbuf = \<lambda>_. 0, warnings = 0\<rparr>, [])"
  using set_sock_blocking_sets [of "\<lparr>status_flags = \<lambda>_. 2, fd_flags = \<lambda>_. 0, rcvbuf = \<lambda>_. 0, sndbuf = \<lambda>_. 0, warnings = 0\<rparr>"
      7 1 0 2 1 1 0 "[]"]
  by (simp add: flag_set_def O_NONBLOCK_def FD_CLOEXEC_def)

text \<open>
  What goes wrong with a pair.  Both sockets are assigned the same descriptor, the second of the
  pair, which the destructor closes twice while the first stays open; \<open>setBufferSize\<close> never returns true:
  it ends without a return exactly when both sizes were set; \<open>setBlocking\<close> and \<open>initSocket\<close> always do; and a descriptor whose flags
  cannot be read is reported as set.
\<close>

theorem socket_pair_pitfalls:
  "closes (SocketPair_delete (snd (initSocket False (snd (initSocket True (UnixSocket_new (Some (s0, s1)))))))) = [s1, s1] \<and>
   fst (setBufferSize r0 r1 w0 w1 n (UnixSocket_new (Some (s0, s1))) k) = (if r0 \<and> r1 \<and> w0 \<and> w1 then Inl No_Return else Inr False) \<and>
   fst (initSocket master (UnixSocket_new (Some (s0, s1)))) = Inl No_Return \<and>
   setBlocking as nonblock cloexec (UnixSocket_new (Some (s0, s1))) k =
     map_option (\<lambda>(_, k). (Inl No_Return, k)) (setBlocking as nonblock cloexec (UnixSocket_new (Some (s0, s1))) k) \<and>
   (\<exists>k'. set_sock_blocking [Failed EOTHER, Done] sock (-1) 1 k = Some (True, k', []))"
proof (intro conjI)
  show "closes (SocketPair_delete (snd (initSocket False (snd (initSocket True (UnixSocket_new (Some (s0, s1)))))))) = [s1, s1]"
    "fst (initSocket master (UnixSocket_new (Some (s0, s1)))) = Inl No_Return"
    by (simp_all add: UnixSocket_new_def initSocket_def SocketPair_delete_def)
  show "fst (setBufferSize r0 r1 w0 w1 n (UnixSocket_new (Some (s0, s1))) k) = (if r0 \<and> r1 \<and> w0 \<and> w1 then Inl No_Return else Inr False)"
    by (simp add: UnixSocket_new_def setBufferSize_def setRecvBuffSize_def setSendBuffSize_def set_option_def c_result_def)
  show "setBlocking as nonblock cloexec (UnixSocket_new (Some (s0, s1))) k =
     map_option (\<lambda>(_, k). (Inl No_Return, k)) (setBlocking as nonblock cloexec (UnixSocket_new (Some (s0, s1))) k)"
    by (simp add: UnixSocket_new_def setBlocking_def split: option.split)
  show "\<exists>k'. set_sock_blocking [Failed EOTHER, Done] sock (-1) 1 k = Some (True, k', [])"
    by (simp add: set_sock_blocking_def set_cloexec_def Let_def)
qed

end
