(* ===== verification/Hosted_Connection.thy ===== *)
theory Hosted_Connection
  imports Tcp_Connection
begin

text \<open>
  A connection as its owner sees it.  A \<open>TcpServer\<close> or a \<open>TcpClient\<close> sets the callbacks of the
  connections it makes: those of its user, which get the connection as an argument, and a close
  callback of its own.  The lemmas say what an event of such a connection does to its owner.
\<close>

section \<open>Model\<close>

text \<open>
  A fault is blamed on the part whose code ran into it.
\<close>

datatype party = In_Owner | In_Connection nat

definition blame :: "party \<Rightarrow> 'a result \<Rightarrow> (party \<times> fault) + 'a" where
  "blame p r = (case r of Inl x \<Rightarrow> Inl (p, x) | Inr a \<Rightarrow> Inr a)"

text \<open>The owner's \<open>connectionCallback_\<close> and \<open>messageCallback_\<close>, which get the connection as an argument.\<close>

record 'u user_callbacks =
  on_connection :: "nat \<Rightarrow> stateE \<Rightarrow> 'u \<Rightarrow> conn_call list \<times> 'u"
  on_message :: "nat \<Rightarrow> buffer \<Rightarrow> 'u \<Rightarrow> (buffer \<times> conn_call list \<times> 'u) result"

text \<open>
  The callbacks \<open>newConnection\<close> sets, on the states of the owner and of its user; \<open>close\<close> is the
  owner's close callback.
\<close>

definition hosted :: "'u user_callbacks \<Rightarrow> nat \<Rightarrow> ('s \<Rightarrow> 's) \<Rightarrow> ('s \<times> 'u) callbacks" where
  "hosted k c close =
     setCloseCallback (Some (\<lambda>(s, u). ([], (close s, u))))
     (setMessageCallback (Some (\<lambda>b (s, u). and_then (on_message k c b u) (\<lambda>(b, calls, u). Inr (b, calls, (s, u)))))
     (setConnectionCallback (Some (\<lambda>st (s, u). let (calls, u) = on_connection k c st u in (calls, (s, u))))
     \<lparr>connectionCallback = None, messageCallback = None, closeCallback = None\<rparr>))"

section \<open>What an event of a connection does to its owner\<close>

lemma blame_simps [simp]: "blame p (Inr a) = Inr a" "blame p (Inl x) = Inl (p, x)"
  "blame p r = Inr a \<longleftrightarrow> r = Inr a" "blame p r = Inl y \<longleftrightarrow> (\<exists>x. r = Inl x \<and> y = (p, x))"
  by (auto simp: blame_def split: sum.splits)

lemma hosted_simps [simp]:
  "connectionCallback (hosted k c close) = Some (\<lambda>st (s, u). let (calls, u) = on_connection k c st u in (calls, (s, u)))"
  "messageCallback (hosted k c close) =
     Some (\<lambda>b (s, u). and_then (on_message k c b u) (\<lambda>(b, calls, u). Inr (b, calls, (s, u))))"
  "closeCallback (hosted k c close) = Some (\<lambda>(s, u). ([], (close s, u)))"
  by (simp_all add: hosted_def setCloseCallback_def setMessageCallback_def setConnectionCallback_def)

lemma conn_event_history:
  assumes "conn_event (hosted k c close) ev (x, w) = Inr (x', w')"
  shows "loopTid x' = loopTid x" and "upDowns x = history (state x) \<Longrightarrow> upDowns x' = history (state x')"
  using conn_event_moves_on [OF assms] by (auto simp: moves_on_def)

text \<open>The state stays, or goes from connected to disconnecting; or the connection closes.\<close>

definition stays :: "tcp_connection \<Rightarrow> tcp_connection \<Rightarrow> bool" where
  "stays x x' \<longleftrightarrow> state x' = state x \<or> state x = kConnected \<and> state x' = kDisconnecting"

lemma stays_refl [simp]: "stays x x"
  by (simp add: stays_def)

lemma stays_keeps: "conn_keeps x x' \<Longrightarrow> stays x x'"
  by (simp add: conn_keeps_def stays_def)

lemma stays_update [simp]:
  "stays (x\<lparr>reading := r\<rparr>) x' = stays x x'" "stays (x\<lparr>inputBuffer := b\<rparr>) x' = stays x x'"
  "stays (x\<lparr>conn_tasks := t\<rparr>) x' = stays x x'"
  "stays x (x'\<lparr>reading := r\<rparr>) = stays x x'" "stays x (x'\<lparr>inputBuffer := b\<rparr>) = stays x x'"
  "stays x (x'\<lparr>strings := m\<rparr>) = stays x x'" "stays x (readHeader x') = stays x x'"
  "stays x (readBody n x') = stays x x'"
  by (simp_all add: stays_def readHeader_def readBody_def)

lemma call_connection_world:
  assumes "call_connection (hosted k c close) (x, (s, u)) = Inr (x', (s', u'))"
  shows "s' = s \<and> state x' \<in> {state x, if state x = kConnected then kDisconnecting else state x}"
  using assms call_connection_ok [OF assms]
  by (auto simp: call_connection_def and_then_eq_Inr conn_keeps_def split: prod.splits)

lemma handleClose_world:
  assumes "handleClose tid' (hosted k c close) (x, (s, u)) = Inr (x', (s', u'))"
  shows "state x \<in> {kConnected, kDisconnecting} \<and> state x' = kDisconnected \<and> s' = close s"
proof -
  obtain x1 s1 u1 where g: "state x \<in> {kConnected, kDisconnecting}" and
      x1: "call_connection (hosted k c close) (setState kDisconnected x, (s, u)) = Inr (x1, (s1, u1))" and
      x2: "call_close_if_set (hosted k c close) (x1, (s1, u1)) = Inr (x', (s', u'))"
    using assms by (auto simp: handleClose_def conn_assertInLoopThread_def call_connection_if_set_def and_then_eq_Inr
      split: if_splits)
  then show ?thesis using call_connection_world [OF x1] by (auto simp: call_close_if_set_def setState_def)
qed

lemma read_complete_world:
  assumes "read_complete (hosted k c close) r (x, (s, u)) = Inr (x', (s', u'))"
  shows "s' = s \<and> stays x x'"
proof (cases "stage r")
  case Header
  then show ?thesis using assms by (auto simp: read_complete_def readHeader_done_def and_then_eq_Inr)
next
  case Body
  then obtain b calls v where
      "fold_result run_call calls (x\<lparr>reading := None, inputBuffer := b\<rparr>) = Inr v" "x' = readHeader v" "s' = s"
    using assms by (auto simp: read_complete_def readBody_done_def and_then_eq_Inr)
  then show ?thesis using run_calls_ok [of calls "x\<lparr>reading := None, inputBuffer := b\<rparr>" v] stays_keeps by force
qed

lemma arrive_world:
  assumes "arrive (hosted k c close) bs (x, (s, u)) = Inr (x', (s', u'))"
  shows "s' = s \<and> stays x x'"
proof (cases "reading x")
  case (Some r)
  let ?bs = "take (want r - got r) bs"
  let ?r = "r\<lparr>got := got r + length ?bs\<rparr>"
  obtain b where b: "(if got ?r = want ?r
        then read_complete (hosted k c close) ?r (x\<lparr>inputBuffer := b, reading := Some ?r\<rparr>, (s, u))
        else Inr (x\<lparr>inputBuffer := b, reading := Some ?r\<rparr>, (s, u))) = Inr (x', (s', u'))"
    using assms Some by (auto simp: arrive_def Let_def and_then_eq_Inr)
  show ?thesis
  proof (cases "got ?r = want ?r")
    case True
    then have "read_complete (hosted k c close) ?r (x\<lparr>inputBuffer := b, reading := Some ?r\<rparr>, (s, u)) = Inr (x', (s', u'))"
      using b by simp
    from read_complete_world [OF this] show ?thesis by simp
  next
    case False
    then show ?thesis using b by auto
  qed
qed (use assms in \<open>simp add: arrive_def\<close>)

lemma run_conn_task_world:
  assumes "run_conn_task (hosted k c close) t (x, (s, u)) = Inr (x', (s', u'))"
  shows "s' = s \<and> stays x x' \<or>
    state x \<in> {kConnected, kDisconnecting} \<and> state x' = kDisconnected \<and> s' = close s"
proof (cases t)
  case ForceCloseTask
  then show ?thesis using assms handleClose_world [of "loopTid x" k c close x s u x' s' u']
    by (auto simp: run_conn_task_def forceCloseInThisThread_def conn_assertInLoopThread_def split: if_splits)
qed (use assms sendInThisThread_keeps shutdownInThisThread_keeps stays_keeps in
    \<open>fastforce simp: run_conn_task_def and_then_eq_Inr split: option.splits\<close>)+

lemma conn_event_world:
  assumes r: "conn_event (hosted k c close) ev (x, (s, u)) = Inr (x', (s', u'))"
    and ev: "ev \<noteq> Established" "ev \<noteq> Destroyed"
  shows "s' = s \<and> stays x x' \<or>
    state x \<in> {kConnected, kDisconnecting} \<and> state x' = kDisconnected \<and> s' = close s"
proof (cases ev)
  case (SendFrom t p m)
  then show ?thesis using r send_string_keeps stays_keeps by (fastforce simp: conn_event_def and_then_eq_Inr)
next
  case (SendBufferFrom t b)
  then show ?thesis using r send_buffer_keeps stays_keeps by (fastforce simp: conn_event_def and_then_eq_Inr)
next
  case (ShutdownFrom t)
  then show ?thesis using r conn_shutdown_keeps stays_keeps by (fastforce simp: conn_event_def and_then_eq_Inr)
next
  case ForceCloseFrom
  then show ?thesis using r stays_keeps [OF forceClose_keeps] by (auto simp: conn_event_def)
next
  case (StringDies p)
  then show ?thesis using r by (auto simp: conn_event_def)
next
  case RunConnTask
  show ?thesis
  proof (cases "conn_tasks x")
    case (Cons t ts)
    then have "run_conn_task (hosted k c close) t (x\<lparr>conn_tasks := ts\<rparr>, (s, u)) = Inr (x', (s', u'))"
      using r RunConnTask by (simp add: conn_event_def)
    from run_conn_task_world [OF this] show ?thesis by simp
  qed (use r RunConnTask in \<open>simp add: conn_event_def\<close>)
next
  case (Arrive bs)
  then show ?thesis using r arrive_world [of k c close bs x s u x' s' u'] by (simp add: conn_event_def)
next
  case ReadFail
  then show ?thesis using r handleClose_world [of "loopTid x" k c close "x\<lparr>reading := None\<rparr>" s u x' s' u']
    by (auto simp: conn_event_def read_fail_def split: option.splits)
next
  case (WriteDone i)
  then show ?thesis using r write_done_state by (fastforce simp: conn_event_def and_then_eq_Inr stays_def)
next
  case (WriteFail i n)
  then show ?thesis using r write_fail_keeps by (fastforce simp: conn_event_def and_then_eq_Inr stays_def)
qed (use ev in simp_all)

lemma established_world:
  assumes "conn_event (hosted k c close) Established (x, (s, u)) = Inr (x', (s', u'))"
  shows "s' = s \<and> state x = kConnecting \<and> state x' \<in> {kConnected, kDisconnecting}"
proof -
  obtain x1 where g: "state x = kConnecting" and
      x1: "call_connection (hosted k c close) (setState kConnected x, (s, u)) = Inr (x1, (s', u'))" "x' = readHeader x1"
    using assms by (auto simp: conn_event_def connectEstablished_def conn_assertInLoopThread_def call_connection_if_set_def
      and_then_eq_Inr split: if_splits)
  then show ?thesis using call_connection_world [OF x1(1)] by (auto simp: setState_def readHeader_def)
qed

lemma destroyed_disconnected:
  "state x = kDisconnected \<Longrightarrow> conn_event k Destroyed (x, w) = Inr (x, w)"
  by (simp add: conn_event_def connectDestroyed_def conn_assertInLoopThread_def)

end
