(* ===== verification/Live_Server.thy ===== *)
theory Live_Server
  imports Tcp_Server Hosted_Connection
begin

text \<open>
  A server with its connections: \<open>TcpServer\<close> holds the \<open>TcpConnection\<close> objects themselves.  The
  server gives each its callbacks, with \<open>removeConnection\<close> as the close callback, and dispatches
  \<open>connectEstablished\<close> and \<open>connectDestroyed\<close> to their loops; sockets, users and posted tasks do
  the rest.  The result is a refinement of the server of \<open>Tcp_Server\<close>, which knows of a
  connection only its state.
\<close>

section \<open>Model\<close>

text \<open>\<open>live_conns L ! c\<close> is the \<open>c\<close>-th connection made; \<open>user\<close> is what the callbacks work on.\<close>

record 'u live =
  srv :: tcp_server
  live_conns :: "tcp_connection list"
  user :: 'u

text \<open>
  The callbacks \<open>newConnection\<close> sets; they run in thread \<open>tid\<close>, on the server and the user's state.
\<close>

definition hosted_callbacks :: "'u user_callbacks \<Rightarrow> nat \<Rightarrow> nat \<Rightarrow> (tcp_server result \<times> 'u) callbacks" where
  "hosted_callbacks k tid c = hosted k c (\<lambda>s. and_then s (removeConnection tid c))"

text \<open>Something happens to connection \<open>c\<close>, in its loop.\<close>

definition live_conn :: "'u user_callbacks \<Rightarrow> nat \<Rightarrow> conn_event \<Rightarrow> 'u live \<Rightarrow> (party \<times> fault) + 'u live" where
  "live_conn k c ev L =
     (let x = live_conns L ! c in
      and_then (blame (In_Connection c) (conn_event (hosted_callbacks k (loopTid x) c) ev (x, (Inr (srv L), user L))))
        (\<lambda>(x, (s, u)). and_then (blame In_Owner s) (\<lambda>s.
      Inr (L\<lparr>srv := s, live_conns := (live_conns L)[c := x], user := u\<rparr>))))"

definition live_newConnection :: "'u user_callbacks \<Rightarrow> tcp_socket \<Rightarrow> 'u live \<Rightarrow> (party \<times> fault) + 'u live" where
  "live_newConnection k socket L =
     and_then (blame In_Owner (add_connection socket (srv L))) (\<lambda>(ioLoop, c, s).
     and_then (blame (In_Connection c) (TcpConnection_new ioLoop socket)) (\<lambda>x.
     let L = L\<lparr>srv := s, live_conns := live_conns L @ [x]\<rparr> in
     if ioLoop = base s then live_conn k c Established L
     else Inr (L\<lparr>srv := inbox_post ioLoop (EstablishTask c) s\<rparr>)))"

definition live_accept :: "'u user_callbacks \<Rightarrow> tcp_socket option \<Rightarrow> 'u live \<Rightarrow> (party \<times> fault) + 'u live" where
  "live_accept k accepted L = (if \<not> accepting (srv L) then Inr L else
     and_then (case accepted of None \<Rightarrow> Inr L | Some socket \<Rightarrow> live_newConnection k socket L)
       (\<lambda>L. Inr (L\<lparr>srv := Acceptor_accept (srv L)\<rparr>)))"

definition live_task :: "'u user_callbacks \<Rightarrow> server_task \<Rightarrow> 'u live \<Rightarrow> (party \<times> fault) + 'u live" where
  "live_task k t L = (case t of
     EstablishTask c \<Rightarrow> live_conn k c Established L
   | DestroyTask c \<Rightarrow> live_conn k c Destroyed L
   | RemoveTask c \<Rightarrow> and_then (blame In_Owner (removeConnectionInThisThread c (srv L))) (\<lambda>s. Inr (L\<lparr>srv := s\<rparr>)))"

text \<open>\<open>connectEstablished\<close> and \<open>connectDestroyed\<close> are the server's calls, not events of a socket or a user.\<close>

datatype live_event = LiveAccept "tcp_socket option" | LiveTask nat | LiveConn nat conn_event

definition live_event :: "'u user_callbacks \<Rightarrow> live_event \<Rightarrow> 'u live \<Rightarrow> (party \<times> fault) + 'u live" where
  "live_event k ev L = (case ev of
     LiveAccept accepted \<Rightarrow> live_accept k accepted L
   | LiveTask l \<Rightarrow> (case inbox (srv L) l of
        [] \<Rightarrow> Inr L
      | t # ts \<Rightarrow> live_task k t (L\<lparr>srv := (srv L)\<lparr>inbox := (inbox (srv L))(l := ts)\<rparr>\<rparr>))
   | LiveConn c e \<Rightarrow> if length (live_conns L) \<le> c \<or> e = Established \<or> e = Destroyed then Inr L
       else live_conn k c e L)"

section \<open>The server it refines\<close>

text \<open>What \<open>Tcp_Server\<close> sees: the states are those of the connections.\<close>

definition view_of :: "tcp_connection list \<Rightarrow> tcp_server \<Rightarrow> tcp_server" where
  "view_of xs s = s\<lparr>objects := (\<lambda>c. if c < length xs then (objects s c)\<lparr>conn_state := state (xs ! c)\<rparr> else objects s c)\<rparr>"

definition view :: "'u live \<Rightarrow> tcp_server" where
  "view L = view_of (live_conns L) (srv L)"

definition live_ok :: "'u live \<Rightarrow> bool" where
  "live_ok L \<longleftrightarrow> server_ok (view L) \<and> length (live_conns L) = created (srv L) \<and>
     (\<forall>c<created (srv L). loopTid (live_conns L ! c) = conn_loop (objects (srv L) c) \<and>
        upDowns (live_conns L ! c) = history (state (live_conns L ! c)))"

section \<open>Simulation\<close>

lemma view_of_simps [simp]:
  "created (view_of xs s) = created s" "base (view_of xs s) = base s" "inbox (view_of xs s) = inbox s"
  "connections (view_of xs s) = connections s" "accepting (view_of xs s) = accepting s" "pool (view_of xs s) = pool s"
  "conn_name (objects (view_of xs s) c) = conn_name (objects s c)"
  "conn_loop (objects (view_of xs s) c) = conn_loop (objects s c)"
  "c < length xs \<Longrightarrow> conn_state (objects (view_of xs s) c) = state (xs ! c)"
  by (simp_all add: view_of_def)

lemma view_of_fields [simp]:
  "view_of xs (s\<lparr>inbox := b\<rparr>) = (view_of xs s)\<lparr>inbox := b\<rparr>" "view_of xs (s\<lparr>accepting := a\<rparr>) = (view_of xs s)\<lparr>accepting := a\<rparr>"
  "view_of xs (s\<lparr>connections := m\<rparr>) = (view_of xs s)\<lparr>connections := m\<rparr>"
  "view_of xs (inbox_post l t s) = inbox_post l t (view_of xs s)"
  by (rule tcp_server.equality; simp add: view_of_def inbox_post_def fun_eq_iff)+

lemma view_of_update:
  "c < length xs \<Longrightarrow> view_of (xs[c := x]) s = set_conn_state c (state x) (view_of xs s)"
  by (auto simp: view_of_def set_conn_state_def fun_eq_iff)

lemma set_conn_state_again [simp]:
  "set_conn_state c y (set_conn_state c x s) = set_conn_state c y s"
  "conn_state (objects s c) = x \<Longrightarrow> set_conn_state c x s = s"
  "conn_loop (objects (set_conn_state c x s) d) = conn_loop (objects s d)"
  "conn_state (objects (set_conn_state c x s) c) = x" "created (set_conn_state c x s) = created s"
  by (auto simp: set_conn_state_def)

lemma view_removeInThisThread:
  "removeConnectionInThisThread c (view_of xs s) = and_then (removeConnectionInThisThread c s) (\<lambda>s. Inr (view_of xs s))"
  by (simp add: removeConnectionInThisThread_def Let_def)

lemma view_removeConnection:
  "removeConnection tid c (view_of xs s) = and_then (removeConnection tid c s) (\<lambda>s. Inr (view_of xs s))"
  by (simp add: removeConnection_def view_removeInThisThread)

lemma removeConnection_keeps:
  "removeConnection tid c s = Inr s' \<Longrightarrow> created s' = created s \<and> objects s' = objects s"
  by (auto simp: removeConnection_def removeConnectionInThisThread_def inbox_post_def Let_def split: if_splits)

text \<open>What a connection's event leaves alone in the others and in itself.\<close>

lemma live_conn_keeps:
  assumes "live_conn k c ev L = Inr L'" and "c < length (live_conns L)"
    and "created (srv L') = created (srv L) \<and> objects (srv L') = objects (srv L)"
    and "length (live_conns L) = created (srv L) \<and> (\<forall>d<created (srv L). loopTid (live_conns L ! d) = conn_loop (objects (srv L) d) \<and>
        upDowns (live_conns L ! d) = history (state (live_conns L ! d)))"
  shows "length (live_conns L') = created (srv L') \<and> (\<forall>d<created (srv L'). loopTid (live_conns L' ! d) = conn_loop (objects (srv L') d) \<and>
        upDowns (live_conns L' ! d) = history (state (live_conns L' ! d)))"
proof -
  let ?k = "hosted_callbacks k (loopTid (live_conns L ! c)) c"
  obtain x s u where x: "conn_event ?k ev (live_conns L ! c, (Inr (srv L), user L)) = Inr (x, (s, u))"
      "live_conns L' = (live_conns L)[c := x]"
    using assms(1) by (auto simp: live_conn_def Let_def and_then_eq_Inr)
  from conn_event_history [OF x(1) [unfolded hosted_callbacks_def]]
  show ?thesis using assms(2-4) x(2) by (auto simp: nth_list_update)
qed

text \<open>
  What a step of the live server must be for the refinement: if it faults, a connection does, and
  otherwise the server it refines has taken steps to the new view, at most \<open>n\<close> of them accepted sockets.
\<close>

definition simulates :: "'u live \<Rightarrow> nat \<Rightarrow> (party \<times> fault) + 'u live \<Rightarrow> bool" where
  "simulates L n r \<longleftrightarrow> (case r of Inl (p, x) \<Rightarrow> p \<noteq> In_Owner
   | Inr L' \<Rightarrow> live_ok L' \<and> created (srv L') \<le> created (srv L) + n \<and>
       (\<exists>evs. fold_result server_event evs (view L) = Inr (view L') \<and> sum_list (map accepts evs) \<le> n))"

lemma live_okD:
  assumes "live_ok L"
  shows "server_ok (view L)" "length (live_conns L) = created (srv L)"
    "length (live_conns L) = created (srv L) \<and> (\<forall>d<created (srv L). loopTid (live_conns L ! d) = conn_loop (objects (srv L) d) \<and>
        upDowns (live_conns L ! d) = history (state (live_conns L ! d)))"
    "c < created (srv L) \<Longrightarrow> loopTid (live_conns L ! c) = conn_loop (objects (srv L) c)"
    "created (view L) = created (srv L)"
  using assms by (simp_all add: live_ok_def view_def)

lemma server_ok_steps:
  assumes "server_ok s" and "created s + sum_list (map accepts evs) < 2 ^ 32" and "fold_result server_event evs s = Inr s'"
  shows "server_ok s'"
  using server_events_ok [OF assms(1,2)] assms(3) by auto

text \<open>An open connection that shuts down, seen by the server.\<close>

lemma stays_view:
  assumes "c < length (live_conns L)" and "length (live_conns L) = created (srv L)" and "stays (live_conns L ! c) x"
  shows "\<exists>evs. fold_result server_event evs (view L) = Inr (view_of ((live_conns L)[c := x]) (srv L)) \<and>
    sum_list (map accepts evs) = 0"
proof (cases "state x = state (live_conns L ! c)")
  case True
  then show ?thesis using assms(1) by (intro exI [of _ "[]"]) (simp add: view_of_update view_def)
next
  case False
  then have "state (live_conns L ! c) = kConnected" "state x = kDisconnecting" using assms(3) by (auto simp: stays_def)
  then show ?thesis using assms(1,2)
    by (intro exI [of _ "[ConnShutsDown c]"]) (simp add: server_event_def conn_shuts_down_def view_of_update view_def)
qed

lemma live_conn_sim:
  assumes ok: "live_ok L" and few: "created (srv L) < 2 ^ 32" and c: "c < created (srv L)"
    and ev: "ev \<noteq> Established" "ev \<noteq> Destroyed"
  shows "simulates L 0 (live_conn k c ev L)"
proof -
  let ?x = "live_conns L ! c" and ?k = "hosted_callbacks k (loopTid (live_conns L ! c)) c"
  have len: "c < length (live_conns L)" using c live_okD(2) [OF ok] by simp
  have tid: "loopTid ?x = conn_loop (objects (srv L) c)" using live_okD(4) [OF ok c] .
  show ?thesis
  proof (cases "conn_event ?k ev (?x, (Inr (srv L), user L))")
    case (Inl y)
    then show ?thesis by (simp add: live_conn_def Let_def simulates_def)
  next
    case (Inr xw)
    then obtain x s u where x: "conn_event ?k ev (?x, (Inr (srv L), user L)) = Inr (x, (s, u))" by (cases xw) auto
    have "\<exists>s' evs. s = Inr s' \<and> created s' = created (srv L) \<and> objects s' = objects (srv L) \<and>
        fold_result server_event evs (view L) = Inr (view_of ((live_conns L)[c := x]) s') \<and> sum_list (map accepts evs) = 0"
      using conn_event_world [OF x [unfolded hosted_callbacks_def] ev]
    proof (elim disjE conjE)
      assume "s = Inr (srv L)" "stays ?x x"
      with stays_view [OF len live_okD(2) [OF ok]] show ?thesis by metis
    next
      assume st: "state ?x \<in> {kConnected, kDisconnecting}" "state x = kDisconnected"
        and s: "s = and_then (Inr (srv L)) (removeConnection (loopTid ?x) c)"
      have "conn_closes c (view L) = removeConnection (loopTid ?x) c (view_of ((live_conns L)[c := x]) (srv L))"
        using st c len tid by (auto simp: conn_closes_def view_def view_of_update)
      then have cl: "conn_closes c (view L) = and_then s (\<lambda>s. Inr (view_of ((live_conns L)[c := x]) s))"
        by (simp add: s view_removeConnection)
      obtain v where "conn_closes c (view L) = Inr v" using conn_closes_ok [OF live_okD(1) [OF ok]] by blast
      then obtain s' where s': "s = Inr s'" "conn_closes c (view L) = Inr (view_of ((live_conns L)[c := x]) s')"
        using cl by (auto simp: and_then_eq_Inr)
      then show ?thesis using removeConnection_keeps [of "loopTid ?x" c "srv L" s'] s
        by (intro exI [of _ s'] exI [of _ "[ConnCloses c]"]) (simp add: server_event_def)
    qed
    then obtain s' evs where s': "s = Inr s'" "created s' = created (srv L)" "objects s' = objects (srv L)"
        "fold_result server_event evs (view L) = Inr (view_of ((live_conns L)[c := x]) s')" "sum_list (map accepts evs) = 0"
      by blast
    let ?L = "L\<lparr>srv := s', live_conns := (live_conns L)[c := x], user := u\<rparr>"
    have L': "live_conn k c ev L = Inr ?L" using x s'(1) by (simp add: live_conn_def Let_def)
    have "server_ok (view ?L)"
      using server_ok_steps [OF live_okD(1) [OF ok] _ s'(4)] s'(5) few by (simp add: view_def)
    then have "live_ok ?L"
      using live_conn_keeps [OF L' len _ live_okD(3) [OF ok]] s'(2,3) by (simp add: live_ok_def)
    then show ?thesis using L' s' by (auto simp: simulates_def view_def)
  qed
qed

text \<open>The dispatched \<open>connectEstablished\<close>, after the server's own step.\<close>

abbreviation conns_fit :: "'u live \<Rightarrow> bool" where
  "conns_fit L \<equiv> length (live_conns L) = created (srv L) \<and> (\<forall>d<created (srv L).
     loopTid (live_conns L ! d) = conn_loop (objects (srv L) d) \<and> upDowns (live_conns L ! d) = history (state (live_conns L ! d)))"

lemma live_established:
  assumes fit: "conns_fit L" and c: "c < created (srv L)" and r: "live_conn k c Established L = Inr L'"
  shows "srv L' = srv L \<and> conns_fit L' \<and> state (live_conns L ! c) = kConnecting \<and>
    (\<exists>evs. fold_result server_event evs (set_conn_state c kConnected (view L)) = Inr (view L') \<and> sum_list (map accepts evs) = 0)"
proof -
  let ?x = "live_conns L ! c"
  have len: "c < length (live_conns L)" using fit c by simp
  obtain x s u where x: "conn_event (hosted_callbacks k (loopTid ?x) c) Established (?x, (Inr (srv L), user L)) = Inr (x, (s, u))"
      "blame In_Owner s = Inr (srv L')" "live_conns L' = (live_conns L)[c := x]"
    using r by (auto simp: live_conn_def Let_def and_then_eq_Inr)
  have st: "s = Inr (srv L)" "state ?x = kConnecting" "state x \<in> {kConnected, kDisconnecting}"
    using established_world [OF x(1) [unfolded hosted_callbacks_def]] by simp_all
  then have srv: "srv L' = srv L" using x(2) by simp
  have view: "view L' = set_conn_state c (state x) (view L)" using x(3) len srv by (simp add: view_def view_of_update)
  have "\<exists>evs. fold_result server_event evs (set_conn_state c kConnected (view L)) = Inr (view L') \<and> sum_list (map accepts evs) = 0"
  proof (cases "state x = kConnected")
    case True
    then show ?thesis by (intro exI [of _ "[]"]) (simp add: view)
  next
    case False
    then show ?thesis using st(3) c
      by (intro exI [of _ "[ConnShutsDown c]"]) (simp add: view server_event_def conn_shuts_down_def, simp add: view_def)
  qed
  then show ?thesis using live_conn_keeps [OF r len _ fit] srv st(2) by auto
qed

lemma live_established_blame: "live_conn k c Established L \<noteq> Inl (In_Owner, y)"
proof
  assume r: "live_conn k c Established L = Inl (In_Owner, y)"
  let ?k = "hosted_callbacks k (loopTid (live_conns L ! c)) c"
  obtain x s u where x: "conn_event ?k Established (live_conns L ! c, (Inr (srv L), user L)) = Inr (x, (s, u))" "s = Inl y"
    using r by (auto simp: live_conn_def Let_def and_then_eq_Inl)
  show False using established_world [OF x(1) [unfolded hosted_callbacks_def]] x(2) by simp
qed

lemma simulatesI:
  assumes "live_ok L" and "created (srv L) + n < 2 ^ 32" and "conns_fit L'" and "created (srv L') \<le> created (srv L) + n"
    and "fold_result server_event evs (view L) = Inr (view L')" and "sum_list (map accepts evs) \<le> n"
  shows "simulates L n (Inr L')"
  using server_ok_steps [OF live_okD(1) [OF assms(1)] _ assms(5)] assms live_okD(5) [OF assms(1)]
  by (auto simp: simulates_def live_ok_def)

lemma live_task_sim:
  assumes ok: "live_ok L" and few: "created (srv L) < 2 ^ 32" and t: "inbox (srv L) l = t # ts"
  shows "simulates L 0 (live_task k t (L\<lparr>srv := (srv L)\<lparr>inbox := (inbox (srv L))(l := ts)\<rparr>\<rparr>))"
proof -
  let ?L = "L\<lparr>srv := (srv L)\<lparr>inbox := (inbox (srv L))(l := ts)\<rparr>\<rparr>"
  have t': "inbox (view L) l = t # ts" using t by (simp add: view_def)
  have fit: "conns_fit ?L" using live_okD(3) [OF ok] by simp
  have pop: "server_event (RunInbox l) (view L) = server_run_task l t (view ?L)"
    using t by (simp add: server_event_def view_def)
  note fits = inbox_pop(1) [OF live_okD(1) [OF ok] t']
  show ?thesis
  proof (cases t)
    case (EstablishTask c)
    have c: "c < created (srv L)" "state (live_conns L ! c) = kConnecting"
      using fits EstablishTask live_okD(2,5) [OF ok] by (auto simp: task_fits_def view_def)
    show ?thesis
    proof (cases "live_conn k c Established ?L")
      case (Inl y)
      then show ?thesis using EstablishTask live_established_blame [of k c ?L]
        by (cases y) (auto simp: simulates_def live_task_def)
    next
      case (Inr L')
      obtain evs where L': "srv L' = srv ?L" "conns_fit L'" "sum_list (map accepts evs) = 0"
          "fold_result server_event evs (set_conn_state c kConnected (view ?L)) = Inr (view L')"
        using live_established [OF fit _ Inr] c(1) by auto
      have "server_event (RunInbox l) (view L) = Inr (set_conn_state c kConnected (view ?L))"
        unfolding pop using EstablishTask c live_okD(2) [OF ok]
        by (simp add: server_run_task_def conn_established_def view_def)
      then have run: "fold_result server_event (RunInbox l # evs) (view L) = Inr (view L')" using L'(4) by simp
      have "simulates L 0 (Inr L')" by (rule simulatesI [OF ok _ L'(2) _ run]) (use few L' in simp_all)
      then show ?thesis using EstablishTask Inr by (simp add: live_task_def)
    qed
  next
    case (DestroyTask c)
    have c: "c < created (srv L)" "state (live_conns L ! c) = kDisconnected"
      using fits DestroyTask live_okD(2,5) [OF ok] by (auto simp: task_fits_def view_def)
    have same: "live_task k t ?L = Inr ?L"
      using DestroyTask c(2) by (simp add: destroyed_disconnected live_task_def live_conn_def Let_def)
    have "server_event (RunInbox l) (view L) = Inr (view ?L)"
      unfolding pop using DestroyTask c live_okD(2) [OF ok] by (simp add: server_run_task_def conn_destroyed_def view_def)
    then have run: "fold_result server_event [RunInbox l] (view L) = Inr (view ?L)" by simp
    have "simulates L 0 (Inr ?L)" by (rule simulatesI [OF ok _ fit _ run]) (use few in simp_all)
    then show ?thesis by (simp only: same)
  next
    case (RemoveTask c)
    have pop': "server_event (RunInbox l) (view L) =
        and_then (removeConnectionInThisThread c (srv ?L)) (\<lambda>s. Inr (view_of (live_conns L) s))"
      unfolding pop using RemoveTask by (simp add: server_run_task_def view_def flip: view_removeInThisThread)
    obtain v where "server_event (RunInbox l) (view L) = Inr v"
      using server_event_ok [OF live_okD(1) [OF ok], of "RunInbox l"] live_okD(5) [OF ok] few by (auto simp: throws_def)
    then obtain s' where s': "removeConnectionInThisThread c (srv ?L) = Inr s'"
        "server_event (RunInbox l) (view L) = Inr (view_of (live_conns L) s')"
      unfolding pop' by (auto simp: and_then_eq_Inr)
    have same: "created s' = created (srv L)" "objects s' = objects (srv L)"
      using s'(1) by (auto simp: removeConnectionInThisThread_def inbox_post_def Let_def split: if_splits)
    have run: "fold_result server_event [RunInbox l] (view L) = Inr (view (?L\<lparr>srv := s'\<rparr>))"
      using s'(2) by (simp add: view_def)
    have "simulates L 0 (Inr (?L\<lparr>srv := s'\<rparr>))"
      by (rule simulatesI [OF ok _ _ _ run]) (use few live_okD(3) [OF ok] same in simp_all)
    then show ?thesis using RemoveTask s'(1) by (simp add: live_task_def)
  qed
qed

lemma view_add_connection:
  assumes "length xs = created s" and "state x = kConnecting"
  shows "add_connection socket (view_of xs s) = and_then (add_connection socket s) (\<lambda>(l, c, s). Inr (l, c, view_of (xs @ [x]) s))"
  using assms by (cases "getNextLoop_fd (base s) (native_handle socket) (pool s)")
    (auto simp: add_connection_def Let_def view_of_def nth_append fun_eq_iff intro!: tcp_server.equality)

lemma add_connection_eq:
  assumes "add_connection socket s = Inr (l, c, s')"
  shows "c = created s" "created s' = Suc (created s)" "accepting s' = accepting s" "base s' = base s"
    "objects s' c = \<lparr>conn_name = connection_name (server_name s) (server_ipPort s) (nextConnId s), conn_loop = l, conn_state = kConnecting\<rparr>"
    "d < created s \<Longrightarrow> objects s' d = objects s d"
  using assms by (auto simp: add_connection_def Let_def and_then_eq_Inr split: if_splits)

lemma Acceptor_accept_again [simp]: "accepting s \<Longrightarrow> Acceptor_accept s = s"
  by (simp add: Acceptor_accept_def)

lemma live_newConnection_sim:
  assumes ok: "live_ok L" and few: "Suc (created (srv L)) < 2 ^ 32" and acc: "accepting (srv L)" and peer: "peer_known socket"
  shows "simulates L 1 (live_newConnection k socket L) \<and> (\<forall>L'. live_newConnection k socket L = Inr L' \<longrightarrow> accepting (srv L'))"
proof -
  have len: "length (live_conns L) = created (srv L)" by (rule live_okD(2) [OF ok])
  obtain l c s where add: "add_connection socket (srv L) = Inr (l, c, s)"
    using add_connection_cases [OF live_okD(1) [OF ok], of socket] peer
      view_add_connection [of "live_conns L" "srv L" fresh_connection socket] len
    by (auto simp: view_def and_then_eq_Inr fresh_connection_def)
  note new = add_connection_eq [OF add]
  show ?thesis
  proof (cases "TcpConnection_new l socket")
    case (Inl y)
    then show ?thesis using add by (simp add: live_newConnection_def simulates_def)
  next
    case (Inr x)
    note x = TcpConnection_new_ok [OF Inr]
    have opts: "options_settable socket" using Inr by (auto simp: TcpConnection_new_def and_then_eq_Inr split: if_splits)
    let ?L = "L\<lparr>srv := s, live_conns := live_conns L @ [x]\<rparr>"
    have fit: "conns_fit ?L"
      using live_okD(3) [OF ok] new x by (auto simp: nth_append less_Suc_eq)
    have view: "add_connection socket (view L) = Inr (l, c, view ?L)"
      using view_add_connection [OF len x(1)] add by (simp add: view_def)
    have st: "conn_state (objects (view ?L) c) = kConnecting"
      using x(1) new(1) len by (simp add: view_def nth_append)
    have acc': "accepting (view L)" "accepting s" "accepting (view ?L)" using acc new(3) by (simp_all add: view_def)
    show ?thesis
    proof (cases "l = base s")
      case True
      have "server_event (AcceptDone (Some socket)) (view L) = Inr (set_conn_state c kConnected (view ?L))"
        using acc' view st True opts
        by (simp add: server_event_def accept_done_def newConnection_def conn_established_def view_def)
           (simp add: set_conn_state_def Acceptor_accept_def)
      moreover have "live_newConnection k socket L = live_conn k c Established ?L"
        using add Inr True by (simp add: live_newConnection_def Let_def)
      ultimately show ?thesis
      proof (cases "live_conn k c Established ?L")
        case (Inr L')
        obtain evs where L': "srv L' = srv ?L" "conns_fit L'" "sum_list (map accepts evs) = 0"
            "fold_result server_event evs (set_conn_state c kConnected (view ?L)) = Inr (view L')"
          using live_established [OF fit _ Inr] new by auto
        have run: "fold_result server_event (AcceptDone (Some socket) # evs) (view L) = Inr (view L')"
          using L'(4) \<open>server_event _ _ = _\<close> by simp
        have "simulates L 1 (Inr L')" by (rule simulatesI [OF ok _ L'(2) _ run]) (use few L' new in simp_all)
        then show ?thesis using Inr L'(1) acc' \<open>live_newConnection k socket L = _\<close> by simp
      qed (use live_established_blame [of k c ?L] in \<open>auto simp: simulates_def split: prod.splits\<close>)
    next
      case False
      let ?L' = "?L\<lparr>srv := inbox_post l (EstablishTask c) s\<rparr>"
      have "server_event (AcceptDone (Some socket)) (view L) = Inr (view ?L')"
        using acc' view False opts
        by (simp add: server_event_def accept_done_def newConnection_def view_def) (simp add: inbox_post_def Acceptor_accept_def)
      then have run: "fold_result server_event [AcceptDone (Some socket)] (view L) = Inr (view ?L')" by simp
      have "simulates L 1 (Inr ?L')"
        by (rule simulatesI [OF ok _ _ _ run]) (use few fit new in \<open>simp_all add: inbox_post_def\<close>)
      moreover have "live_newConnection k socket L = Inr ?L'"
        using add Inr False by (simp add: live_newConnection_def Let_def)
      ultimately show ?thesis using acc' by (simp add: inbox_post_def)
    qed
  qed
qed

fun live_accepts :: "live_event \<Rightarrow> nat" where
  "live_accepts (LiveAccept (Some socket)) = 1"
| "live_accepts _ = 0"

lemma simulates_refl: "live_ok L \<Longrightarrow> simulates L n (Inr L)"
  by (simp add: simulates_def exI [of _ "[]"])

text \<open>A step simulates, or it accepts a socket whose peer is gone.\<close>

definition accepts_reset :: "live_event \<Rightarrow> bool" where
  "accepts_reset ev \<longleftrightarrow> (\<exists>socket. ev = LiveAccept (Some socket) \<and> \<not> peer_known socket)"

lemma live_newConnection_throws:
  assumes "live_ok L" and "\<not> peer_known socket"
  shows "live_newConnection k socket L = Inl (In_Owner, Runtime_Error)"
proof -
  have "add_connection socket (view L) = Inl Runtime_Error"
    using add_connection_cases [OF live_okD(1) [OF assms(1)], of socket] assms(2) by simp
  then have "add_connection socket (srv L) = Inl Runtime_Error"
    using view_add_connection [OF live_okD(2) [OF assms(1)], of fresh_connection socket]
    by (cases "add_connection socket (srv L)") (auto simp: view_def fresh_connection_def)
  then show ?thesis by (simp add: live_newConnection_def)
qed

lemma live_event_sim:
  assumes ok: "live_ok L" and few: "created (srv L) + live_accepts ev < 2 ^ 32"
  shows "accepts_reset ev \<and> live_event k ev L = Inl (In_Owner, Runtime_Error) \<or> simulates L (live_accepts ev) (live_event k ev L)"
proof (cases ev)
  case (LiveAccept fd)
  show ?thesis
  proof (cases "accepting (srv L) \<and> fd \<noteq> None")
    case True
    then obtain d where d: "fd = Some d" "accepting (srv L)" by auto
    have n: "live_accepts ev = 1" using LiveAccept d by simp
    show ?thesis
    proof (cases "peer_known d")
      case True
      have "live_event k ev L = live_newConnection k d L"
        using live_newConnection_sim [OF ok _ d(2) True, of k] few n LiveAccept d
        by (cases "live_newConnection k d L") (simp_all add: live_event_def live_accept_def)
      then show ?thesis using live_newConnection_sim [OF ok _ d(2) True, of k] few n by simp
    next
      case False
      then show ?thesis using LiveAccept d live_newConnection_throws [OF ok False]
        by (simp add: live_event_def live_accept_def accepts_reset_def)
    qed
  next
    case False
    then have "live_event k ev L = Inr L"
      using LiveAccept by (auto simp: live_event_def live_accept_def)
    then show ?thesis using simulates_refl [OF ok] by simp
  qed
next
  case (LiveTask l)
  then show ?thesis using live_task_sim [OF ok, of l _ _ k] few simulates_refl [OF ok]
    by (cases "inbox (srv L) l") (simp_all add: live_event_def)
next
  case (LiveConn c e)
  then show ?thesis using live_conn_sim [OF ok, of c e k] few simulates_refl [OF ok] live_okD(2) [OF ok]
    by (simp add: live_event_def)
qed

lemma live_events_sim:
  assumes "live_ok L" and "created (srv L) + sum_list (map live_accepts evs) < 2 ^ 32"
  shows "(\<exists>ev\<in>set evs. accepts_reset ev) \<and> fold_result (live_event k) evs L = Inl (In_Owner, Runtime_Error) \<or>
    simulates L (sum_list (map live_accepts evs)) (fold_result (live_event k) evs L)"
  using assms
proof (induction evs arbitrary: L)
  case Nil
  then show ?case by (simp add: simulates_refl)
next
  case (Cons ev evs)
  have sim: "accepts_reset ev \<and> live_event k ev L = Inl (In_Owner, Runtime_Error) \<or> simulates L (live_accepts ev) (live_event k ev L)"
    by (rule live_event_sim [OF Cons.prems(1)]) (use Cons.prems(2) in simp)
  show ?case
  proof (cases "live_event k ev L")
    case (Inl y)
    then show ?thesis using sim by (auto simp: simulates_def)
  next
    case (Inr L1)
    obtain es where L1: "live_ok L1" "created (srv L1) \<le> created (srv L) + live_accepts ev"
        "fold_result server_event es (view L) = Inr (view L1)" "sum_list (map accepts es) \<le> live_accepts ev"
      using sim Inr by (auto simp: simulates_def)
    have IH: "(\<exists>ev\<in>set evs. accepts_reset ev) \<and> fold_result (live_event k) evs L1 = Inl (In_Owner, Runtime_Error) \<or>
        simulates L1 (sum_list (map live_accepts evs)) (fold_result (live_event k) evs L1)"
      by (rule Cons.IH [OF L1(1)]) (use L1(2) Cons.prems(2) in simp)
    have "simulates L (sum_list (map live_accepts (ev # evs))) (fold_result (live_event k) evs L1)"
      if "simulates L1 (sum_list (map live_accepts evs)) (fold_result (live_event k) evs L1)"
      using that L1 by (cases "fold_result (live_event k) evs L1")
         (force simp: simulates_def fold_result_append intro: exI [of _ "es @ _"])+
    then show ?thesis using IH Inr by auto
  qed
qed

section \<open>Properties\<close>

text \<open>
  C10: a server with its real connections.  From a started server whose address text has at most
  45 characters, let sockets be accepted, loops run their tasks, peers and users do anything to the
  connections, and callbacks make any calls, with fewer than \<open>2 ^ 32 - 1\<close> sockets accepted.  The
  server itself faults only by the exception of an accepted socket whose peer has reset it already,
  and when no connection faults either, the run is one of the server that
  knows only the states; a connection is in the map exactly until its removal has run, and its
  user has seen it come up once and go down once, as its state says.
\<close>

theorem live_server_refines:
  assumes "length ipPort \<le> 45" and "TcpServer_start start (server_setThreadNum n (TcpServer_new l ipPort name)) = Inr s"
    and "sum_list (map live_accepts evs) < 2 ^ 32 - 1"
  shows "case fold_result (live_event k) evs \<lparr>srv = s, live_conns = [], user = u\<rparr> of
      Inl (p, x) \<Rightarrow> p \<noteq> In_Owner \<or> x = Runtime_Error \<and> (\<exists>socket. LiveAccept (Some socket) \<in> set evs \<and> \<not> peer_known socket)
    | Inr L \<Rightarrow> (\<exists>es. fold_result server_event es s = Inr (view L)) \<and>
        (\<forall>m c. connections (srv L) m = Some c \<longleftrightarrow> c < length (live_conns L) \<and> conn_name (objects (srv L) c) = m \<and>
          (state (live_conns L ! c) \<noteq> kDisconnected \<or> RemoveTask c \<in> set (inbox (srv L) (base (srv L))))) \<and>
        map upDowns (live_conns L) = map (history \<circ> state) (live_conns L)"
proof -
  let ?L = "\<lparr>srv = s, live_conns = [], user = u\<rparr>"
  have s: "server_ok s" "created s = 0" using TcpServer_start_ok [OF assms(1,2)] by simp_all
  have view: "view ?L = s" by (simp add: view_def view_of_def)
  then have "live_ok ?L" using s by (simp add: live_ok_def)
  from live_events_sim [OF this, of evs k] assms(3) s(2)
  have sim: "(\<exists>ev\<in>set evs. accepts_reset ev) \<and> fold_result (live_event k) evs ?L = Inl (In_Owner, Runtime_Error) \<or>
      simulates ?L (sum_list (map live_accepts evs)) (fold_result (live_event k) evs ?L)" by simp
  show ?thesis
  proof (cases "fold_result (live_event k) evs ?L")
    case (Inl y)
    then show ?thesis using sim by (auto simp: simulates_def accepts_reset_def)
  next
    case (Inr L)
    then obtain es where L: "live_ok L" "fold_result server_event es s = Inr (view L)"
      using sim view by (auto simp: simulates_def)
    note ok = live_okD [OF L(1)]
    have "connections (view L) m = Some c \<longleftrightarrow> c < created (view L) \<and> conn_name (objects (view L) c) = m \<and> mapped (view L) c" for m c
      using names_okD(6) [OF server_okD(1) [OF ok(1)], of m c] by (auto simp: mapped_def)
    moreover have "c < created (view L) \<Longrightarrow> mapped (view L) c \<longleftrightarrow>
        conn_state (objects (view L) c) \<noteq> kDisconnected \<or> RemoveTask c \<in> set (inbox (view L) (base (view L)))" for c
      using server_okD(2) [OF ok(1), of c] by (simp add: conn_fits_def)
    ultimately have "connections (srv L) m = Some c \<longleftrightarrow> c < length (live_conns L) \<and> conn_name (objects (srv L) c) = m \<and>
        (state (live_conns L ! c) \<noteq> kDisconnected \<or> RemoveTask c \<in> set (inbox (srv L) (base (srv L))))" for m c
      using ok(2) by (cases "c < created (srv L)") (simp_all add: view_def)
    moreover have "map upDowns (live_conns L) = map (history \<circ> state) (live_conns L)"
      using ok(3) by (intro nth_equalityI) simp_all
    ultimately show ?thesis using L(2) Inr by auto
  qed
qed

definition loop_server :: tcp_server where
  "loop_server = (server_setThreadNum 0 (TcpServer_new 0 ''10.0.0.1'' ''IOEvent''))\<lparr>server_started := True,
     pool := (setThreadNum 0 (IOLoopThreadPool_new 0 0))\<lparr>started := True\<rparr>, accepting := True\<rparr>"

definition count_users :: "nat user_callbacks" where
  "count_users = \<lparr>on_connection = (\<lambda>_ _ n. ([], n + 1)), on_message = (\<lambda>_ b n. Inr (b, [], n))\<rparr>"

definition closed_live :: "nat live" where
  "closed_live = \<lparr>srv = loop_server\<lparr>nextConnId := 2, created := 1,
       objects := (objects loop_server)(0 := \<lparr>conn_name = connection_name ''IOEvent'' ''10.0.0.1'' 1, conn_loop = 0,
         conn_state = kConnecting\<rparr>)\<rparr>,
     live_conns = [fresh_connection\<lparr>state := kDisconnected, upDowns := [kConnected, kDisconnected]\<rparr>], user = 2\<rparr>"

lemma closed_live_run:
  "fold_result (live_event count_users) [LiveAccept (Some (sound_socket 5)), LiveConn 0 ReadFail, LiveTask 0]
     \<lparr>srv = loop_server, live_conns = [], user = 0\<rparr> = Inr closed_live"
proof -
  let ?o = "(objects loop_server)(0 := \<lparr>conn_name = connection_name ''IOEvent'' ''10.0.0.1'' 1, conn_loop = 0,
      conn_state = kConnecting\<rparr>)"
  let ?s = "loop_server\<lparr>nextConnId := 2, created := 1, objects := ?o,
      connections := [connection_name ''IOEvent'' ''10.0.0.1'' 1 \<mapsto> 0]\<rparr>"
  let ?s' = "loop_server\<lparr>nextConnId := 2, created := 1, objects := ?o, inbox := (\<lambda>_. [])(0 := [DestroyTask 0])\<rparr>"
  note defs = live_event_def live_conn_def conn_event_def conn_assertInLoopThread_def call_connection_def setState_def
    loop_server_def server_setThreadNum_def TcpServer_new_def setThreadNum_def IOLoopThreadPool_new_def Let_def
    call_connection_if_set_def count_users_def fresh_connection_def hosted_callbacks_def
  have "live_event count_users (LiveAccept (Some (sound_socket 5))) \<lparr>srv = loop_server, live_conns = [], user = 0\<rparr> =
      Inr \<lparr>srv = ?s, live_conns = [readHeader (fresh_connection\<lparr>state := kConnected, upDowns := [kConnected]\<rparr>)], user = 1\<rparr>"
    using fresh_connection_new [of 5]
    by (simp add: defs live_accept_def live_newConnection_def add_connection_def getNextLoop_fd_def pool_guard_def
      connectEstablished_def readHeader_def Acceptor_accept_def)
  moreover have "live_event count_users (LiveConn 0 ReadFail)
      \<lparr>srv = ?s, live_conns = [readHeader (fresh_connection\<lparr>state := kConnected, upDowns := [kConnected]\<rparr>)], user = 1\<rparr> =
      Inr (closed_live\<lparr>srv := ?s'\<rparr>)"
    by (simp add: defs read_fail_def readHeader_def handleClose_def call_close_if_set_def removeConnection_def
      removeConnectionInThisThread_def inbox_post_def closed_live_def)
  moreover have "live_event count_users (LiveTask 0) (closed_live\<lparr>srv := ?s'\<rparr>) = Inr closed_live"
    by (simp add: defs live_task_def connectDestroyed_def closed_live_def fun_upd_idem)
  ultimately show ?thesis by simp
qed

theorem live_server_refines_witness:
  "(\<exists>es. fold_result server_event es loop_server = Inr (view closed_live)) \<and>
    (\<forall>m c. connections (srv closed_live) m = Some c \<longleftrightarrow> c < length (live_conns closed_live) \<and>
      conn_name (objects (srv closed_live) c) = m \<and> (state (live_conns closed_live ! c) \<noteq> kDisconnected \<or>
        RemoveTask c \<in> set (inbox (srv closed_live) (base (srv closed_live))))) \<and>
    map upDowns (live_conns closed_live) = map (history \<circ> state) (live_conns closed_live)"
proof -
  have "TcpServer_start (\<lambda>i. i + 1) (server_setThreadNum 0 (TcpServer_new 0 ''10.0.0.1'' ''IOEvent'')) = Inr loop_server"
    by (simp add: TcpServer_start_def server_setThreadNum_def TcpServer_new_def pool_run_def setThreadNum_def
      IOLoopThreadPool_new_def loop_server_def Acceptor_start_def Acceptor_accept_def)
  from live_server_refines [OF _ this, of "[LiveAccept (Some (sound_socket 5)), LiveConn 0 ReadFail, LiveTask 0]" count_users 0]
  show ?thesis unfolding closed_live_run by simp
qed

end
