(* ===== verification/Live_Client.thy ===== *)
theory Live_Client
  imports Tcp_Client Hosted_Connection
begin

text \<open>
  A client with its connections: \<open>TcpClient\<close> makes a \<open>TcpConnection\<close> when its \<open>Connector\<close> hands it a
  socket, holds the pointer to it, and is its close callback; a deleted client leaves its connection
  with \<open>detail::removeConnection\<close> in its place.  The result is a refinement of the client of
  \<open>Tcp_Client\<close>, which knows of its connection only the name.
\<close>

section \<open>Model\<close>

text \<open>
  What the close callback works on.  Connections are numbered as they are made, and \<open>given ! c\<close> is the
  name of the \<open>c\<close>-th.  \<open>current\<close> is the pointer \<open>connection_\<close>; \<open>detached\<close> the connection whose close
  callback the destructor replaced; \<open>posted\<close> the \<open>connectDestroyed\<close> tasks in the loop, and
  \<open>dispatched\<close> the one \<open>detail::removeConnection\<close> asked for.
\<close>

record client_core =
  cli :: client
  given :: "string list"
  current :: "nat option"
  detached :: "nat option"
  dispatched :: "nat option"
  posted :: "nat list"

record 'u live_client =
  core :: client_core
  client_tid :: nat
  client_conns :: "tcp_connection list"
  client_user :: 'u

definition live_client_new :: "nat \<Rightarrow> string \<Rightarrow> int32 \<Rightarrow> 'u \<Rightarrow> 'u live_client" where
  "live_client_new tid addr i u = \<lparr>core = \<lparr>cli = TcpClient_new addr i, given = [], current = None, detached = None,
     dispatched = None, posted = []\<rparr>, client_tid = tid, client_conns = [], client_user = u\<rparr>"

definition live_removeConnection :: "nat \<Rightarrow> client_core \<Rightarrow> client_core result" where
  "live_removeConnection c s =
     (if current s \<noteq> Some c then Inl Assert_Failed
      else and_then (client_removeConnection (given s ! c) (cli s)) (\<lambda>k.
        Inr (s\<lparr>cli := k, current := None, posted := posted s @ [c]\<rparr>)))"

definition live_detail_removeConnection :: "nat \<Rightarrow> client_core \<Rightarrow> client_core" where
  "live_detail_removeConnection c s = s\<lparr>cli := detail_removeConnection (given s ! c) (cli s), dispatched := Some c\<rparr>"

definition client_close :: "nat \<Rightarrow> client_core \<Rightarrow> client_core result" where
  "client_close c s = (if detached s = Some c then Inr (live_detail_removeConnection c s) else live_removeConnection c s)"

text \<open>An event of connection \<open>c\<close>, with the callbacks \<open>newConnection\<close> and the destructor set.\<close>

definition client_hosted :: "'u user_callbacks \<Rightarrow> nat \<Rightarrow> (client_core result \<times> 'u) callbacks" where
  "client_hosted k c = hosted k c (\<lambda>s. and_then s (client_close c))"

definition client_conn :: "'u user_callbacks \<Rightarrow> nat \<Rightarrow> conn_event \<Rightarrow> 'u live_client \<Rightarrow> (party \<times> fault) + 'u live_client" where
  "client_conn k c ev L =
     and_then (blame (In_Connection c) (conn_event (client_hosted k c) ev (client_conns L ! c, (Inr (core L), client_user L))))
       (\<lambda>(x, (s, u)). and_then (blame In_Owner s) (\<lambda>s.
     Inr (L\<lparr>core := s, client_conns := (client_conns L)[c := x], client_user := u\<rparr>)))"

text \<open>The dispatched \<open>connectDestroyed\<close> runs at once, as the last thing the close callback does.\<close>

definition live_client_conn ::
  "'u user_callbacks \<Rightarrow> nat \<Rightarrow> conn_event \<Rightarrow> 'u live_client \<Rightarrow> (party \<times> fault) + 'u live_client" where
  "live_client_conn k c ev L = and_then (client_conn k c ev L) (\<lambda>L. case dispatched (core L) of
       None \<Rightarrow> Inr L
     | Some d \<Rightarrow> client_conn k d Destroyed (L\<lparr>core := (core L)\<lparr>dispatched := None\<rparr>\<rparr>))"

definition live_client_newConnection ::
  "'u user_callbacks \<Rightarrow> tcp_socket \<Rightarrow> 'u live_client \<Rightarrow> (party \<times> fault) + 'u live_client" where
  "live_client_newConnection k socket L =
     (let c = length (client_conns L); s = core L; name = client_connection_name (snd (cli s)) in
      and_then (blame In_Owner (client_newConnection (snd (cli s)))) (\<lambda>kk.
      and_then (blame (In_Connection c) (TcpConnection_new (client_tid L) socket)) (\<lambda>x.
      client_conn k c Established
        (L\<lparr>core := s\<lparr>cli := (fst (cli s), kk), given := given s @ [name], current := Some c\<rparr>,
           client_conns := client_conns L @ [x]\<rparr>))))"

text \<open>
  The handler of \<open>async_connect\<close>; \<open>newConnection\<close> does not reach the connector, which is put back
  after it.
\<close>

definition live_connect_done ::
  "'u user_callbacks \<Rightarrow> errc \<Rightarrow> int option \<Rightarrow> tcp_socket \<Rightarrow> 'u live_client \<Rightarrow> (party \<times> fault) + 'u live_client" where
  "live_connect_done k error so_error socket L =
     and_then (connect_done (live_client_newConnection k socket) error so_error (fst (cli (core L)), L)) (\<lambda>(c, L).
     Inr (L\<lparr>core := (core L)\<lparr>cli := (c, snd (cli (core L)))\<rparr>\<rparr>))"

definition live_client_call :: "'u user_callbacks \<Rightarrow> client_call \<Rightarrow> 'u live_client \<Rightarrow> (party \<times> fault) + 'u live_client" where
  "live_client_call k call L = (if deleted (snd (cli (core L))) then Inr L else
     and_then (blame In_Owner (client_call call (cli (core L)))) (\<lambda>kk.
     let s = core L; L = L\<lparr>core := s\<lparr>cli := kk\<rparr>\<rparr> in
     case call of
       UserDisconnect \<Rightarrow> (case current s of None \<Rightarrow> Inr L | Some c \<Rightarrow> live_client_conn k c (ShutdownFrom (client_tid L)) L)
     | UserDelete \<Rightarrow> Inr (L\<lparr>core := (core L)\<lparr>detached := current s, current := None\<rparr>\<rparr>)
     | _ \<Rightarrow> Inr L))"

datatype live_client_event =
    LiveCall client_call | LiveConnectDone errc "int option" tcp_socket | LiveRetryFires | LiveRunPosted | LiveClientConn nat conn_event

definition live_client_event ::
  "'u user_callbacks \<Rightarrow> live_client_event \<Rightarrow> 'u live_client \<Rightarrow> (party \<times> fault) + 'u live_client" where
  "live_client_event k ev L = (let s = core L in case ev of
     LiveCall call \<Rightarrow> live_client_call k call L
   | LiveConnectDone error so_error socket \<Rightarrow> live_connect_done k error so_error socket L
   | LiveRetryFires \<Rightarrow> and_then (blame In_Owner (retry_fires (fst (cli s)))) (\<lambda>c. Inr (L\<lparr>core := s\<lparr>cli := (c, snd (cli s))\<rparr>\<rparr>))
   | LiveRunPosted \<Rightarrow> (case posted s of
        [] \<Rightarrow> Inr L
      | c # cs \<Rightarrow> live_client_conn k c Destroyed (L\<lparr>core := s\<lparr>posted := cs\<rparr>\<rparr>))
   | LiveClientConn c e \<Rightarrow> if length (client_conns L) \<le> c \<or> e = Established \<or> e = Destroyed then Inr L
       else live_client_conn k c e L)"

section \<open>The client it refines\<close>

abbreviation client_view :: "'u live_client \<Rightarrow> client" where
  "client_view L \<equiv> cli (core L)"

abbreviation has_connection :: "'u live_client \<Rightarrow> bool" where
  "has_connection L \<equiv> connection (snd (client_view L)) \<noteq> None"

text \<open>The client has a connection when the last one made is open.\<close>

definition conn_kept :: "'u live_client \<Rightarrow> nat \<Rightarrow> bool" where
  "conn_kept L c \<longleftrightarrow> loopTid (client_conns L ! c) = client_tid L \<and>
     upDowns (client_conns L ! c) = history (state (client_conns L ! c)) \<and> state (client_conns L ! c) \<noteq> kConnecting \<and>
     (state (client_conns L ! c) \<noteq> kDisconnected \<longleftrightarrow> has_connection L \<and> Suc c = length (client_conns L))"

definition pointer_ok :: "'u live_client \<Rightarrow> bool" where
  "pointer_ok L \<longleftrightarrow>
     (case connection (snd (client_view L)) of
        None \<Rightarrow> deleted (snd (client_view L)) \<or> current (core L) = None
      | Some name \<Rightarrow> client_conns L \<noteq> [] \<and> name = given (core L) ! (length (client_conns L) - 1) \<and>
          (if deleted (snd (client_view L)) then detached (core L) else current (core L)) = Some (length (client_conns L) - 1)) \<and>
     (\<not> deleted (snd (client_view L)) \<longrightarrow> detached (core L) = None)"

definition live_client_ok :: "'u live_client \<Rightarrow> bool" where
  "live_client_ok L \<longleftrightarrow> client_ok (client_view L) \<and> dispatched (core L) = None \<and>
     length (given (core L)) = length (client_conns L) \<and> (\<forall>c<length (client_conns L). conn_kept L c) \<and> pointer_ok L \<and>
     (\<forall>c\<in>set (posted (core L)). c < length (client_conns L) \<and> state (client_conns L ! c) = kDisconnected)"

definition client_simulates :: "'u live_client \<Rightarrow> (party \<times> fault) + 'u live_client \<Rightarrow> bool" where
  "client_simulates L r \<longleftrightarrow> (case r of Inl (p, x) \<Rightarrow> p \<noteq> In_Owner
   | Inr L' \<Rightarrow> live_client_ok L' \<and> (\<exists>es. fold_result client_event es (client_view L) = Inr (client_view L')))"

section \<open>Simulation\<close>

lemma live_client_okD:
  assumes "live_client_ok L"
  shows "client_ok (client_view L)" "dispatched (core L) = None" "length (given (core L)) = length (client_conns L)"
    "c < length (client_conns L) \<Longrightarrow> conn_kept L c" "pointer_ok L"
    "c \<in> set (posted (core L)) \<Longrightarrow> c < length (client_conns L) \<and> state (client_conns L ! c) = kDisconnected"
  using assms by (simp_all add: live_client_ok_def)

lemma client_simulates_refl: "live_client_ok L \<Longrightarrow> client_simulates L (Inr L)"
  by (simp add: client_simulates_def exI [of _ "[]"])

lemma client_simulates_trans:
  assumes "client_simulates L (Inr L1)" and "client_simulates L1 r"
  shows "client_simulates L r"
proof (cases r)
  case (Inr L2)
  then obtain es es' where "live_client_ok L2" "fold_result client_event es (client_view L) = Inr (client_view L1)"
      "fold_result client_event es' (client_view L1) = Inr (client_view L2)"
    using assms by (auto simp: client_simulates_def)
  then show ?thesis using Inr by (auto simp: client_simulates_def fold_result_append intro: exI [of _ "es @ es'"])
qed (use assms in \<open>simp add: client_simulates_def\<close>)

lemma client_simulatesI:
  assumes "client_event e (client_view L) = Inr (client_view L')" and "live_client_ok L'"
  shows "client_simulates L (Inr L')"
  using assms by (auto simp: client_simulates_def intro: exI [of _ "[e]"])

text \<open>The client's own fields change, its connections do not.\<close>

lemma live_client_ok_cli:
  assumes "live_client_ok L" and "client_ok k" and "connection (snd k) = connection (snd (client_view L))"
    and "deleted (snd k) = deleted (snd (client_view L))"
  shows "live_client_ok (L\<lparr>core := (core L)\<lparr>cli := k\<rparr>\<rparr>)"
  using assms by (cases "connection (snd (client_view L))") (auto simp: live_client_ok_def pointer_ok_def conn_kept_def split: if_splits)

lemma live_client_ok_posted:
  "live_client_ok L \<Longrightarrow> set cs \<subseteq> set (posted (core L)) \<Longrightarrow> live_client_ok (L\<lparr>core := (core L)\<lparr>posted := cs\<rparr>\<rparr>)"
  by (auto simp: live_client_ok_def pointer_ok_def conn_kept_def split: option.splits)

text \<open>What closing the last connection leaves.\<close>

lemma closes_keeps:
  assumes ok: "live_client_ok L" and c: "Suc c = length (client_conns L)" and x: "state x = kDisconnected"
      "loopTid x = client_tid L" "upDowns x = history (state x)"
    and s: "client_ok (cli s)" "connection (snd (cli s)) = None" "dispatched s = None" "given s = given (core L)"
      "deleted (snd (cli s)) \<or> current s = None \<and> detached s = None"
      "set (posted s) \<subseteq> insert c (set (posted (core L)))"
  shows "live_client_ok (L\<lparr>core := s, client_conns := (client_conns L)[c := x], client_user := u\<rparr>)"
proof -
  let ?L = "L\<lparr>core := s, client_conns := (client_conns L)[c := x], client_user := u\<rparr>"
  have "conn_kept ?L d" if "d < length (client_conns L)" for d
    using live_client_okD(4) [OF ok that] x s(2) c that by (cases "d = c") (auto simp: conn_kept_def)
  moreover have "d < length (client_conns L) \<and> state ((client_conns L)[c := x] ! d) = kDisconnected" if "d \<in> set (posted s)" for d
    using live_client_okD(6) [OF ok, of d] that s(6) x(1) c by (cases "d = c") auto
  ultimately show ?thesis using s live_client_okD(3) [OF ok] by (auto simp: live_client_ok_def pointer_ok_def)
qed

lemma client_close_world:
  assumes ok: "live_client_ok L" and c: "Suc c = length (client_conns L)" and has: "has_connection L"
  shows "\<exists>s. client_close c (core L) = Inr s \<and> client_event ConnectionCloses (client_view L) = Inr (cli s) \<and>
    connection (snd (cli s)) = None \<and> given s = given (core L) \<and> deleted (snd (cli s)) = deleted (snd (client_view L)) \<and>
    (if deleted (snd (client_view L)) then dispatched s = Some c \<and> posted s = posted (core L)
     else dispatched s = None \<and> current s = None \<and> detached s = None \<and> posted s = posted (core L) @ [c])"
proof -
  obtain kc kk where k: "client_view L = (kc, kk)" by (cases "client_view L")
  obtain name where name: "connection kk = Some name" "name = given (core L) ! c"
      "if deleted kk then detached (core L) = Some c else current (core L) = Some c \<and> detached (core L) = None"
    using live_client_okD(5) [OF ok] has k by (cases "deleted kk") (auto simp: pointer_ok_def simp flip: c)
  show ?thesis
  proof (cases "deleted kk")
    case True
    then show ?thesis using name k
      by (simp add: client_close_def live_detail_removeConnection_def client_event_def detail_removeConnection_def)
  next
    case False
    then obtain k' where k': "client_removeConnection name (kc, kk) = Inr k'"
      using connection_closes_ok [of kc kk name] live_client_okD(1) [OF ok] name k by auto
    then have "connection (snd k') = None \<and> deleted (snd k') = deleted kk"
      using name(1) by (auto simp: client_removeConnection_def Let_def and_then_eq_Inr split: if_splits)
    then show ?thesis using False k k' name live_client_okD(2) [OF ok]
      by (simp add: client_close_def live_removeConnection_def client_event_def)
  qed
qed

lemma live_client_conn_sim:
  assumes ok: "live_client_ok L" and c: "c < length (client_conns L)" and ev: "ev \<noteq> Established" "ev \<noteq> Destroyed"
  shows "client_simulates L (live_client_conn k c ev L)"
proof (cases "conn_event (client_hosted k c) ev (client_conns L ! c, (Inr (core L), client_user L))")
  case (Inl y)
  then show ?thesis by (simp add: live_client_conn_def client_conn_def client_simulates_def)
next
  case (Inr r)
  then obtain x s u where x: "conn_event (client_hosted k c) ev (client_conns L ! c, (Inr (core L), client_user L)) = Inr (x, (s, u))"
    by (cases r) auto
  note kept = live_client_okD(4) [OF ok c, unfolded conn_kept_def]
  have hist: "loopTid x = client_tid L" "upDowns x = history (state x)"
    using conn_event_history [OF x [unfolded client_hosted_def]] kept by simp_all
  consider (stays) "s = Inr (core L)" "stays (client_conns L ! c) x"
    | (closes) "state (client_conns L ! c) \<in> {kConnected, kDisconnecting}" "state x = kDisconnected" "s = client_close c (core L)"
    using conn_event_world [OF x [unfolded client_hosted_def] ev] by auto
  then show ?thesis
  proof cases
    case stays
    let ?L = "L\<lparr>client_conns := (client_conns L)[c := x], client_user := u\<rparr>"
    have r: "live_client_conn k c ev L = Inr ?L"
      using x stays(1) live_client_okD(2) [OF ok] by (simp add: live_client_conn_def client_conn_def)
    have st: "state x = kDisconnected \<longleftrightarrow> state (client_conns L ! c) = kDisconnected" "state x \<noteq> kConnecting"
      using stays(2) kept by (auto simp: stays_def)
    have "conn_kept ?L d" if "d < length (client_conns L)" for d
      using live_client_okD(4) [OF ok that] hist st kept that by (cases "d = c") (simp_all add: conn_kept_def)
    then have "live_client_ok ?L"
      using ok st(1) c by (auto simp: live_client_ok_def pointer_ok_def nth_list_update cong: option.case_cong)
    then show ?thesis unfolding r by (simp add: client_simulates_def exI [of _ "[]"])
  next
    case closes
    have last: "Suc c = length (client_conns L)" "has_connection L" using kept closes(1) by auto
    obtain s' where s': "client_close c (core L) = Inr s'" "client_event ConnectionCloses (client_view L) = Inr (cli s')"
        "connection (snd (cli s')) = None" "given s' = given (core L)" "deleted (snd (cli s')) = deleted (snd (client_view L))"
        "if deleted (snd (client_view L)) then dispatched s' = Some c \<and> posted s' = posted (core L)
         else dispatched s' = None \<and> current s' = None \<and> detached s' = None \<and> posted s' = posted (core L) @ [c]"
      using client_close_world [OF ok last] by blast
    have cok: "client_ok (cli s')" using client_event_ok [OF live_client_okD(1) [OF ok], of ConnectionCloses] s'(2) by simp
    let ?s = "s'\<lparr>dispatched := None\<rparr>"
    let ?L = "L\<lparr>core := ?s, client_conns := (client_conns L)[c := x], client_user := u\<rparr>"
    have one: "client_conn k c ev L = Inr (L\<lparr>core := s', client_conns := (client_conns L)[c := x], client_user := u\<rparr>)"
      using x closes(3) s'(1) by (simp add: client_conn_def)
    have r: "live_client_conn k c ev L = Inr ?L"
      using s'(6) one c closes(2)
      by (cases "deleted (snd (client_view L))")
         (simp_all add: live_client_conn_def, simp add: client_conn_def destroyed_disconnected)
    have "live_client_ok ?L"
      by (rule closes_keeps [OF ok last(1)]) (use closes(2) hist cok s' in \<open>auto split: if_splits\<close>)
    then show ?thesis unfolding r using s'(2) by (intro client_simulatesI [where e = ConnectionCloses]) simp_all
  qed
qed

lemma live_destroyed:
  assumes ok: "live_client_ok L" and c: "c < length (client_conns L)" "state (client_conns L ! c) = kDisconnected"
  shows "live_client_conn k c Destroyed L = Inr L"
  using live_client_okD(2) [OF ok] c by (simp add: live_client_conn_def client_conn_def destroyed_disconnected)

text \<open>A connection handed over while there is none.\<close>

lemma live_client_new_sim:
  assumes ok: "live_client_ok L" and none: "\<not> has_connection L" "\<not> deleted (snd (client_view L))"
  shows "case live_client_newConnection k socket L of Inl (p, x) \<Rightarrow> p \<noteq> In_Owner
    | Inr L' \<Rightarrow> \<exists>kk. client_newConnection (snd (client_view L)) = Inr kk \<and> client_view L' = (fst (client_view L), kk) \<and>
        connection kk \<noteq> None \<and> \<not> deleted kk \<and>
        (\<forall>c'. client_ok (c', kk) \<longrightarrow> live_client_ok (L'\<lparr>core := (core L')\<lparr>cli := (c', kk)\<rparr>\<rparr>))"
proof -
  let ?c = "length (client_conns L)" and ?name = "client_connection_name (snd (client_view L))"
  obtain kk where kk: "client_newConnection (snd (client_view L)) = Inr kk" "connection kk = Some ?name" "\<not> deleted kk"
    using none by (simp add: client_newConnection_def)
  let ?s = "(core L)\<lparr>cli := (fst (client_view L), kk), given := given (core L) @ [?name], current := Some ?c\<rparr>"
  show ?thesis
  proof (cases "TcpConnection_new (client_tid L) socket")
    case (Inl y)
    then show ?thesis using kk by (simp add: live_client_newConnection_def)
  next
    case (Inr x0)
    note x0 = TcpConnection_new_ok [OF Inr]
    let ?L = "L\<lparr>core := ?s, client_conns := client_conns L @ [x0]\<rparr>"
    have new: "live_client_newConnection k socket L = client_conn k ?c Established ?L"
      using kk Inr by (simp add: live_client_newConnection_def Let_def)
    show ?thesis
    proof (cases "conn_event (client_hosted k ?c) Established (x0, (Inr ?s, client_user L))")
      case (Inl y)
      then show ?thesis unfolding new by (simp add: client_conn_def)
    next
      case (Inr r)
      then obtain x s u where x: "conn_event (client_hosted k ?c) Established (x0, (Inr ?s, client_user L)) = Inr (x, (s, u))"
        by (cases r) auto
      have w: "s = Inr ?s" "state x \<in> {kConnected, kDisconnecting}"
        using established_world [OF x [unfolded client_hosted_def]] by simp_all
      have hist: "loopTid x = client_tid L" "upDowns x = history (state x)"
        using conn_event_history [OF x [unfolded client_hosted_def]] x0 by simp_all
      let ?L' = "?L\<lparr>client_conns := client_conns L @ [x], client_user := u\<rparr>"
      have r: "live_client_newConnection k socket L = Inr ?L'"
        unfolding new using x w(1) by (simp add: client_conn_def)
      have kept: "conn_kept (?L'\<lparr>core := ?s\<lparr>cli := (c', kk)\<rparr>\<rparr>) d" if "d < Suc ?c" for d c'
        using live_client_okD(4) [OF ok, of d] that hist w(2) kk(2) none(1)
        by (cases "d = ?c") (auto simp: conn_kept_def nth_append)
      have "live_client_ok (?L'\<lparr>core := ?s\<lparr>cli := (c', kk)\<rparr>\<rparr>)" if "client_ok (c', kk)" for c'
        using that kept live_client_okD(2,3,5) [OF ok] live_client_okD(6) [OF ok] kk none
        by (auto simp: live_client_ok_def pointer_ok_def nth_append less_SucI)
      then show ?thesis unfolding r using kk by simp
    qed
  qed
qed

lemma live_connect_done_sim:
  assumes ok: "live_client_ok L"
  shows "client_simulates L (live_connect_done k e so socket L)"
proof -
  obtain c kk where view: "client_view L = (c, kk)" by (cases "client_view L")
  obtain c' new where out: "connect_outcome e so c = (c', new)" by (cases "connect_outcome e so c")
  note okD = connect_outcome_ok [OF live_client_okD(1) [OF ok, unfolded view] out]
  obtain k' where k': "connect_done client_newConnection e so (c, kk) = Inr k'" "client_ok k'"
    using connect_done_ok [OF live_client_okD(1) [OF ok, unfolded view]] by blast
  have ev: "client_event (ConnectDone e so) (client_view L) = Inr k'" using k' view by (simp add: client_event_def)
  show ?thesis
  proof (cases new)
    case False
    then have "k' = (c', kk)" "live_connect_done k e so socket L = Inr (L\<lparr>core := (core L)\<lparr>cli := (c', kk)\<rparr>\<rparr>)"
      using k' out view by (simp_all add: live_connect_done_def connect_done_outcome)
    then show ?thesis using live_client_ok_cli [OF ok, of "(c', kk)"] okD(2) False view ev
      by (simp add: client_simulatesI [where e = "ConnectDone e so"])
  next
    case True
    then have none: "\<not> has_connection L" "\<not> deleted (snd (client_view L))" using okD(1) view by simp_all
    show ?thesis
    proof (cases "live_client_newConnection k socket L")
      case (Inl y)
      then show ?thesis using live_client_new_sim [OF ok none, of k socket] out True view
        by (simp add: live_connect_done_def connect_done_outcome client_simulates_def)
    next
      case (Inr L')
      then obtain kn where kn: "client_newConnection kk = Inr kn" "client_view L' = (c, kn)"
          "\<And>c'. client_ok (c', kn) \<Longrightarrow> live_client_ok (L'\<lparr>core := (core L')\<lparr>cli := (c', kn)\<rparr>\<rparr>)"
        using live_client_new_sim [OF ok none, of k socket] view by auto
      have "k' = (c', kn)" using k'(1) out True kn(1) by (simp add: connect_done_outcome)
      moreover have "live_connect_done k e so socket L = Inr (L'\<lparr>core := (core L')\<lparr>cli := (c', kn)\<rparr>\<rparr>)"
        using Inr out True kn(2) view by (simp add: live_connect_done_def connect_done_outcome)
      ultimately show ?thesis using kn(3) k'(2) ev by (simp add: client_simulatesI [where e = "ConnectDone e so"])
    qed
  qed
qed

lemma client_call_fields:
  assumes "client_call call k = Inr k'" and "\<not> deleted (snd k)"
  shows "connection (snd k') = connection (snd k)" "deleted (snd k') \<longleftrightarrow> call = UserDelete"
  using assms by (cases k; cases call; auto simp: client_call_def client_defs and_then_eq_Inr)+

lemma live_client_call_sim:
  assumes ok: "live_client_ok L" and once: "call \<noteq> UserConnect"
  shows "client_simulates L (live_client_call k call L)"
proof (cases "deleted (snd (client_view L))")
  case True
  then show ?thesis using client_simulates_refl [OF ok] by (simp add: live_client_call_def)
next
  case False
  obtain kk where kk: "client_call call (client_view L) = Inr kk" "client_ok kk"
    using client_call_ok [OF live_client_okD(1) [OF ok] once] by blast
  note fields = client_call_fields [OF kk(1) False]
  have ev: "client_event (ClientCall call) (client_view L) = Inr kk" using kk by (cases "client_view L") (simp add: client_event_def)
  let ?L = "L\<lparr>core := (core L)\<lparr>cli := kk\<rparr>\<rparr>"
  show ?thesis
  proof (cases "call = UserDelete")
    case True
    have "live_client_ok (?L\<lparr>core := (core ?L)\<lparr>detached := current (core L), current := None\<rparr>\<rparr>)"
      using ok kk(2) fields False True
      by (cases "connection (snd (client_view L))") (simp_all add: live_client_ok_def pointer_ok_def conn_kept_def)
    then show ?thesis using kk False ev True by (simp add: live_client_call_def Let_def client_simulatesI [where e = "ClientCall call"])
  next
    case False
    then have okL: "live_client_ok ?L" using live_client_ok_cli [OF ok kk(2)] fields \<open>\<not> deleted _\<close> by simp
    then have one: "client_simulates L (Inr ?L)" by (simp add: client_simulatesI [where e = "ClientCall call"] ev)
    show ?thesis
    proof (cases "call = UserDisconnect \<and> current (core L) \<noteq> None")
      case True
      then obtain c where c: "current (core L) = Some c" by blast
      then have "Suc c = length (client_conns L)"
        using live_client_okD(5) [OF ok] \<open>\<not> deleted _\<close> by (auto simp: pointer_ok_def split: option.splits)
      then have "client_simulates ?L (live_client_conn k c (ShutdownFrom (client_tid L)) ?L)"
        by (intro live_client_conn_sim [OF okL]) auto
      then have "client_simulates L (live_client_conn k c (ShutdownFrom (client_tid L)) ?L)"
        by (rule client_simulates_trans [OF one])
      then show ?thesis using True kk c \<open>\<not> deleted _\<close> by (simp add: live_client_call_def Let_def)
    next
      case cases: False
      then have "live_client_call k call L = Inr ?L"
        using kk False \<open>\<not> deleted _\<close> by (cases call) (simp_all add: live_client_call_def Let_def)
      then show ?thesis using one by simp
    qed
  qed
qed

lemma live_client_event_sim:
  assumes ok: "live_client_ok L" and ev: "ev \<noteq> LiveCall UserConnect"
  shows "client_simulates L (live_client_event k ev L)"
proof (cases ev)
  case (LiveCall call)
  then show ?thesis using live_client_call_sim [OF ok, of call] ev by (simp add: live_client_event_def)
next
  case (LiveConnectDone e so)
  then show ?thesis using live_connect_done_sim [OF ok] by (simp add: live_client_event_def)
next
  case LiveRetryFires
  obtain c kk where view: "client_view L = (c, kk)" by (cases "client_view L")
  obtain c' where c': "retry_fires c = Inr c'" "client_ok (c', kk)"
    using retry_fires_ok [OF live_client_okD(1) [OF ok, unfolded view]] by blast
  have "live_client_ok (L\<lparr>core := (core L)\<lparr>cli := (c', kk)\<rparr>\<rparr>)" using live_client_ok_cli [OF ok c'(2)] view by simp
  then show ?thesis using c'(1) view LiveRetryFires
    by (simp add: live_client_event_def client_simulatesI [where e = RetryFires] client_event_def)
next
  case LiveRunPosted
  show ?thesis
  proof (cases "posted (core L)")
    case (Cons c cs)
    let ?L = "L\<lparr>core := (core L)\<lparr>posted := cs\<rparr>\<rparr>"
    have okL: "live_client_ok ?L" using live_client_ok_posted [OF ok, of cs] Cons by auto
    have "c < length (client_conns ?L)" "state (client_conns ?L ! c) = kDisconnected"
      using live_client_okD(6) [OF ok, of c] Cons by simp_all
    then have "live_client_event k ev L = Inr ?L" using live_destroyed [OF okL] LiveRunPosted Cons by (simp add: live_client_event_def)
    then show ?thesis using okL by (simp add: client_simulates_def exI [of _ "[]"])
  qed (use client_simulates_refl [OF ok] LiveRunPosted in \<open>simp add: live_client_event_def\<close>)
next
  case (LiveClientConn c e)
  then show ?thesis using live_client_conn_sim [OF ok, of c e k] client_simulates_refl [OF ok] by (simp add: live_client_event_def)
qed

lemma live_client_events_sim:
  assumes "live_client_ok L" and "LiveCall UserConnect \<notin> set evs"
  shows "client_simulates L (fold_result (live_client_event k) evs L)"
  using assms
proof (induction evs arbitrary: L)
  case Nil
  then show ?case by (simp add: client_simulates_refl)
next
  case (Cons ev evs)
  have sim: "client_simulates L (live_client_event k ev L)" by (rule live_client_event_sim) (use Cons.prems in auto)
  show ?case
  proof (cases "live_client_event k ev L")
    case (Inl y)
    then show ?thesis using sim by (simp add: client_simulates_def)
  next
    case (Inr L1)
    then have "live_client_ok L1" using sim by (simp add: client_simulates_def)
    from Cons.IH [OF this] Cons.prems(2) show ?thesis using Inr sim by (auto intro: client_simulates_trans)
  qed
qed

lemma live_connect_once:
  "\<exists>L. live_client_event k (LiveCall UserConnect) (live_client_new tid addr i u) = Inr L \<and> live_client_ok L \<and>
    client_event (ClientCall UserConnect) (TcpClient_new addr i) = Inr (client_view L)"
proof -
  obtain kk where kk: "client_call UserConnect (TcpClient_new addr i) = Inr kk" "client_ok kk" "connection (snd kk) = None"
      "\<not> deleted (snd kk)"
    using connect_once by blast
  then show ?thesis
    by (cases "TcpClient_new addr i")
       (auto simp: live_client_event_def live_client_call_def live_client_new_def live_client_ok_def pointer_ok_def client_event_def
         TcpClient_new_def Let_def)
qed

lemma filter_last:
  assumes "\<And>c. c < length xs \<Longrightarrow> P (xs ! c) \<longleftrightarrow> b \<and> Suc c = length xs" and "b \<Longrightarrow> xs \<noteq> []"
  shows "filter P xs = (if b then [last xs] else [])"
proof (cases xs rule: rev_cases)
  case (snoc ys y)
  have "\<not> P (ys ! i)" if "i < length ys" for i using that assms(1) [of i] snoc by (simp add: nth_append)
  then have "\<not> P z" if "z \<in> set ys" for z using that by (auto simp: in_set_conv_nth)
  moreover have "P y \<longleftrightarrow> b" using assms(1) [of "length ys"] snoc by simp
  ultimately show ?thesis using snoc by simp
qed (use assms in auto)

lemma live_client_open:
  assumes "live_client_ok L"
  shows "filter (\<lambda>x. state x \<noteq> kDisconnected) (client_conns L) = (if has_connection L then [last (client_conns L)] else [])"
proof (rule filter_last)
  show "has_connection L \<Longrightarrow> client_conns L \<noteq> []"
    using live_client_okD(5) [OF assms] by (auto simp: pointer_ok_def)
qed (use live_client_okD(4) [OF assms] in \<open>simp add: conn_kept_def\<close>)

section \<open>Properties\<close>

text \<open>
  C12: a client with its real connections.  The user connects once; after that let attempts succeed
  or fail in any way, retries fire, the user stop, disconnect, enable retries or delete the client,
  the loop run its tasks, and peers and users do anything to the connections.  The client itself
  never faults: no assertion fails and no deleted client is called.  When no connection faults
  either, the run is one of the client that knows its connection by name; at most the last
  connection made is open, and only while the client counts it as its own, there is never more than
  one of an attempt, a retry and a connection, and every user has seen a connection up once and down
  once, as its state says.
\<close>

theorem live_client_refines:
  assumes "LiveCall UserConnect \<notin> set evs"
  shows "case fold_result (live_client_event k) (LiveCall UserConnect # evs) (live_client_new tid addr i u) of
      Inl (p, x) \<Rightarrow> p \<noteq> In_Owner
    | Inr L \<Rightarrow> (\<exists>es. fold_result client_event es (TcpClient_new addr i) = Inr (client_view L)) \<and>
        filter (\<lambda>x. state x \<noteq> kDisconnected) (client_conns L) = (if has_connection L then [last (client_conns L)] else []) \<and>
        connects (fst (client_view L)) + retries (fst (client_view L)) + of_bool (has_connection L) \<le> 1 \<and>
        map upDowns (client_conns L) = map (history \<circ> state) (client_conns L)"
proof -
  obtain L0 where L0: "live_client_event k (LiveCall UserConnect) (live_client_new tid addr i u) = Inr L0" "live_client_ok L0"
      "client_event (ClientCall UserConnect) (TcpClient_new addr i) = Inr (client_view L0)"
    using live_connect_once [of k tid addr i u] by blast
  note sim = live_client_events_sim [OF L0(2) assms, of k]
  show ?thesis
  proof (cases "fold_result (live_client_event k) evs L0")
    case (Inl y)
    then show ?thesis using sim L0(1) by (simp add: client_simulates_def)
  next
    case (Inr L)
    then obtain es where L: "live_client_ok L" "fold_result client_event es (client_view L0) = Inr (client_view L)"
      using sim by (auto simp: client_simulates_def)
    have "\<exists>es. fold_result client_event es (TcpClient_new addr i) = Inr (client_view L)"
      using L0(3) L(2) by (intro exI [of _ "ClientCall UserConnect # es"]) simp
    moreover have "connects (fst (client_view L)) + retries (fst (client_view L)) + of_bool (has_connection L) \<le> 1"
      using live_client_okD(1) [OF L(1)] by (cases "client_view L") (auto simp: client_ok_def)
    moreover have "map upDowns (client_conns L) = map (history \<circ> state) (client_conns L)"
      using live_client_okD(4) [OF L(1)] by (intro nth_equalityI) (simp_all add: conn_kept_def)
    ultimately show ?thesis using live_client_open [OF L(1)] L0(1) Inr by simp
  qed
qed

definition count_client :: "nat user_callbacks" where
  "count_client = \<lparr>on_connection = (\<lambda>_ _ n. ([], n + 1)), on_message = (\<lambda>_ b n. Inr (b, [], n))\<rparr>"

definition left_client :: "nat live_client" where
  "left_client = (let k = snd (TcpClient_new ''::1'' 3); name = client_connection_name k in
     (live_client_new 0 ''::1'' 3 2)\<lparr>core :=
       \<lparr>cli = (Connector_new\<lparr>wants_connect := True, connector_state := Connected\<rparr>,
          k\<lparr>client_connect := True, client_nextConnId := 4, closing := [name], deleted := True\<rparr>),
        given = [name], current = None, detached = Some 0, dispatched = None, posted = []\<rparr>,
     client_conns := [fresh_connection\<lparr>state := kDisconnected, upDowns := [kConnected, kDisconnected]\<rparr>]\<rparr>)"

definition leave_client :: "live_client_event list" where
  "leave_client = [LiveConnectDone success (Some 0) (sound_socket 5), LiveCall UserDelete, LiveClientConn 0 ReadFail]"

lemma left_client_run:
  "fold_result (live_client_event count_client) (LiveCall UserConnect # leave_client) (live_client_new 0 ''::1'' 3 0) = Inr left_client"
  using fresh_connection_new
  by (simp add: leave_client_def live_client_event_def live_client_call_def live_client_new_def client_call_def live_connect_done_def
    live_client_newConnection_def live_client_conn_def client_conn_def conn_event_def connectEstablished_def readHeader_def
    conn_assertInLoopThread_def call_connection_def call_connection_if_set_def call_close_if_set_def setState_def read_fail_def
    handleClose_def connectDestroyed_def client_hosted_def client_close_def live_detail_removeConnection_def count_client_def
    client_defs connector_defs client_connection_name_def fresh_connection_def left_client_def Let_def)

theorem live_client_refines_witness:
  "(\<exists>es. fold_result client_event es (TcpClient_new ''::1'' 3) = Inr (client_view left_client)) \<and>
    filter (\<lambda>x. state x \<noteq> kDisconnected) (client_conns left_client) =
      (if has_connection left_client then [last (client_conns left_client)] else []) \<and>
    connects (fst (client_view left_client)) + retries (fst (client_view left_client)) + of_bool (has_connection left_client) \<le> 1 \<and>
    map upDowns (client_conns left_client) = map (history \<circ> state) (client_conns left_client)"
  using live_client_refines [where evs = leave_client and k = count_client and tid = 0 and addr = "''::1''" and i = 3 and u = 0] unfolding left_client_run
  by (simp add: leave_client_def)

end
