(* ===== verification/Main_Program.thy ===== *)
theory Main_Program
  imports Http_Service "HOL-Library.List_Lexorder" "HOL-Library.Char_ord"
begin

text \<open>
  \<open>main.cpp\<close>: the HTTP server the program starts, its routes and the threads that run it.  The
  handlers print to the standard output and send nothing, so an effect is the text printed.
\<close>

section \<open>Routes\<close>

definition greeting :: string where
  "greeting = ''hello '' @ [CHR 0x0A]"

definition hello :: "string \<Rightarrow> string list" where
  "hello r = [greeting]"

definition nothing :: "string \<Rightarrow> string list" where
  "nothing r = []"

definition animals :: "bool \<Rightarrow> string router result" where
  "animals moves =
     and_then (router_get moves ''^/cat$'' (prepare [] hello) Router_new) (\<lambda>animals.
     and_then (router_get moves ''^/dog$'' (prepare [] nothing) animals) (\<lambda>animals.
     and_then (router_get moves ''^/mouse$'' (prepare [] nothing) animals) (\<lambda>animals.
     router_get moves ''^[/]??$'' (prepare [] nothing) animals)))"

definition main_routes :: "bool \<Rightarrow> (string resources \<Rightarrow> string list) \<Rightarrow> (string method_resources \<Rightarrow> verb list) \<Rightarrow>
    string router result" where
  "main_routes moves keys methods =
     and_then (animals moves) (\<lambda>animals.
     and_then (router_use moves keys methods ''^/animals$'' animals Router_new) (\<lambda>route.
     router_get moves ''^/$'' (prepare [] hello) route))"

section \<open>The server and its threads\<close>

text \<open>
  The application of the server's sessions: what a request prints, and no call on its context.
\<close>

definition main_app :: "(string \<Rightarrow> string \<Rightarrow> bool) \<Rightarrow> (string resources \<Rightarrow> string list) \<Rightarrow> nat \<Rightarrow> string router \<Rightarrow>
    verb \<Rightarrow> string \<Rightarrow> (ctx_call list \<times> request) result" where
  "main_app matches keys depth rt m t = and_then (provide matches keys depth rt m t) (\<lambda>(_, r). Inr ([], r))"

text \<open>\<open>pool_size\<close> is a \<open>uint32_t\<close>; the number of threads started, and the elements reserved for them.\<close>

definition pool_size :: "32 word \<Rightarrow> 32 word" where
  "pool_size hardware_concurrency = hardware_concurrency * 2"

definition main_threads :: "32 word \<Rightarrow> nat \<times> nat" where
  "main_threads hardware_concurrency = (let n = pool_size hardware_concurrency in
     (length [0..<unat n], if n > 0 then unat n else 4))"

definition main_server :: "acceptor_errors \<Rightarrow> http_server" where
  "main_server e = http_start e HttpServer_new"

text \<open>
  When the number of processors is not known (\<open>hardware_concurrency\<close> is 0) room is reserved for
  four threads and none is started, so the program ends at once; otherwise there are as many as reserved.
\<close>

lemma main_threads_started:
  "main_threads 0 = (0, 4)" "pool_size n \<noteq> 0 \<Longrightarrow> main_threads n = (unat (pool_size n), unat (pool_size n))"
  by (simp_all add: main_threads_def pool_size_def Let_def word_neq_0_conv)

section \<open>What a request to the program does\<close>

text \<open>What the expressions of the routes match, as ECMAScript expressions.\<close>

definition main_regex :: "(string \<Rightarrow> string \<Rightarrow> bool) \<Rightarrow> bool" where
  "main_regex matches \<longleftrightarrow> (\<forall>t. (matches ''^/$'' t \<longleftrightarrow> t = ''/'') \<and>
     (matches ''^/animals/cat$'' t \<longleftrightarrow> t = ''/animals/cat'') \<and> (matches ''^/animals/dog$'' t \<longleftrightarrow> t = ''/animals/dog'') \<and>
     (matches ''^/animals/mouse$'' t \<longleftrightarrow> t = ''/animals/mouse'') \<and>
     (matches ''^/animals[/]??$'' t \<longleftrightarrow> t = ''/animals'' \<or> t = ''/animals/''))"

definition animal_map :: "string resources" where
  "animal_map = [''^/cat$'' \<mapsto> [Final hello], ''^/dog$'' \<mapsto> [Final nothing], ''^/mouse$'' \<mapsto> [Final nothing],
     ''^[/]??$'' \<mapsto> [Final nothing]]"

definition main_map :: "string resources" where
  "main_map = [''^/animals/cat$'' \<mapsto> [Final hello], ''^/animals/dog$'' \<mapsto> [Final nothing],
     ''^/animals/mouse$'' \<mapsto> [Final nothing], ''^/animals[/]??$'' \<mapsto> [Final nothing], ''^/$'' \<mapsto> [Final hello]]"

lemma animals_eq: "animals moves = Inr \<lparr>resource_map = None, method_map = Some [Verb_get \<mapsto> animal_map]\<rparr>"
  by (simp add: animals_def router_get_def add_resource_cb_def Router_new_def emplace_or_assign_def animal_map_def)

lemma mount_animals:
  "mount ''^/animals$'' ''^/cat$'' = ''^/animals/cat$''" "mount ''^/animals$'' ''^/dog$'' = ''^/animals/dog$''"
  "mount ''^/animals$'' ''^/mouse$'' = ''^/animals/mouse$''" "mount ''^/animals$'' ''^[/]??$'' = ''^/animals[/]??$''"
  by (simp_all add: mount_def anchored_def strip_anchors_def)

lemma animal_routes: "route \<lparr>resource_map = None, method_map = Some [Verb_get \<mapsto> animal_map]\<rparr> m k =
    (if m = Verb_get then animal_map k else None)"
  by (simp add: route_def)

lemma route_new: "route Router_new m k = None"
  by (simp add: route_def Router_new_def)

lemma animal_mounted:
  "animal_map k = Some st \<Longrightarrow> main_map (mount ''^/animals$'' k) = Some st \<and> mount ''^/animals$'' k \<noteq> ''^/$''"
  by (auto simp: animal_map_def main_map_def mount_animals split: if_splits)

lemma main_routes_eq:
  assumes keys: "\<forall>m. finite (dom m) \<longrightarrow> lists_keys keys m" and methods: "\<forall>mm. dom mm = {Verb_get} \<longrightarrow> methods mm = [Verb_get]"
  shows "\<exists>rt. main_routes moves keys methods = Inr rt \<and> (\<forall>m k. route rt m k = (if m = Verb_get then main_map k else None))"
proof -
  let ?a = "\<lparr>resource_map = None, method_map = Some [Verb_get \<mapsto> animal_map]\<rparr>"
  have dom: "dom animal_map = {''^/cat$'', ''^/dog$'', ''^/mouse$'', ''^[/]??$''}" by (auto simp: animal_map_def)
  have inj: "inj_on (mount ''^/animals$'') (dom animal_map)" unfolding dom by (simp add: mount_animals)
  have ms: "methods [Verb_get \<mapsto> animal_map] = [Verb_get]" using methods by simp
  obtain r where r: "router_use moves keys methods ''^/animals$'' ?a Router_new = Inr r"
      "\<forall>m k st. route ?a m k = Some st \<longrightarrow> route r m (mount ''^/animals$'' k) = Some st"
      "\<forall>m q. (\<forall>k. route ?a m k \<noteq> None \<longrightarrow> q \<noteq> mount ''^/animals$'' k) \<longrightarrow> route r m q = route Router_new m q"
  proof -
    have "\<exists>r. router_use moves keys methods ''^/animals$'' ?a Router_new = Inr r \<and>
      (\<forall>m k st. route ?a m k = Some st \<longrightarrow> route r m (mount ''^/animals$'' k) = Some st) \<and>
      (\<forall>m q. (\<forall>k. route ?a m k \<noteq> None \<longrightarrow> q \<noteq> mount ''^/animals$'' k) \<longrightarrow> route r m q = route Router_new m q)"
    proof (rule use_mounts [where mm = "[Verb_get \<mapsto> animal_map]"])
      show "\<forall>m rm. [Verb_get \<mapsto> animal_map] m = Some rm \<longrightarrow> lists_keys keys rm" using keys dom by simp
      show "\<forall>m. inj_on (mount ''^/animals$'') {k. route ?a m k \<noteq> None}"
        by (auto intro: inj_on_subset [OF inj] simp: animal_routes split: if_splits)
      show "\<forall>m. route ?a m [] = None" unfolding animal_routes by (simp add: animal_map_def)
    qed (use ms in \<open>simp_all add: lists_methods_def route_def Router_new_def\<close>)
    then show ?thesis using that by blast
  qed
  have "route r Verb_get ''^/$'' = None"
  proof -
    have "''^/$'' \<notin> mount ''^/animals$'' ` dom animal_map" unfolding dom by (simp add: mount_animals)
    then have "\<forall>k. route ?a Verb_get k \<noteq> None \<longrightarrow> ''^/$'' \<noteq> mount ''^/animals$'' k"
      unfolding animal_routes by auto
    then have "route r Verb_get ''^/$'' = route Router_new Verb_get ''^/$''" using r(3) by blast
    then show ?thesis by (simp add: route_new)
  qed
  then obtain rt where rt: "router_get moves ''^/$'' [Final hello] r = Inr rt"
      "\<forall>m k. route rt m k = (if m = Verb_get \<and> k = ''^/$'' then Some [Final hello] else route r m k)"
    using route_add [of "''^/$''" moves Verb_get "[Final hello]" r] unfolding router_get_def by auto
  have "route r m q = (if m = Verb_get then (main_map(''^/$'' := None)) q else None)" for m q
  proof (cases "\<exists>k. route ?a m k \<noteq> None \<and> q = mount ''^/animals$'' k")
    case True
    then obtain k st where k: "route ?a m k = Some st" "q = mount ''^/animals$'' k" by auto
    then have "route r m q = Some st" using r(2) by simp
    moreover have "m = Verb_get" "animal_map k = Some st" using k(1) unfolding animal_routes by (simp_all split: if_splits)
    ultimately show ?thesis using animal_mounted [of k st] k(2) by simp
  next
    case False
    then have "route r m q = route Router_new m q" using r(3) by blast
    then have "route r m q = None" by (simp add: route_new)
    moreover have "m \<noteq> Verb_get \<or> q \<notin> mount ''^/animals$'' ` dom animal_map"
      using False unfolding animal_routes image_iff by (metis domIff)
    ultimately show ?thesis by (auto simp: dom mount_animals main_map_def)
  qed
  then have "route rt m k = (if m = Verb_get then main_map k else None)" for m k
    using rt(2) by (simp add: main_map_def)
  moreover have "main_routes moves keys methods = Inr rt"
    using r(1) rt(1) by (simp add: main_routes_def animals_eq)
  ultimately show ?thesis by blast
qed

lemma distinct_one: "distinct ks \<Longrightarrow> set ks = {k} \<Longrightarrow> ks = [k]"
  by (cases ks; cases "tl ks") auto

lemma main_provide:
  assumes keys: "\<forall>m. finite (dom m) \<longrightarrow> lists_keys keys m" and regex: "main_regex matches" and "0 < depth"
    and rt: "\<forall>m k. route rt m k = (if m = Verb_get then main_map k else None)"
  shows "\<exists>req. provide matches keys depth rt m t =
    Inr (if m = Verb_get \<and> (t = ''/'' \<or> t = ''/animals/cat'') then [greeting] else [], req)"
proof -
  have dom: "dom main_map = {''^/animals/cat$'', ''^/animals/dog$'', ''^/animals/mouse$'', ''^/animals[/]??$'', ''^/$''}"
    by (auto simp: main_map_def)
  have single: "\<forall>k st. route rt m k = Some st \<longrightarrow> (\<exists>f. st = [Final f])"
    using rt by (auto simp: main_map_def split: if_splits)
  have fin: "\<forall>mm rm. method_map rt = Some mm \<longrightarrow> mm m = Some rm \<longrightarrow> lists_keys keys rm"
  proof (intro allI impI)
    fix mm rm assume m: "method_map rt = Some mm" "mm m = Some rm"
    then have "rm k = (if m = Verb_get then main_map k else None)" for k
      using rt [rule_format, of m k] m by (simp add: route_def)
    then have "dom rm \<subseteq> dom main_map" by (auto split: if_splits)
    then have "finite (dom rm)" unfolding dom by (rule finite_subset) simp
    then show "lists_keys keys rm" using keys by simp
  qed
  obtain ks es req where p: "provide matches keys depth rt m t = Inr (es, req)" "distinct ks"
      "set ks = {k. route rt m k \<noteq> None \<and> matches k t}"
      "es = concat (map (\<lambda>k. case route rt m k of Some [Final f] \<Rightarrow> f t | _ \<Rightarrow> []) ks)"
    using provide_single [OF single assms(3) fin, of matches t] by blast
  show ?thesis
  proof (cases "m = Verb_get")
    case False
    then show ?thesis using p rt by simp
  next
    case True
    have re: "(matches ''^/$'' t \<longleftrightarrow> t = ''/'') \<and>
        (matches ''^/animals/cat$'' t \<longleftrightarrow> t = ''/animals/cat'') \<and> (matches ''^/animals/dog$'' t \<longleftrightarrow> t = ''/animals/dog'') \<and>
        (matches ''^/animals/mouse$'' t \<longleftrightarrow> t = ''/animals/mouse'') \<and>
        (matches ''^/animals[/]??$'' t \<longleftrightarrow> t = ''/animals'' \<or> t = ''/animals/'')"
      using regex unfolding main_regex_def by blast
    have ks: "set ks = {k \<in> dom main_map. matches k t}" using p(3) rt True by auto
    consider "t = ''/''" | "t = ''/animals/cat''" | "t = ''/animals/dog''" | "t = ''/animals/mouse''"
      | "t = ''/animals'' \<or> t = ''/animals/''"
      | "t \<noteq> ''/''" "t \<noteq> ''/animals/cat''" "t \<noteq> ''/animals/dog''" "t \<noteq> ''/animals/mouse''" "t \<noteq> ''/animals''" "t \<noteq> ''/animals/''"
      by blast
    then show ?thesis
    proof cases
      case 1
      then have "set ks = {''^/$''}" using re unfolding ks dom by auto
      then show ?thesis using distinct_one [OF p(2)] p(1,4) rt True 1 by (simp add: main_map_def hello_def)
    next
      case 2
      then have "set ks = {''^/animals/cat$''}" using re unfolding ks dom by auto
      then show ?thesis using distinct_one [OF p(2)] p(1,4) rt True 2 by (simp add: main_map_def hello_def)
    next
      case 3
      then have "set ks = {''^/animals/dog$''}" using re unfolding ks dom by auto
      then show ?thesis using distinct_one [OF p(2)] p(1,4) rt True 3 by (simp add: main_map_def nothing_def)
    next
      case 4
      then have "set ks = {''^/animals/mouse$''}" using re unfolding ks dom by auto
      then show ?thesis using distinct_one [OF p(2)] p(1,4) rt True 4 by (simp add: main_map_def nothing_def)
    next
      case 5
      then have "set ks = {''^/animals[/]??$''}" using re unfolding ks dom by auto
      then show ?thesis using distinct_one [OF p(2)] p(1,4) rt True 5 by (auto simp: main_map_def nothing_def)
    next
      case 6
      then have "set ks = {}" using re unfolding ks dom by auto
      then show ?thesis using p(1,4) 6 by simp
    qed
  qed
qed

lemma main_session_reads:
  fixes f :: "'r flesh"
  assumes "\<And>m t. \<exists>x. provide matches keys depth rt m t = Inr x" and "reads f = 1" and "queued f = []" and "sock_open f"
  shows "fold_result (session_event (main_app matches keys depth rt)) (map (\<lambda>(now, m, t). ReadDone now (Some (m, t))) reqs) f = Inr f"
proof (induction reqs)
  case (Cons req reqs)
  obtain now m t where req: "req = (now, m, t)" by (cases req)
  obtain es r where "provide matches keys depth rt m t = Inr (es, r)" using assms(1) [of m t] by auto
  then have "session_event (main_app matches keys depth rt) (ReadDone now (Some (m, t))) f = Inr f"
    using assms(2-4) by (simp add: session_event_def read_done_def doProcessRequest_def main_app_def is_full_def
      queue_limit_def recv_def doRead_def)
  then show ?case using Cons.IH req by simp
qed simp

text \<open>
  C37: what the program serves.  Whatever order the maps of the router are listed in, the routes are
  set up without fault; a \<open>GET\<close> of \<open>/\<close> or \<open>/animals/cat\<close> prints a greeting, every other request
  nothing; and a session answers none, but reads request after request.
\<close>

theorem main_serves:
  assumes "\<forall>m. finite (dom m) \<longrightarrow> lists_keys keys m" and "\<forall>mm. dom mm = {Verb_get} \<longrightarrow> methods mm = [Verb_get]"
    and "main_regex matches" and "0 < depth"
  shows "\<exists>rt. main_routes moves keys methods = Inr rt \<and>
    (\<forall>m t. \<exists>req. provide matches keys depth rt m t =
      Inr (if m = Verb_get \<and> (t = ''/'' \<or> t = ''/animals/cat'') then [greeting] else [], req)) \<and>
    (\<forall>reqs. \<exists>f :: 'r flesh. and_then (session_recv on_error on_timer fails time_max) (fold_result (session_event (main_app matches keys depth rt))
      (map (\<lambda>(now, m, t). ReadDone now (Some (m, t))) reqs)) = Inr f \<and> reads f = 1 \<and> queued f = [])"
proof -
  obtain rt where rt: "main_routes moves keys methods = Inr rt"
      "\<forall>m k. route rt m k = (if m = Verb_get then main_map k else None)"
    using main_routes_eq [OF assms(1,2)] by blast
  have p: "\<exists>req. provide matches keys depth rt m t =
      Inr (if m = Verb_get \<and> (t = ''/'' \<or> t = ''/animals/cat'') then [greeting] else [], req)" for m t
    by (rule main_provide [OF assms(1,3,4) rt(2)])
  then have some: "\<exists>x. provide matches keys depth rt m t = Inr x" for m t by blast
  obtain f :: "'r flesh" where f: "session_recv on_error on_timer fails time_max = Inr f" "reads f = 1" "queued f = []" "sock_open f" "queued f = []"
    by (simp add: session_recv_def ctx_call_def recv_def doRead_def Flesh_new_def)
  show ?thesis using rt(1) p f main_session_reads [OF some f(2-4)] by (intro exI [of _ rt]) simp
qed

definition sorted_keys :: "string resources \<Rightarrow> string list" where
  "sorted_keys m = sorted_list_of_set (dom m)"

definition main_matches :: "string \<Rightarrow> string \<Rightarrow> bool" where
  "main_matches k t \<longleftrightarrow> (if k = ''^/animals[/]??$'' then t = ''/animals'' \<or> t = ''/animals/'' else k = ''^'' @ t @ ''$'')"

theorem main_serves_witness:
  "\<exists>rt. main_routes True sorted_keys (\<lambda>_. [Verb_get]) = Inr rt \<and>
    (\<forall>m t. \<exists>req. provide main_matches sorted_keys 1 rt m t =
      Inr (if m = Verb_get \<and> (t = ''/'' \<or> t = ''/animals/cat'') then [greeting] else [], req)) \<and>
    (\<forall>reqs. \<exists>f :: string flesh. and_then (session_recv True False False 0)
      (fold_result (session_event (main_app main_matches sorted_keys 1 rt))
      (map (\<lambda>(now, m, t). ReadDone now (Some (m, t))) reqs)) = Inr f \<and> reads f = 1 \<and> queued f = [])"
proof (rule main_serves)
  have "k = x # xs @ [y] \<longleftrightarrow> butlast (tl k) = xs" if "k = x # k' @ [y]" for k k' xs :: string and x y using that by auto
  then show "main_regex main_matches" by (auto simp: main_regex_def main_matches_def)
qed (simp_all add: lists_keys_def sorted_keys_def)

end
