(* ===== verification/Two_Ends.thy ===== *)
theory Two_Ends
  imports Framed_Connection
begin

text \<open>
  Two connections joined by a socket: one sends messages with \<open>ProtobufCodec::send\<close>, the other
  has \<open>ProtobufCodec::onMessage\<close> as its message callback.  The socket is a reliable stream: what
  has been written at one end arrives at the other, in pieces of any size, at any time.
\<close>

section \<open>The receiving end, with the stream arriving over time\<close>

context frame_codec
begin

text \<open>
  Of the messages \<open>ms\<close>, whose frames are the whole stream, the first \<open>j\<close> have been taken, and
  \<open>part\<close> of the next; \<open>n\<close> bytes in all.
\<close>

definition taken_so_far :: "'m list \<Rightarrow> nat \<Rightarrow> nat \<Rightarrow> byte list \<Rightarrow> tcp_connection \<Rightarrow> bool" where
  "taken_so_far ms n j part c \<longleftrightarrow> j \<le> length ms \<and> n = length (concat (map (\<lambda>m. frame (body m)) (take j ms))) + length part \<and>
     (if part = [] then awaiting_header c
      else j < length ms \<and> receiving part (body (ms ! j)) c \<and> (\<exists>rest. rest \<noteq> [] \<and> part @ rest = frame (body (ms ! j))))"

lemma taken_so_far_more: "taken_so_far ms n j part c \<Longrightarrow> taken_so_far (ms @ ms') n j part c"
  by (auto simp: taken_so_far_def nth_append)

text \<open>A read of some of the bytes that are there is a read from the whole stream.\<close>

lemma receive_prefix:
  assumes "receive k (min n (length xs)) (cw, xs @ ys) = Inr (cw', zs)"
  shows "\<exists>l\<le>length xs. receive k n (cw, xs) = Inr (cw', drop l xs) \<and> zs = drop l (xs @ ys)"
proof (cases "reading (fst cw)")
  case None
  then show ?thesis using assms by (intro exI [of _ 0]) (auto simp: receive_def)
next
  case (Some r)
  define a where "a = min n (want r - got r)"
  have i: "min (min n (length xs)) (want r - got r) = min a (length xs)" unfolding a_def by arith
  have t: "take (min a (length xs)) xs = take a xs" "drop a xs = drop (min a (length xs)) xs"
    by (cases "a \<le> length xs"; simp)+
  show ?thesis using assms Some
    by (intro exI [of _ "min a (length xs)"]) (auto simp: receive_def Let_def and_then_eq_Inr i t a_def [symmetric])
qed

text \<open>One read, of at least one byte that is there, for a user that makes no calls.\<close>

lemma receive_some:
  assumes st: "taken_so_far ms t j part c" and m: "\<forall>m\<in>set ms. valid m"
    and user: "\<And>m w. user m ([], w) = Inr ([], add m w)" and k: "messageCallback k = Some (callback user)"
    and xs: "xs @ ys = drop t (concat (map (\<lambda>m. frame (body m)) ms))" and n: "0 < n" "xs \<noteq> []"
  shows "\<exists>c' j' part' l. receive k n ((c, fold add (take j ms) w), xs) = Inr ((c', fold add (take j' ms) w), drop l xs) \<and>
    0 < l \<and> l \<le> length xs \<and> taken_so_far ms (t + l) j' part' c' \<and> same_but_input c c'"
proof -
  let ?frames = "\<lambda>ms. concat (map (\<lambda>m. frame (body m)) ms)" and ?w = "fold add (take j ms) w"
  have t: "t = length (?frames (take j ms)) + length part" and j: "j \<le> length ms" using st by (auto simp: taken_so_far_def)
  have split: "?frames ms = ?frames (take j ms) @ ?frames (drop j ms)"
    by (metis append_take_drop_id concat_append map_append)
  have "j \<noteq> length ms"
  proof
    assume "j = length ms"
    then have "part = []" using st by (auto simp: taken_so_far_def split: if_splits)
    then show False using xs n(2) t \<open>j = length ms\<close> by simp
  qed
  then have jl: "j < length ms" using j by simp
  let ?m = "ms ! j" and ?later = "?frames (drop (Suc j) ms)"
  have later: "?frames (drop j ms) = frame (body ?m) @ ?later" using jl by (simp add: Cons_nth_drop_Suc [symmetric])
  obtain rest where rest: "part @ rest = frame (body ?m)" "rest \<noteq> []" "receiving part (body ?m) c"
    using st jl by (cases "part = []") (auto simp: taken_so_far_def frame_def be_bytes32_def)
  have stream: "xs @ ys = rest @ ?later" using xs t split later rest(1) by (metis append.assoc append_eq_conv_conj length_append)
  have del: "deliver_message user ?m (c, ?w) = Inr (c, add ?m ?w)" by (simp add: deliver_message_def user)
  have "0 < min n (length xs)" "valid ?m" using n m jl by simp_all
  then obtain c' bs rest' where step: "receive k (min n (length xs)) ((c, ?w), rest @ ?later) =
      Inr ((c', if rest' = [] then add ?m ?w else ?w), rest' @ ?later)" "rest = bs @ rest'" "bs \<noteq> []"
      "if rest' = [] then same_but_input c c' \<and> awaiting_header c'
       else same_but_input c c' \<and> receiving (part @ bs) (body ?m) c'"
    using receive_step [OF rest(3,1,2) _ _ k del, of "min n (length xs)" ?later] by blast
  obtain l where l: "l \<le> length xs" "receive k n ((c, ?w), xs) = Inr ((c', if rest' = [] then add ?m ?w else ?w), drop l xs)"
      "rest' @ ?later = drop l (xs @ ys)"
    using receive_prefix [of k n xs "(c, ?w)" ys] step(1) stream by auto
  have "length (rest' @ ?later) = length (bs @ rest' @ ?later) - l"
    using l(3) stream step(2) by (metis append.assoc length_drop)
  moreover have "l \<le> length (bs @ rest' @ ?later)" using l(1) stream step(2) by (metis append.assoc le_add1 le_trans length_append)
  ultimately have lb: "l = length bs" by simp
  show ?thesis
  proof (cases "rest' = []")
    case True
    have "take (Suc j) ms = take j ms @ [?m]" using jl by (rule take_Suc_conv_app_nth)
    moreover have "length part + length bs = length (frame (body ?m))"
      using rest(1) step(2) True by (metis append_Nil2 length_append)
    ultimately have "taken_so_far ms (t + l) (Suc j) [] c' \<and> fold add (take (Suc j) ms) w = add ?m ?w"
      using step(4) True jl lb t by (simp add: taken_so_far_def)
    then show ?thesis using l(1,2) lb step(3,4) True by (intro exI [of _ c'] exI [of _ "Suc j"] exI [of _ "[]"] exI [of _ l]) simp
  next
    case False
    have "taken_so_far ms (t + l) j (part @ bs) c'"
      using step(2,3,4) False jl lb t rest(1) by (auto simp: taken_so_far_def)
    then show ?thesis using l(1,2) lb step(3,4) False
      by (intro exI [of _ c'] exI [of _ j] exI [of _ "part @ bs"] exI [of _ l]) simp
  qed
qed

end

section \<open>Two ends\<close>

text \<open>
  \<open>sent_msgs\<close> are the messages given to \<open>send\<close> while the sender was connected, \<open>taken\<close> the number of
  bytes of its wire the receiver has read.
\<close>

record ('m, 'w) ends =
  sender :: tcp_connection
  sent_msgs :: "'m list"
  taken :: nat
  receiver :: "tcp_connection \<times> 'w"

text \<open>\<open>ProtobufCodec::send\<close> on the connection, in its loop.\<close>

definition codec_send :: "('d, 'm) protobuf \<Rightarrow> 'm \<Rightarrow> tcp_connection \<Rightarrow> tcp_connection result" where
  "codec_send pb m = Protobuf_send pb (\<lambda>buff conn. and_then (send_buffer (loopTid conn) buff conn) (\<lambda>(_, conn). Inr conn)) m"

definition no_callbacks :: "unit callbacks" where
  "no_callbacks = \<lparr>connectionCallback = None, messageCallback = None, closeCallback = None\<rparr>"

definition opened :: "nat \<Rightarrow> tcp_connection result" where
  "opened tid = and_then (TcpConnection_new tid (sound_socket 0)) (\<lambda>c.
     and_then (conn_event no_callbacks Established (c, ())) (\<lambda>(c, _). Inr c))"

definition joined :: "nat \<Rightarrow> nat \<Rightarrow> 'w \<Rightarrow> ('m, 'w) ends result" where
  "joined tid tid' w = and_then (opened tid) (\<lambda>s. and_then (opened tid') (\<lambda>r.
     Inr \<lparr>sender = s, sent_msgs = [], taken = 0, receiver = (r, w)\<rparr>))"

datatype 'm ends_event = SendMessage 'm | SenderWrote nat | SenderWriteFails nat nat | SenderShutsDown | Transfer nat

definition in_flight :: "('m, 'w) ends \<Rightarrow> byte list" where
  "in_flight E = drop (taken E) (wire (sender E))"

definition ends_event :: "('d, 'm) protobuf \<Rightarrow> 'w callbacks \<Rightarrow> 'm ends_event \<Rightarrow> ('m, 'w) ends \<Rightarrow> ('m, 'w) ends result" where
  "ends_event pb k ev E = (case ev of
     SendMessage m \<Rightarrow> and_then (codec_send pb m (sender E)) (\<lambda>c.
       Inr (E\<lparr>sender := c, sent_msgs := (if connected (sender E) then sent_msgs E @ [m] else sent_msgs E)\<rparr>))
   | SenderWrote i \<Rightarrow> and_then (write_done i (sender E)) (\<lambda>c. Inr (E\<lparr>sender := c\<rparr>))
   | SenderWriteFails i n \<Rightarrow> and_then (write_fail i n (sender E)) (\<lambda>c. Inr (E\<lparr>sender := c\<rparr>))
   | SenderShutsDown \<Rightarrow> and_then (conn_shutdown (loopTid (sender E)) (sender E)) (\<lambda>c. Inr (E\<lparr>sender := c\<rparr>))
   | Transfer n \<Rightarrow> if n = 0 \<or> in_flight E = [] then Inr E
       else and_then (receive k n (receiver E, in_flight E)) (\<lambda>(cw, rest).
         Inr (E\<lparr>taken := length (wire (sender E)) - length rest, receiver := cw\<rparr>)))"

section \<open>The sending end\<close>

lemma send_frame_effect:
  assumes reg: "registered pb m" and r: "codec_send pb m c = Inr c'"
  shows "torn c' = torn c \<and> odd_sent c' = odd_sent c \<and> wire c' = wire c \<and> state c' = state c \<and>
    accepted_bytes c' = accepted_bytes c @ (if connected c then protobuf_frame pb m else []) \<and> (wire_ok c \<longrightarrow> wire_ok c')"
proof -
  let ?s = "protobuf_frame pb m"
  obtain b where b: "buf_ok b" "content b = ?s"
      "\<And>conn_send conn. Protobuf_send pb conn_send m conn = (conn_send b conn :: tcp_connection result)"
    using send_frame [OF reg] by blast
  obtain b' where r': "send_buffer (loopTid c) b c = Inr (b', c')"
    using r by (auto simp: codec_send_def b(3) and_then_eq_Inr)
  show ?thesis
  proof (cases "connected c")
    case False
    then show ?thesis using r' by (simp add: send_buffer_def)
  next
    case True
    have "retrieveAllAsString b = Inr (?s, retrieveAll b)"
      using b(1,2) length_content [OF b(1)] by (simp add: retrieveAllAsString_def retrieveAsString_def peek_bytes_ok retrieve_all_ok)
    then have send: "sendInThisThread (loopTid c) (piece_of_string ?s) c = Inr c'"
      using r' True by (simp add: send_buffer_def and_then_eq_Inr)
    have len: "0 < length ?s" "length ?s < 2 ^ 31" using reg
      by (simp_all add: protobuf_frame_def registered_def Protobuf_kMaxMessageLen_def)
    then have n: "size_of_int (sint (piece_length (piece_of_string ?s))) = length ?s"
      by (simp add: piece_of_string_def sint_int32_of_nat size_of_int_nonneg)
    show ?thesis using send len n sendInThisThread_wire [OF _ send] True
      by (auto simp: sendInThisThread_def conn_assertInLoopThread_def Let_def and_then_eq_Inr conn_write_def connected_def
        piece_of_string_def split: if_splits)
  qed
qed

lemma write_done_effect:
  assumes "write_done i c = Inr c'"
  shows "(torn c \<longrightarrow> torn c') \<and> odd_sent c' = odd_sent c \<and> accepted_bytes c' = accepted_bytes c \<and> (\<exists>bs. wire c' = wire c @ bs)"
  using assms by (auto simp: write_done_def Let_def and_then_eq_Inr shutdownInThisThread_def conn_assertInLoopThread_def
      conn_write_def split: if_splits)

lemma conn_shutdown_effect:
  assumes "conn_shutdown tid c = Inr c'"
  shows "torn c' = torn c \<and> odd_sent c' = odd_sent c \<and> accepted_bytes c' = accepted_bytes c \<and> wire c' = wire c"
  using assms by (auto simp: conn_shutdown_def Let_def and_then_eq_Inr shutdownInThisThread_def conn_assertInLoopThread_def
      conn_post_def setState_def split: if_splits)

section \<open>Both ends\<close>

abbreviation taken_pb :: "('d, 'm) protobuf \<Rightarrow> 'm list \<Rightarrow> nat \<Rightarrow> nat \<Rightarrow> byte list \<Rightarrow> tcp_connection \<Rightarrow> bool" where
  "taken_pb pb \<equiv> frame_codec.taken_so_far (protobuf_body pb)"

abbreviation stream_of :: "('d, 'm) protobuf \<Rightarrow> 'm list \<Rightarrow> byte list" where
  "stream_of pb ms \<equiv> concat (map (protobuf_frame pb) ms)"

text \<open>
  Unless a write was torn, the bytes accepted are the frames of the messages, and the receiver has
  taken some of the messages and a part of the next.
\<close>

definition ends_ok :: "('d, 'm) protobuf \<Rightarrow> ('m \<Rightarrow> 'w \<Rightarrow> 'w) \<Rightarrow> 'w \<Rightarrow> ('m, 'w) ends \<Rightarrow> bool" where
  "ends_ok pb add w E \<longleftrightarrow> wire_ok (sender E) \<and> \<not> odd_sent (sender E) \<and> (\<forall>m\<in>set (sent_msgs E). registered pb m) \<and>
     (torn (sender E) \<or> accepted_bytes (sender E) = stream_of pb (sent_msgs E) \<and> taken E \<le> length (wire (sender E)) \<and>
       (\<exists>j part. taken_pb pb (sent_msgs E) (taken E) j part (fst (receiver E)) \<and>
          snd (receiver E) = fold add (take j (sent_msgs E)) w))"

lemma taken_pb_more:
  assumes "taken_pb pb ms n j part c" and "w = fold add (take j ms) v"
  shows "taken_pb pb (ms @ [m]) n j part c \<and> w = fold add (take j (ms @ [m])) v"
  using pbc.taken_so_far_more [OF assms(1), of "[m]"] assms by (simp add: pbc.taken_so_far_def)

lemma ends_ok_sender:
  assumes ok: "ends_ok pb add w E" and same: "torn (sender E) \<longrightarrow> torn c" "odd_sent c = odd_sent (sender E)"
      "accepted_bytes c = accepted_bytes (sender E)" "wire c = wire (sender E) @ bs" and "wire_ok c"
  shows "ends_ok pb add w (E\<lparr>sender := c\<rparr>)"
  using assms by (auto simp: ends_ok_def)

lemma transfer_ok:
  assumes ok: "ends_ok pb add w E" and nt: "\<not> torn (sender E)" and k: "messageCallback k = Some (protobuf_callback pb user)"
    and user: "\<And>m w. user m ([], w) = Inr ([], add m w)"
  shows "\<exists>E'. ends_event pb k (Transfer n) E = Inr E' \<and> ends_ok pb add w E' \<and> sender E' = sender E \<and>
    sent_msgs E' = sent_msgs E \<and> (0 < n \<longrightarrow> length (in_flight E') \<le> length (in_flight E) - 1) \<and>
    same_but_input (fst (receiver E)) (fst (receiver E'))"
proof (cases "n = 0 \<or> in_flight E = []")
  case True
  then show ?thesis using ok by (intro exI [of _ E]) (auto simp: ends_event_def)
next
  case False
  let ?xs = "in_flight E" and ?c = "sender E"
  obtain j part where st: "taken_pb pb (sent_msgs E) (taken E) j part (fst (receiver E))"
      "snd (receiver E) = fold add (take j (sent_msgs E)) w" and
      t: "taken E \<le> length (wire ?c)" "accepted_bytes ?c = stream_of pb (sent_msgs E)"
    using ok nt by (auto simp: ends_ok_def)
  let ?rest = "drop (half_written ?c) (content (outputBuffer ?c))"
  have "accepted_bytes ?c = wire ?c @ ?rest" using ok nt by (auto simp: ends_ok_def wire_ok_def)
  then have xs: "?xs @ ?rest = drop (taken E) (concat (map (\<lambda>m. frame (protobuf_body pb m)) (sent_msgs E)))"
    using t(1) by (simp add: in_flight_def frame_protobuf_body t(2) [symmetric])
  have "\<forall>m\<in>set (sent_msgs E). registered pb m" using ok by (simp add: ends_ok_def)
  then obtain c' j' part' l where step: "receive k n ((fst (receiver E), fold add (take j (sent_msgs E)) w), ?xs) =
      Inr ((c', fold add (take j' (sent_msgs E)) w), drop l ?xs)" "0 < l" "l \<le> length ?xs"
      "taken_pb pb (sent_msgs E) (taken E + l) j' part' c'" "same_but_input (fst (receiver E)) c'"
    using pbc.receive_some [OF st(1) _ user k xs, of n w] False by auto
  let ?E = "E\<lparr>taken := taken E + l, receiver := (c', fold add (take j' (sent_msgs E)) w)\<rparr>"
  have l: "length (wire ?c) - length (drop l ?xs) = taken E + l" "taken E + l \<le> length (wire ?c)"
    using step(3) t(1) by (simp_all add: in_flight_def)
  have "receiver E = (fst (receiver E), fold add (take j (sent_msgs E)) w)" by (metis prod.collapse st(2))
  then have "ends_event pb k (Transfer n) E = Inr ?E" using step(1) False l(1) by (simp add: ends_event_def)
  moreover have "ends_ok pb add w ?E" using ok step(4) l(2) t(2) by (auto simp: ends_ok_def)
  moreover have "in_flight ?E = drop l ?xs" by (simp add: in_flight_def add.commute)
  ultimately show ?thesis using step(2,5) by (intro exI [of _ ?E]) (simp add: Suc_le_eq diff_le_mono2)
qed

lemma ends_event_ok:
  assumes ok: "ends_ok pb add w E" and r: "ends_event pb k ev E = Inr E'"
    and k: "messageCallback k = Some (protobuf_callback pb user)" and user: "\<And>m w. user m ([], w) = Inr ([], add m w)"
    and reg: "\<forall>m. ev = SendMessage m \<longrightarrow> registered pb m"
  shows "ends_ok pb add w E'"
proof (cases ev)
  case (SendMessage m)
  then obtain c where c: "codec_send pb m (sender E) = Inr c"
      "E' = E\<lparr>sender := c, sent_msgs := (if connected (sender E) then sent_msgs E @ [m] else sent_msgs E)\<rparr>"
    using r by (auto simp: ends_event_def and_then_eq_Inr)
  have m: "registered pb m" using reg SendMessage by blast
  note eff = send_frame_effect [OF m c(1)]
  show ?thesis
  proof (cases "connected (sender E)")
    case False
    then show ?thesis using eff ends_ok_sender [OF ok, of c "[]"] ok c(2) by (simp add: ends_ok_def)
  next
    case True
    have E': "sender E' = c" "sent_msgs E' = sent_msgs E @ [m]" "taken E' = taken E" "receiver E' = receiver E"
      using c(2) True by simp_all
    show ?thesis
    proof (cases "torn (sender E)")
      case True
      then show ?thesis using eff ok m by (simp add: ends_ok_def E')
    next
      case False
      then obtain j part where j: "taken_pb pb (sent_msgs E) (taken E) j part (fst (receiver E))"
          "snd (receiver E) = fold add (take j (sent_msgs E)) w"
        using ok by (auto simp: ends_ok_def)
      have "\<exists>j part. taken_pb pb (sent_msgs E') (taken E') j part (fst (receiver E')) \<and>
          snd (receiver E') = fold add (take j (sent_msgs E')) w"
        unfolding E' using taken_pb_more [OF j] by blast
      moreover have "accepted_bytes c = stream_of pb (sent_msgs E')" "taken E' \<le> length (wire c)"
        using eff ok False True \<open>connected (sender E)\<close> by (simp_all add: ends_ok_def E')
      ultimately show ?thesis using eff ok m unfolding ends_ok_def E' by simp
    qed
  qed
next
  case (SenderWrote i)
  then obtain c where c: "write_done i (sender E) = Inr c" "E' = E\<lparr>sender := c\<rparr>"
    using r by (auto simp: ends_event_def and_then_eq_Inr)
  obtain bs where "wire c = wire (sender E) @ bs" using write_done_effect [OF c(1)] by blast
  then show ?thesis using write_done_effect [OF c(1)] write_done_wire [of "sender E" i c] ends_ok_sender [OF ok, of c bs] ok c
    by (simp add: ends_ok_def)
next
  case (SenderWriteFails i n)
  then obtain c where c: "write_fail i n (sender E) = Inr c" "E' = E\<lparr>sender := c\<rparr>"
    using r by (auto simp: ends_event_def and_then_eq_Inr)
  obtain bs where "wire c = wire (sender E) @ bs" using write_fail_keeps [OF c(1)] by blast
  then show ?thesis using write_fail_keeps [OF c(1)] write_fail_wire [of "sender E" i n c] ends_ok_sender [OF ok, of c bs] ok c
    by (simp add: ends_ok_def)
next
  case SenderShutsDown
  then obtain c where c: "conn_shutdown (loopTid (sender E)) (sender E) = Inr c" "E' = E\<lparr>sender := c\<rparr>"
    using r by (auto simp: ends_event_def and_then_eq_Inr)
  then show ?thesis using conn_shutdown_effect [OF c(1)] conn_shutdown_wire [of "sender E" _ c] ends_ok_sender [OF ok, of c "[]"] ok
    by (auto simp: ends_ok_def)
next
  case (Transfer n)
  show ?thesis
  proof (cases "torn (sender E)")
    case True
    then show ?thesis using r Transfer ok by (auto simp: ends_event_def ends_ok_def and_then_eq_Inr split: if_splits)
  next
    case False
    then show ?thesis using transfer_ok [OF ok False k user, of n] r Transfer by auto
  qed
qed

lemma opened_ok:
  assumes "opened tid = Inr c"
  shows "wire_ok c \<and> \<not> odd_sent c \<and> \<not> torn c \<and> accepted_bytes c = [] \<and> wire c = [] \<and> awaiting_header c"
proof -
  obtain c0 where c0: "TcpConnection_new tid (sound_socket 0) = Inr c0" "conn_event no_callbacks Established (c0, ()) = Inr (c, ())"
    using assms by (auto simp: opened_def and_then_eq_Inr)
  then have "c = readHeader (setState kConnected c0)"
    by (auto simp: conn_event_def connectEstablished_def conn_assertInLoopThread_def call_connection_if_set_def
      no_callbacks_def split: if_splits)
  then show ?thesis using TcpConnection_new_ok [OF c0(1)] established_receiving [OF c0(1)]
    by (simp add: setState_def readHeader_def receiving_def Let_def)
qed

lemma joined_ok:
  assumes "joined tid tid' w = Inr E"
  shows "ends_ok pb add w E"
proof -
  obtain s r where s: "opened tid = Inr s" and r: "opened tid' = Inr r" and
      E: "E = \<lparr>sender = s, sent_msgs = [], taken = 0, receiver = (r, w)\<rparr>"
    using assms by (auto simp: joined_def and_then_eq_Inr)
  have "taken_pb pb [] 0 0 [] r" using opened_ok [OF r] by (simp add: pbc.taken_so_far_def)
  then show ?thesis using opened_ok [OF s] E by (auto simp: ends_ok_def)
qed

lemma ends_events_ok:
  assumes "ends_ok pb add w E" and "fold_result (ends_event pb k) evs E = Inr E'"
    and "messageCallback k = Some (protobuf_callback pb user)" and "\<And>m w. user m ([], w) = Inr ([], add m w)"
    and "\<forall>m. SendMessage m \<in> set evs \<longrightarrow> registered pb m"
  shows "ends_ok pb add w E'"
  using assms
proof (induction evs arbitrary: E)
  case (Cons ev evs)
  then obtain E1 where E1: "ends_event pb k ev E = Inr E1" "fold_result (ends_event pb k) evs E1 = Inr E'"
    by (auto simp: and_then_eq_Inr)
  have "ends_ok pb add w E1" by (rule ends_event_ok [OF Cons.prems(1) E1(1) Cons.prems(3,4)]) (use Cons.prems(5) in auto)
  then show ?case using Cons.IH E1(2) Cons.prems(3-5) by simp
qed simp

lemma transfers_ok:
  assumes "ends_ok pb add w E" and "\<not> torn (sender E)" and "messageCallback k = Some (protobuf_callback pb user)"
    and "\<And>m w. user m ([], w) = Inr ([], add m w)" and "\<forall>n\<in>set ns. 0 < n" and "length (in_flight E) \<le> length ns"
  shows "\<exists>E'. fold_result (ends_event pb k) (map Transfer ns) E = Inr E' \<and> ends_ok pb add w E' \<and> sender E' = sender E \<and>
    sent_msgs E' = sent_msgs E \<and> in_flight E' = []"
  using assms
proof (induction ns arbitrary: E)
  case (Cons n ns)
  obtain E1 where E1: "ends_event pb k (Transfer n) E = Inr E1" "ends_ok pb add w E1" "sender E1 = sender E"
      "sent_msgs E1 = sent_msgs E" "length (in_flight E1) \<le> length (in_flight E) - 1"
    using transfer_ok [OF Cons.prems(1-4), of n] Cons.prems(5) by auto
  then show ?case using Cons.IH [OF E1(2)] Cons.prems by auto
qed auto

text \<open>All bytes taken, all messages taken.\<close>

lemma all_taken:
  assumes "taken_pb pb ms (length (stream_of pb ms)) j part c"
  shows "j = length ms"
proof (rule ccontr)
  assume "j \<noteq> length ms"
  then have j: "j < length ms" using assms by (simp add: pbc.taken_so_far_def)
  let ?fs = "\<lambda>ms. concat (map (\<lambda>m. frame (protobuf_body pb m)) ms)"
  have n: "length (?fs ms) = length (?fs (take j ms)) + length part"
    using assms by (simp add: pbc.taken_so_far_def frame_protobuf_body)
  have "?fs ms = ?fs (take j ms) @ frame (protobuf_body pb (ms ! j)) @ ?fs (drop (Suc j) ms)"
    using j by (subst id_take_nth_drop [OF j]) simp
  then have "length (frame (protobuf_body pb (ms ! j))) \<le> length part" using n by simp
  moreover have "length part < length (frame (protobuf_body pb (ms ! j)))"
  proof (cases "part = []")
    case True
    then show ?thesis by (simp add: length_lh_frame)
  next
    case False
    then obtain rest where "rest \<noteq> []" "part @ rest = frame (protobuf_body pb (ms ! j))"
      using assms by (auto simp: pbc.taken_so_far_def)
    then show ?thesis by (metis length_append length_greater_0_conv less_add_same_cancel1)
  qed
  ultimately show False by simp
qed

section \<open>Properties\<close>

text \<open>
  C5: what is received is what was sent, so far.  Two open connections are joined; messages are sent
  with the protobuf codec, writes complete or fail, the sender shuts down, and the stream arrives in
  pieces of any size, in any order of these.  Unless a write was torn by a later send, the user at
  the receiving end has been given a prefix of the messages sent, in their order, none
  twice; and the receiver can always take more without fault.
\<close>

theorem received_is_prefix:
  assumes "joined tid tid' w = Inr E0" and "\<forall>m. SendMessage m \<in> set evs \<longrightarrow> registered pb m"
    and "messageCallback k = Some (protobuf_callback pb user)" and "\<forall>m w. user m ([], w) = Inr ([], add m w)"
    and "fold_result (ends_event pb k) evs E0 = Inr E" and "\<not> torn (sender E)"
  shows "(\<exists>j. snd (receiver E) = fold add (take j (sent_msgs E)) w) \<and>
    (\<exists>E'. ends_event pb k (Transfer n) E = Inr E' \<and> sender E' = sender E)"
proof -
  have user: "user m ([], w) = Inr ([], add m w)" for m w using assms(4) by simp
  have ok: "ends_ok pb add w E" by (rule ends_events_ok [OF joined_ok [OF assms(1)] assms(5,3) user assms(2)])
  then show ?thesis using transfer_ok [OF ok assms(6,3) user, of n] assms(6) by (auto simp: ends_ok_def)
qed

text \<open>
  C4: everything sent is delivered.  From any such state in which the output buffer has been
  written out, as many reads of at least one byte as there are bytes in flight succeed, and
  the user at the receiving end has then been given exactly the messages sent, once each, in order.
\<close>

theorem sent_is_delivered:
  assumes "joined tid tid' w = Inr E0" and "\<forall>m. SendMessage m \<in> set evs \<longrightarrow> registered pb m"
    and "messageCallback k = Some (protobuf_callback pb user)" and "\<forall>m w. user m ([], w) = Inr ([], add m w)"
    and "fold_result (ends_event pb k) evs E0 = Inr E" and "\<not> torn (sender E)"
    and "content (outputBuffer (sender E)) = []" and "\<forall>n\<in>set ns. 0 < n" and "length (in_flight E) \<le> length ns"
  shows "\<exists>E'. fold_result (ends_event pb k) (map Transfer ns) E = Inr E' \<and> snd (receiver E') = fold add (sent_msgs E) w"
proof -
  have user: "user m ([], w) = Inr ([], add m w)" for m w using assms(4) by simp
  have ok: "ends_ok pb add w E" by (rule ends_events_ok [OF joined_ok [OF assms(1)] assms(5,3) user assms(2)])
  obtain E' where E': "fold_result (ends_event pb k) (map Transfer ns) E = Inr E'" "ends_ok pb add w E'"
      "sender E' = sender E" "sent_msgs E' = sent_msgs E" "in_flight E' = []"
    using transfers_ok [OF ok assms(6,3) user assms(8,9)] by blast
  have nt: "\<not> torn (sender E')" using assms(6) E'(3) by simp
  then obtain j part where j: "taken_pb pb (sent_msgs E') (taken E') j part (fst (receiver E'))"
      "snd (receiver E') = fold add (take j (sent_msgs E')) w" and
      t: "taken E' \<le> length (wire (sender E'))" "accepted_bytes (sender E') = stream_of pb (sent_msgs E')"
    using E'(2) by (auto simp: ends_ok_def)
  have "accepted_bytes (sender E') = wire (sender E')"
    using E'(2,3) nt assms(7) by (auto simp: ends_ok_def wire_ok_def)
  moreover have "taken E' = length (wire (sender E'))" using E'(5) t(1) by (simp add: in_flight_def)
  ultimately have "taken E' = length (stream_of pb (sent_msgs E'))" using t(2) by simp
  then have "j = length (sent_msgs E')" using all_taken j(1) by metis
  then show ?thesis using j(2) E'(1,4) by simp
qed

text \<open>Two fresh ends, and one message sent and written.\<close>

definition fresh_ends :: "(byte list, byte list list) ends" where
  "fresh_ends = (let c = readHeader (fresh_connection\<lparr>state := kConnected\<rparr>) in
     \<lparr>sender = c, sent_msgs = [], taken = 0, receiver = (c, [])\<rparr>)"

lemma fresh_ends_joined: "joined 0 0 [] = Inr fresh_ends"
  using fresh_connection_new
  by (simp add: joined_def opened_def conn_event_def connectEstablished_def conn_assertInLoopThread_def
    call_connection_if_set_def no_callbacks_def setState_def fresh_ends_def Let_def) (simp add: fresh_connection_def)

abbreviation sample_frame :: "byte list" where
  "sample_frame \<equiv> [0, 0, 0, 11, 0, 0, 0, 2, 77, 0, 5, 0, 0, 0, 7]"

definition one_sent :: "(byte list, byte list list) ends" where
  "one_sent = fresh_ends\<lparr>sender := (sender fresh_ends)\<lparr>outputBuffer := \<lparr>vec = overwrite 8 sample_frame (replicate 1032 0),
     readerIndex = 8, writerIndex = 8\<rparr>, accepted_bytes := sample_frame, wire := sample_frame\<rparr>, sent_msgs := [[5]]\<rparr>"

definition log_callbacks :: "byte list list callbacks" where
  "log_callbacks = \<lparr>connectionCallback = None, messageCallback = Some (protobuf_callback sample_protobuf
     (\<lambda>m (calls, w). Inr (calls, w @ [m]))), closeCallback = None\<rparr>"

lemma send_sample:
  assumes "connected c" and "outputBuffer c = outputBuffer fresh_connection" "accepted_bytes c = []" "writes c = []" "\<not> odd_sent c"
  shows "codec_send sample_protobuf [5] c =
    Inr (c\<lparr>outputBuffer := \<lparr>vec = overwrite 8 sample_frame (replicate 1032 0), readerIndex = 8, writerIndex = 23\<rparr>,
      accepted_bytes := sample_frame, writes := [\<lparr>source = 8, count_bytes = 15, storage = 1032\<rparr>]\<rparr>)" (is "_ = Inr ?c1")
proof -
  have reg: "registered sample_protobuf [5]" by (rule registered_sample) simp
  obtain b where b: "buf_ok b" "content b = protobuf_frame sample_protobuf [5]"
      "\<And>conn_send conn. Protobuf_send sample_protobuf conn_send [5] conn = (conn_send b conn :: tcp_connection result)"
    using send_frame [OF reg] by blast
  have f: "protobuf_frame sample_protobuf [5] = sample_frame"
    by (simp add: protobuf_frame_def protobuf_payload_def sample_protobuf_def be_bytes32_def)
  have "retrieveAllAsString b = Inr (sample_frame, retrieveAll b)"
    using b(1,2) length_content [OF b(1)] f by (simp add: retrieveAllAsString_def retrieveAsString_def peek_bytes_ok retrieve_all_ok)
  moreover have "state c = kConnected" using assms(1) by (simp add: connected_def)
  then have "sendInThisThread (loopTid c) (piece_of_string sample_frame) c = Inr ?c1"
    using assms(2-5)
    by (auto simp: sendInThisThread_def conn_assertInLoopThread_def piece_of_string_def fresh_connection_def
      append_data_def ensureWritableBytes_def writableBytes_def readableBytes_def size_simps store_bytes_def
      hasWritten_def conn_write_def Let_def intro!: tcp_connection.equality)
  ultimately show ?thesis using assms(1) by (simp add: codec_send_def b(3) send_buffer_def)
qed

lemma write_sample:
  assumes "outputBuffer c = \<lparr>vec = overwrite 8 sample_frame (replicate 1032 0), readerIndex = 8, writerIndex = 23\<rparr>"
    "wire c = []" "writes c = [\<lparr>source = 8, count_bytes = 15, storage = 1032\<rparr>]" "\<not> torn c" "state c = kConnected"
  shows "write_done 0 c = Inr (c\<lparr>outputBuffer := \<lparr>vec = overwrite 8 sample_frame (replicate 1032 0), readerIndex = 8, writerIndex = 8\<rparr>,
    wire := sample_frame, writes := []\<rparr>)"
  using assms by (auto simp: write_done_def retrieve_def retrieveAll_def readableBytes_def size_simps buffer_defs Let_def
      intro!: tcp_connection.equality)

lemma one_sent_run:
  "fold_result (ends_event sample_protobuf log_callbacks) [SendMessage [5], SenderWrote 0] fresh_ends = Inr one_sent"
proof -
  have "connected (sender fresh_ends)" by (simp add: fresh_ends_def fresh_connection_def readHeader_def connected_def Let_def)
  moreover have "outputBuffer (sender fresh_ends) = outputBuffer fresh_connection" "accepted_bytes (sender fresh_ends) = []"
      "writes (sender fresh_ends) = []" "\<not> odd_sent (sender fresh_ends)"
    by (simp_all add: fresh_ends_def fresh_connection_def readHeader_def Let_def)
  ultimately show ?thesis
    by (simp add: ends_event_def send_sample write_sample) (simp add: write_sample one_sent_def fresh_ends_def fresh_connection_def
      readHeader_def Let_def)
qed

lemma log_callbacks_user: "messageCallback log_callbacks = Some (protobuf_callback sample_protobuf (\<lambda>m (calls, w). Inr (calls, w @ [m])))"
  by (simp add: log_callbacks_def)

theorem received_is_prefix_witness:
  "(\<exists>j. snd (receiver one_sent) = fold (\<lambda>m w. w @ [m]) (take j (sent_msgs one_sent)) []) \<and>
    (\<exists>E'. ends_event sample_protobuf log_callbacks (Transfer 3) one_sent = Inr E' \<and> sender E' = sender one_sent)"
  by (rule received_is_prefix [OF fresh_ends_joined _ log_callbacks_user _ one_sent_run])
    (simp_all add: registered_sample, simp add: one_sent_def fresh_ends_def fresh_connection_def readHeader_def Let_def)

theorem sent_is_delivered_witness:
  "\<exists>E'. fold_result (ends_event sample_protobuf log_callbacks) (map Transfer (replicate 15 3)) one_sent = Inr E' \<and>
     snd (receiver E') = [[5]]"
proof -
  have "\<exists>E'. fold_result (ends_event sample_protobuf log_callbacks) (map Transfer (replicate 15 3)) one_sent = Inr E' \<and>
      snd (receiver E') = fold (\<lambda>m w. w @ [m]) (sent_msgs one_sent) []"
    by (rule sent_is_delivered [OF fresh_ends_joined _ log_callbacks_user _ one_sent_run])
      (simp_all add: registered_sample one_sent_def fresh_ends_def fresh_connection_def readHeader_def Let_def
        content_def segment_def in_flight_def)
  then show ?thesis by (simp add: one_sent_def)
qed

end
