(* ===== verification/Duplex.thy ===== *)
theory Duplex
  imports Two_Ends
begin

text \<open>
  Two users that both send and both receive, over two connections joined by a socket, until one
  shuts down: the two directions of \<open>Two_Ends\<close> at once, and the end of the stream, which the
  receiving connection takes as the failure of its read and closes on.
\<close>

section \<open>Model\<close>

text \<open>
  One side: \<open>said\<close> are the messages given to \<open>send\<close> while the connection was up, \<open>heard\<close> those its
  codec has delivered, \<open>told_down\<close> whether its connection callback was called on a closed connection;
  of its wire the other side has read \<open>peer_read\<close> bytes.
\<close>

record 'm peer =
  peer_conn :: tcp_connection
  said :: "'m list"
  peer_read :: nat
  heard :: "'m list"
  told_down :: bool

type_synonym 'm duplex = "bool \<Rightarrow> 'm peer"

text \<open>The callbacks of either user, on \<open>heard\<close> and \<open>told_down\<close>.\<close>

definition log_message :: "('m, 'm list \<times> bool) user" where
  "log_message m = (\<lambda>(calls, ms, down). Inr (calls, ms @ [m], down))"

definition peer_callbacks :: "('d, 'm) protobuf \<Rightarrow> ('m list \<times> bool) callbacks" where
  "peer_callbacks pb = \<lparr>connectionCallback = Some (\<lambda>st (ms, down). ([], ms, down \<or> st = kDisconnected)),
     messageCallback = Some (protobuf_callback pb log_message), closeCallback = None\<rparr>"

definition peer_open :: "('d, 'm) protobuf \<Rightarrow> nat \<Rightarrow> 'm peer result" where
  "peer_open pb tid = and_then (TcpConnection_new tid (sound_socket 0)) (\<lambda>c.
     and_then (conn_event (peer_callbacks pb) Established (c, ([], False))) (\<lambda>(c, ms, down).
     Inr \<lparr>peer_conn = c, said = [], peer_read = 0, heard = ms, told_down = down\<rparr>))"

definition duplex_open :: "('d, 'm) protobuf \<Rightarrow> nat \<Rightarrow> nat \<Rightarrow> 'm duplex result" where
  "duplex_open pb tid tid' = and_then (peer_open pb tid) (\<lambda>a. and_then (peer_open pb tid') (\<lambda>b.
     Inr (\<lambda>s. if s then a else b)))"

text \<open>One direction.\<close>

definition towards :: "'m peer \<Rightarrow> 'm peer \<Rightarrow> ('m, 'm list \<times> bool) ends" where
  "towards a b = \<lparr>sender = peer_conn a, sent_msgs = said a, taken = peer_read a, receiver = (peer_conn b, (heard b, told_down b))\<rparr>"

definition hears :: "tcp_connection \<times> 'm list \<times> bool \<Rightarrow> 'm peer \<Rightarrow> 'm peer" where
  "hears = (\<lambda>(c, ms, down) b. b\<lparr>peer_conn := c, heard := ms, told_down := down\<rparr>)"

definition direction_event ::
  "('d, 'm) protobuf \<Rightarrow> 'm ends_event \<Rightarrow> 'm peer \<Rightarrow> 'm peer \<Rightarrow> ('m peer \<times> 'm peer) result" where
  "direction_event pb ev a b = and_then (ends_event pb (peer_callbacks pb) ev (towards a b)) (\<lambda>E.
     Inr (a\<lparr>peer_conn := sender E, said := sent_msgs E, peer_read := taken E\<rparr>, hears (receiver E) b))"

text \<open>When the other side has shut down and all its bytes are read, the pending read fails.\<close>

definition end_of_stream :: "('d, 'm) protobuf \<Rightarrow> 'm peer \<Rightarrow> 'm peer \<Rightarrow> ('m peer \<times> 'm peer) result" where
  "end_of_stream pb a b =
     (if send_shut (peer_conn a) \<and> in_flight (towards a b) = [] then
        and_then (conn_event (peer_callbacks pb) ReadFail (peer_conn b, (heard b, told_down b))) (\<lambda>cw. Inr (a, hears cw b))
      else Inr (a, b))"

text \<open>An event belongs to the direction from the side it names to the other.\<close>

datatype 'm duplex_event = Does bool "'m ends_event" | EndOfStream bool

definition duplex_event :: "('d, 'm) protobuf \<Rightarrow> 'm duplex_event \<Rightarrow> 'm duplex \<Rightarrow> 'm duplex result" where
  "duplex_event pb ev P = (let put = \<lambda>s (a, b). Inr (P(s := a, \<not> s := b)) in case ev of
     Does s e \<Rightarrow> and_then (direction_event pb e (P s) (P (\<not> s))) (put s)
   | EndOfStream s \<Rightarrow> and_then (end_of_stream pb (P s) (P (\<not> s))) (put s))"

section \<open>One direction and the other\<close>

definition side_ok :: "'m peer \<Rightarrow> bool" where
  "side_ok a \<longleftrightarrow> state (peer_conn a) \<noteq> kConnecting \<and> (told_down a \<longleftrightarrow> state (peer_conn a) = kDisconnected)"

text \<open>What the connection that sends keeps.\<close>

definition sending_ok :: "('d, 'm) protobuf \<Rightarrow> 'm peer \<Rightarrow> bool" where
  "sending_ok pb a \<longleftrightarrow> wire_ok (peer_conn a) \<and> \<not> odd_sent (peer_conn a) \<and> \<not> torn (peer_conn a) \<and>
     (\<forall>m\<in>set (said a). registered pb m) \<and> accepted_bytes (peer_conn a) = stream_of pb (said a) \<and>
     peer_read a \<le> length (wire (peer_conn a)) \<and>
     (send_shut (peer_conn a) \<longrightarrow> state (peer_conn a) \<noteq> kConnected \<and> content (outputBuffer (peer_conn a)) = [])"

definition direction_ok :: "('d, 'm) protobuf \<Rightarrow> 'm peer \<Rightarrow> 'm peer \<Rightarrow> bool" where
  "direction_ok pb a b \<longleftrightarrow> sending_ok pb a \<and>
     (if told_down b then reading (peer_conn b) = None \<and> heard b = said a \<and> send_shut (peer_conn a)
      else \<exists>j part. taken_pb pb (said a) (peer_read a) j part (peer_conn b) \<and> heard b = take j (said a))"

definition duplex_ok :: "('d, 'm) protobuf \<Rightarrow> 'm duplex \<Rightarrow> bool" where
  "duplex_ok pb P \<longleftrightarrow> (\<forall>s. side_ok (P s) \<and> direction_ok pb (P s) (P (\<not> s)))"

text \<open>Receiving reads the input side only, sending the output side only.\<close>

lemma receiving_input:
  assumes "inputBuffer c' = inputBuffer c" and "reading c' = reading c"
  shows "receiving part m c' = receiving part m c"
  by (simp add: receiving_def assms)

lemma taken_input:
  assumes "inputBuffer c' = inputBuffer c" and "reading c' = reading c"
  shows "taken_pb pb ms n j part c' = taken_pb pb ms n j part c"
  by (simp add: pbc.taken_so_far_def receiving_input [OF assms])

lemma direction_ok_receiver:
  assumes "direction_ok pb a b" and "inputBuffer (peer_conn b') = inputBuffer (peer_conn b)"
    "reading (peer_conn b') = reading (peer_conn b)" "heard b' = heard b" "told_down b' = told_down b"
  shows "direction_ok pb a b'"
  using assms by (cases "told_down b") (simp_all add: direction_ok_def taken_input [OF assms(2,3)])

lemma same_but_input_sending:
  assumes "same_but_input (peer_conn a) (peer_conn a')" and "said a' = said a" "peer_read a' = peer_read a"
  shows "sending_ok pb a' = sending_ok pb a"
proof -
  have "peer_conn a' = (peer_conn a)\<lparr>inputBuffer := inputBuffer (peer_conn a'), reading := reading (peer_conn a')\<rparr>"
    using assms(1) by (simp add: same_but_input_def)
  then obtain i r where "peer_conn a' = (peer_conn a)\<lparr>inputBuffer := i, reading := r\<rparr>" by blast
  then show ?thesis using assms(2,3) by (simp add: sending_ok_def)
qed

lemma direction_ok_sender:
  assumes "direction_ok pb a b" and "sending_ok pb a'" and "said a' = said a" "peer_read a' = peer_read a"
    "send_shut (peer_conn a) \<longrightarrow> send_shut (peer_conn a')"
  shows "direction_ok pb a' b"
  using assms by (cases "told_down b") (simp_all add: direction_ok_def)

text \<open>The events that only the sending connection takes part in.\<close>

lemma codec_send_input:
  assumes "codec_send pb m c = Inr c'" and "registered pb m"
  shows "inputBuffer c' = inputBuffer c \<and> reading c' = reading c \<and> send_shut c' = send_shut c \<and> (\<not> connected c \<longrightarrow> c' = c)"
proof -
  obtain b where b: "\<And>conn_send conn. Protobuf_send pb conn_send m conn = (conn_send b conn :: tcp_connection result)"
    using send_frame [OF assms(2)] by blast
  obtain b' where r: "send_buffer (loopTid c) b c = Inr (b', c')"
    using assms(1) by (auto simp: codec_send_def b and_then_eq_Inr)
  show ?thesis
  proof (cases "connected c")
    case True
    then obtain str where "sendInThisThread (loopTid c) str c = Inr c'" using r by (auto simp: send_buffer_def and_then_eq_Inr)
    then show ?thesis using True
      by (auto simp: sendInThisThread_def conn_assertInLoopThread_def Let_def and_then_eq_Inr conn_write_def split: if_splits)
  qed (use r in \<open>simp add: send_buffer_def\<close>)
qed

lemma write_done_shut:
  assumes r: "write_done i c = Inr c'" and ok: "wire_ok c" "\<not> torn c" "\<not> odd_sent c"
    and shut: "send_shut c \<longrightarrow> state c \<noteq> kConnected \<and> content (outputBuffer c) = []" and ok': "wire_ok c'" "\<not> torn c'" "\<not> odd_sent c'"
  shows "inputBuffer c' = inputBuffer c \<and> reading c' = reading c \<and> state c' = state c \<and> (send_shut c \<longrightarrow> send_shut c') \<and>
    (send_shut c' \<longrightarrow> state c' \<noteq> kConnected \<and> content (outputBuffer c') = [])"
proof (cases "send_shut c \<or> length (writes c) \<le> i")
  case True
  then have "length (writes c) \<le> i" using ok shut by (auto simp: wire_ok_def)
  then show ?thesis using r shut by (simp add: write_done_def)
next
  case False
  have same: "inputBuffer c' = inputBuffer c \<and> reading c' = reading c \<and> state c' = state c \<and>
      (send_shut c' \<longrightarrow> state c' = kDisconnecting \<and> readableBytes (outputBuffer c') = 0)"
    using r False by (auto simp: write_done_def Let_def and_then_eq_Inr shutdownInThisThread_def conn_assertInLoopThread_def
      conn_write_def split: if_splits)
  moreover have "buf_ok (outputBuffer c')" using ok' by (auto simp: wire_ok_def)
  ultimately show ?thesis using False length_content [of "outputBuffer c'"] by auto
qed

lemma conn_shutdown_shut:
  assumes r: "conn_shutdown (loopTid c) c = Inr c'" and ok: "buf_ok (outputBuffer c)"
    and shut: "send_shut c \<longrightarrow> state c \<noteq> kConnected \<and> content (outputBuffer c) = []"
  shows "inputBuffer c' = inputBuffer c \<and> reading c' = reading c \<and>
    (state c' = state c \<or> state c = kConnected \<and> state c' = kDisconnecting) \<and> (send_shut c \<longrightarrow> send_shut c') \<and>
    (send_shut c' \<longrightarrow> state c' \<noteq> kConnected \<and> content (outputBuffer c') = [])"
  using r shut length_content [OF ok]
  by (auto simp: conn_shutdown_def Let_def and_then_eq_Inr shutdownInThisThread_def conn_assertInLoopThread_def setState_def
    split: if_splits)

text \<open>
  What an event of the sender, other than a transfer, does: it keeps the sending side in order, and a
  connection that has shut down says nothing more.
\<close>

lemma sender_event_ok:
  assumes ok: "sending_ok pb a" and r: "direction_event pb ev a b = Inr (a', b')" and ev: "\<And>n. ev \<noteq> Transfer n"
    and reg: "\<forall>m. ev = SendMessage m \<longrightarrow> registered pb m" and nt: "\<not> torn (peer_conn a')"
  shows "sending_ok pb a' \<and> b' = b \<and> heard a' = heard a \<and> told_down a' = told_down a \<and> peer_read a' = peer_read a \<and>
    inputBuffer (peer_conn a') = inputBuffer (peer_conn a) \<and> reading (peer_conn a') = reading (peer_conn a) \<and>
    (state (peer_conn a') = state (peer_conn a) \<or> state (peer_conn a) = kConnected \<and> state (peer_conn a') = kDisconnecting) \<and>
    (send_shut (peer_conn a) \<longrightarrow> send_shut (peer_conn a') \<and> said a' = said a) \<and> (\<exists>ms. said a' = said a @ ms)"
proof -
  let ?c = "peer_conn a"
  note s = ok [unfolded sending_ok_def]
  have out: "buf_ok (outputBuffer ?c)" using s by (auto simp: wire_ok_def)
  show ?thesis
  proof (cases ev)
    case (SendMessage m)
    then obtain c where c: "codec_send pb m ?c = Inr c" "b' = b"
        "a' = a\<lparr>peer_conn := c, said := (if connected ?c then said a @ [m] else said a)\<rparr>"
      using r by (auto simp: direction_event_def ends_event_def towards_def hears_def and_then_eq_Inr)
    have m: "registered pb m" using reg SendMessage by blast
    note eff = send_frame_effect [OF m c(1)] codec_send_input [OF c(1) m]
    show ?thesis
    proof (cases "connected ?c")
      case True
      then have "\<not> send_shut ?c" using s by (auto simp: connected_def)
      then show ?thesis using True eff s m c(2,3) by (simp add: sending_ok_def)
    next
      case False
      then have "c = ?c" using eff by simp
      then show ?thesis using False c(2,3) ok by simp
    qed
  next
    case (SenderWrote i)
    then obtain c where c: "write_done i ?c = Inr c" "b' = b" "a' = a\<lparr>peer_conn := c\<rparr>"
      using r by (auto simp: direction_event_def ends_event_def towards_def hears_def and_then_eq_Inr)
    obtain bs where bs: "wire c = wire ?c @ bs" using write_done_effect [OF c(1)] by blast
    have eff: "odd_sent c = odd_sent ?c" "accepted_bytes c = accepted_bytes ?c" "wire_ok c" "\<not> torn c"
      using write_done_effect [OF c(1)] write_done_wire [of ?c i c] s c(1,3) nt by auto
    show ?thesis using write_done_shut [OF c(1) _ _ _ _ eff(3)] eff s bs c(2,3) by (auto simp: sending_ok_def)
  next
    case (SenderWriteFails i n)
    then obtain c where c: "write_fail i n ?c = Inr c" "b' = b" "a' = a\<lparr>peer_conn := c\<rparr>"
      using r by (auto simp: direction_event_def ends_event_def towards_def hears_def and_then_eq_Inr)
    obtain bs where bs: "wire c = wire ?c @ bs" using write_fail_keeps [OF c(1)] by blast
    show ?thesis using write_fail_keeps [OF c(1)] write_fail_wire [of ?c i n c] s bs c nt by (simp add: sending_ok_def)
  next
    case SenderShutsDown
    then obtain c where c: "conn_shutdown (loopTid ?c) ?c = Inr c" "b' = b" "a' = a\<lparr>peer_conn := c\<rparr>"
      using r by (auto simp: direction_event_def ends_event_def towards_def hears_def and_then_eq_Inr)
    show ?thesis using conn_shutdown_shut [OF c(1) out] conn_shutdown_effect [OF c(1)] conn_shutdown_wire [of ?c _ c] s c
      by (simp add: sending_ok_def)
  next
    case (Transfer n)
    then show ?thesis using ev by blast
  qed
qed

lemma fold_log: "fold (\<lambda>m (ms, down). (ms @ [m], down)) xs (ms, down) = (ms @ xs, down)"
  by (induction xs arbitrary: ms) simp_all

lemma log_message_adds: "log_message m ([], w) = Inr ([], (\<lambda>(ms, down). (ms @ [m], down)) w)"
  by (simp add: log_message_def split: prod.split)

lemma peer_callbacks_simps [simp]:
  "connectionCallback (peer_callbacks pb) = Some (\<lambda>st (ms, down). ([], ms, down \<or> st = kDisconnected))"
  "messageCallback (peer_callbacks pb) = Some (protobuf_callback pb log_message)" "closeCallback (peer_callbacks pb) = None"
  by (simp_all add: peer_callbacks_def)

lemma transfer_direction:
  assumes ok: "direction_ok pb a b"
  shows "\<exists>a' b'. direction_event pb (Transfer n) a b = Inr (a', b') \<and> direction_ok pb a' b' \<and>
    a' = a\<lparr>peer_read := peer_read a'\<rparr> \<and> b' = b\<lparr>peer_conn := peer_conn b', heard := heard b'\<rparr> \<and>
    same_but_input (peer_conn b) (peer_conn b') \<and>
    (0 < n \<and> \<not> told_down b \<longrightarrow> length (in_flight (towards a' b')) \<le> length (in_flight (towards a b)) - 1)"
proof (cases "told_down b")
  case True
  then have "reading (peer_conn b) = None" using ok by (simp add: direction_ok_def)
  moreover have "peer_read a \<le> length (wire (peer_conn a))" using ok by (simp add: direction_ok_def sending_ok_def)
  ultimately have "direction_event pb (Transfer n) a b = Inr (a, b)"
    by (simp add: direction_event_def ends_event_def towards_def in_flight_def receive_def hears_def)
  then show ?thesis using ok True by simp
next
  case False
  let ?add = "\<lambda>m (ms, down). (ms @ [m], down)" and ?E = "towards a b"
  obtain j part where j: "taken_pb pb (said a) (peer_read a) j part (peer_conn b)" "heard b = take j (said a)"
    using ok False by (auto simp: direction_ok_def)
  note s = ok [unfolded direction_ok_def sending_ok_def, THEN conjunct1]
  have "ends_ok pb ?add ([], False) ?E"
    using s j False by (auto simp: ends_ok_def towards_def fold_log)
  moreover have "\<not> torn (sender ?E)" using s by (simp add: towards_def)
  ultimately obtain E' where E': "ends_event pb (peer_callbacks pb) (Transfer n) ?E = Inr E'" "ends_ok pb ?add ([], False) E'"
      "sender E' = sender ?E" "sent_msgs E' = sent_msgs ?E" "0 < n \<longrightarrow> length (in_flight E') \<le> length (in_flight ?E) - 1"
      "same_but_input (fst (receiver ?E)) (fst (receiver E'))"
    using transfer_ok [OF _ _ peer_callbacks_simps(2) log_message_adds, of pb "([], False)" ?E n] by blast
  obtain j' part' where j': "taken_pb pb (said a) (taken E') j' part' (fst (receiver E'))" "taken E' \<le> length (wire (peer_conn a))"
      "snd (receiver E') = (take j' (said a), False)"
    using E'(2) s by (auto simp: ends_ok_def E'(3,4) towards_def fold_log)
  let ?a = "a\<lparr>peer_read := taken E'\<rparr>" and ?b = "b\<lparr>peer_conn := fst (receiver E'), heard := take j' (said a)\<rparr>"
  have "direction_event pb (Transfer n) a b = Inr (?a, ?b)"
    using E'(1,3,4) j'(3) False by (cases "receiver E'") (simp add: direction_event_def hears_def towards_def)
  moreover have "direction_ok pb ?a ?b"
    using s j' False by (auto simp: direction_ok_def sending_ok_def)
  ultimately show ?thesis using E'(3,5,6) by (intro exI [of _ ?a] exI [of _ ?b]) (simp add: in_flight_def towards_def)
qed

lemma end_of_stream_direction:
  assumes ok: "direction_ok pb a b" and side: "side_ok b"
  shows "\<exists>b'. end_of_stream pb a b = Inr (a, b') \<and> direction_ok pb a b' \<and> side_ok b' \<and> said b' = said b \<and> peer_read b' = peer_read b \<and>
    (sending_ok pb b \<longrightarrow> sending_ok pb b') \<and> send_shut (peer_conn b') = send_shut (peer_conn b) \<and>
    (send_shut (peer_conn a) \<and> in_flight (towards a b) = [] \<or> told_down b \<longrightarrow> told_down b')"
proof (cases "send_shut (peer_conn a) \<and> in_flight (towards a b) = []")
  case False
  then show ?thesis using ok side by (intro exI [of _ b]) (auto simp: end_of_stream_def)
next
  case shut: True
  show ?thesis
  proof (cases "told_down b")
    case True
    then have "reading (peer_conn b) = None" using ok by (simp add: direction_ok_def)
    then have "end_of_stream pb a b = Inr (a, b)"
      using shut by (simp add: end_of_stream_def conn_event_def read_fail_def hears_def)
    then show ?thesis using ok side True by (intro exI [of _ b]) simp
  next
    case False
    let ?x = "peer_conn b"
    obtain j part where j: "taken_pb pb (said a) (peer_read a) j part ?x" "heard b = take j (said a)"
      using ok False by (auto simp: direction_ok_def)
    note s = ok [unfolded direction_ok_def sending_ok_def, THEN conjunct1]
    have "accepted_bytes (peer_conn a) = wire (peer_conn a)" using s shut by (auto simp: wire_ok_def)
    moreover have "peer_read a = length (wire (peer_conn a))" using s shut by (auto simp: in_flight_def towards_def)
    ultimately have "peer_read a = length (stream_of pb (said a))" using s by simp
    then have all: "heard b = said a" using all_taken j by (metis take_all order_refl)
    obtain r where r: "reading ?x = Some r"
      using j(1) by (auto simp: pbc.taken_so_far_def receiving_def Let_def split: if_splits)
    have st: "state ?x = kConnected \<or> state ?x = kDisconnecting" using side False by (cases "state ?x") (auto simp: side_ok_def)
    let ?x' = "?x\<lparr>reading := None, state := kDisconnected, upDowns := upDowns ?x @ [kDisconnected]\<rparr>"
    let ?b = "b\<lparr>peer_conn := ?x', told_down := True\<rparr>"
    have "end_of_stream pb a b = Inr (a, ?b)"
      using shut r st by (simp add: end_of_stream_def conn_event_def read_fail_def handleClose_def conn_assertInLoopThread_def
        call_connection_if_set_def call_connection_def call_close_if_set_def setState_def hears_def)
    moreover have "direction_ok pb a ?b" using ok all shut by (simp add: direction_ok_def)
    moreover have "side_ok ?b" by (simp add: side_ok_def)
    moreover have "sending_ok pb b \<longrightarrow> sending_ok pb ?b" by (auto simp: sending_ok_def)
    ultimately show ?thesis by (intro exI [of _ ?b]) simp
  qed
qed

section \<open>A torn write is never mended\<close>

lemma run_calls_torn: "fold_result run_call calls c = Inr c' \<Longrightarrow> torn c' = torn c"
proof (induction calls arbitrary: c)
  case (Cons x xs)
  have "torn c1 = torn c" if "run_call x c = Inr c1" for c1
    using that by (cases x) (auto simp: run_call_def send_string_def sendInThisThread_def conn_shutdown_def shutdownInThisThread_def
      conn_assertInLoopThread_def conn_post_def conn_write_def setState_def forceClose_def Let_def and_then_eq_Inr split: if_splits)
  then show ?case using Cons by (auto simp: and_then_eq_Inr)
qed simp

lemma arrive_torn:
  assumes "conn_event k (Arrive bs) (c, w) = Inr (c', w')"
  shows "torn c' = torn c"
  using assms
  by (auto simp: conn_event_def arrive_def read_complete_def readHeader_done_def readBody_done_def readBody_def readHeader_def
    Let_def and_then_eq_Inr dest!: run_calls_torn split: option.splits if_splits read_stage.splits)

lemma read_fail_torn:
  assumes "conn_event (peer_callbacks pb) ReadFail (c, w) = Inr (c', w')"
  shows "torn c' = torn c"
  using assms by (cases w) (auto simp: conn_event_def read_fail_def handleClose_def conn_assertInLoopThread_def setState_def
    call_connection_if_set_def call_connection_def call_close_if_set_def split: option.splits if_splits)

lemma direction_torn:
  assumes r: "direction_event pb ev a b = Inr (a', b')" and reg: "\<forall>m. ev = SendMessage m \<longrightarrow> registered pb m"
  shows "(torn (peer_conn a) \<longrightarrow> torn (peer_conn a')) \<and> torn (peer_conn b') = torn (peer_conn b)"
proof (cases ev)
  case (SendMessage m)
  then obtain c where "codec_send pb m (peer_conn a) = Inr c" "peer_conn a' = c" "b' = b"
    using r by (auto simp: direction_event_def ends_event_def towards_def hears_def and_then_eq_Inr)
  then show ?thesis using send_frame_effect [of pb m "peer_conn a" c] reg SendMessage by simp
next
  case (SenderWrote i)
  then obtain c where "write_done i (peer_conn a) = Inr c" "peer_conn a' = c" "b' = b"
    using r by (auto simp: direction_event_def ends_event_def towards_def hears_def and_then_eq_Inr)
  then show ?thesis using write_done_effect by blast
next
  case (SenderWriteFails i n)
  then obtain c where "write_fail i n (peer_conn a) = Inr c" "peer_conn a' = c" "b' = b"
    using r by (auto simp: direction_event_def ends_event_def towards_def hears_def and_then_eq_Inr)
  then show ?thesis using write_fail_keeps by blast
next
  case SenderShutsDown
  then obtain c where "conn_shutdown (loopTid (peer_conn a)) (peer_conn a) = Inr c" "peer_conn a' = c" "b' = b"
    using r by (auto simp: direction_event_def ends_event_def towards_def hears_def and_then_eq_Inr)
  then show ?thesis using conn_shutdown_effect by blast
next
  case (Transfer n)
  show ?thesis
  proof (cases "n = 0 \<or> in_flight (towards a b) = []")
    case True
    then show ?thesis using r Transfer by (auto simp: direction_event_def ends_event_def towards_def hears_def)
  next
    case False
    then obtain c w rest where "receive (peer_callbacks pb) n ((peer_conn b, heard b, told_down b), in_flight (towards a b)) = Inr ((c, w), rest)"
        "peer_conn a' = peer_conn a" "peer_conn b' = c"
      using r Transfer by (auto simp: direction_event_def ends_event_def towards_def hears_def and_then_eq_Inr)
    then show ?thesis by (auto simp: receive_def Let_def and_then_eq_Inr dest!: arrive_torn split: option.splits)
  qed
qed

lemma duplex_torn:
  assumes r: "duplex_event pb ev P = Inr P'" and reg: "\<forall>s m. ev = Does s (SendMessage m) \<longrightarrow> registered pb m"
    and t: "torn (peer_conn (P t))"
  shows "torn (peer_conn (P' t))"
proof (cases ev)
  case (Does s e)
  then obtain a b where ab: "direction_event pb e (P s) (P (\<not> s)) = Inr (a, b)" "P' = P(s := a, \<not> s := b)"
    using r by (auto simp: duplex_event_def and_then_eq_Inr)
  then show ?thesis using direction_torn [OF ab(1)] reg Does t by (cases "t = s") auto
next
  case (EndOfStream s)
  then obtain a b where ab: "end_of_stream pb (P s) (P (\<not> s)) = Inr (a, b)" "P' = P(s := a, \<not> s := b)"
    using r by (auto simp: duplex_event_def and_then_eq_Inr)
  have "a = P s \<and> torn (peer_conn b) = torn (peer_conn (P (\<not> s)))"
    using ab(1) by (auto simp: end_of_stream_def hears_def and_then_eq_Inr dest: read_fail_torn split: if_splits)
  then show ?thesis using ab(2) t by (cases "t = s") auto
qed

lemma duplex_events_torn:
  assumes "fold_result (duplex_event pb) evs P = Inr P'" and "\<forall>s m. Does s (SendMessage m) \<in> set evs \<longrightarrow> registered pb m"
    and "torn (peer_conn (P t))"
  shows "torn (peer_conn (P' t))"
  using assms
proof (induction evs arbitrary: P)
  case (Cons ev evs)
  then obtain P1 where P1: "duplex_event pb ev P = Inr P1" "fold_result (duplex_event pb) evs P1 = Inr P'"
    by (auto simp: and_then_eq_Inr)
  have "torn (peer_conn (P1 t))" using duplex_torn [OF P1(1) _ Cons.prems(3)] Cons.prems(2) by simp
  then show ?case using Cons.IH [OF P1(2)] Cons.prems(2) by simp
qed simp

section \<open>Both directions\<close>

lemma duplex_okI:
  assumes "side_ok a" "side_ok b" and "direction_ok pb a b" "direction_ok pb b a"
  shows "duplex_ok pb (P(s := a, \<not> s := b))"
  unfolding duplex_ok_def
proof
  fix t
  show "side_ok ((P(s := a, \<not> s := b)) t) \<and> direction_ok pb ((P(s := a, \<not> s := b)) t) ((P(s := a, \<not> s := b)) (\<not> t))"
    using assms by (cases s; cases t) simp_all
qed

lemma duplex_okD:
  assumes "duplex_ok pb P"
  shows "side_ok (P s)" "direction_ok pb (P s) (P (\<not> s))" "direction_ok pb (P (\<not> s)) (P s)"
  using assms [unfolded duplex_ok_def, rule_format, of s] assms [unfolded duplex_ok_def, rule_format, of "\<not> s"] by simp_all

lemma taken_le: "taken_pb pb ms n j part c \<Longrightarrow> j \<le> length ms"
  by (simp add: pbc.taken_so_far_def)

lemma direction_event_ok:
  assumes ok: "duplex_ok pb P" and r: "direction_event pb e (P s) (P (\<not> s)) = Inr (a', b')"
    and reg: "\<forall>m. e = SendMessage m \<longrightarrow> registered pb m" and nt: "\<not> torn (peer_conn a')"
  shows "duplex_ok pb (P(s := a', \<not> s := b'))"
proof -
  let ?a = "P s" and ?b = "P (\<not> s)"
  note side = duplex_okD(1) [OF ok] and dir = duplex_okD(2,3) [OF ok, of s]
  have send: "sending_ok pb ?a" using dir(1) by (simp add: direction_ok_def)
  show ?thesis
  proof (cases "\<exists>n. e = Transfer n")
    case True
    then obtain n where n: "e = Transfer n" by blast
    obtain a1 b1 where step: "direction_event pb (Transfer n) ?a ?b = Inr (a1, b1)" "direction_ok pb a1 b1"
        "a1 = ?a\<lparr>peer_read := peer_read a1\<rparr>" "b1 = ?b\<lparr>peer_conn := peer_conn b1, heard := heard b1\<rparr>"
        "same_but_input (peer_conn ?b) (peer_conn b1)"
      using transfer_direction [OF dir(1), of n] by blast
    have same: "a1 = a'" "b1 = b'" using step(1) r n by simp_all
    obtain t where t: "a' = ?a\<lparr>peer_read := t\<rparr>" using step(3) same(1) by blast
    note t = t step(4,5,2) [unfolded same]
    have b': "said b' = said ?b" "peer_read b' = peer_read ?b" "told_down b' = told_down ?b"
      by (subst t(2), simp)+
    have "sending_ok pb b'" using same_but_input_sending [OF t(3) b'(1,2), of pb] dir(2) by (simp add: direction_ok_def)
    then have "direction_ok pb b' ?a"
      by (rule direction_ok_sender [OF dir(2) _ b'(1,2)]) (use t(3) in \<open>simp add: same_but_inputD\<close>)
    then have "direction_ok pb b' a'" by (rule direction_ok_receiver) (simp_all add: t(1))
    moreover have "side_ok b'" using side [of "\<not> s"] b'(3) same_but_inputD(1) [OF t(3)] by (simp add: side_ok_def)
    moreover have "side_ok a'" using side [of s] by (simp add: side_ok_def t(1))
    ultimately show ?thesis using duplex_okI t(4) by blast
  next
    case False
    then have e: "\<And>n. e \<noteq> Transfer n" by blast
    note st = sender_event_ok [OF send r e reg nt]
    obtain ms where ms: "said a' = said ?a @ ms" using st by blast
    have "direction_ok pb a' ?b"
    proof (cases "told_down ?b")
      case True
      then show ?thesis using dir(1) st by (simp add: direction_ok_def)
    next
      case False
      then obtain j part where j: "taken_pb pb (said ?a) (peer_read ?a) j part (peer_conn ?b)" "heard ?b = take j (said ?a)"
        using dir(1) by (auto simp: direction_ok_def)
      have "taken_pb pb (said a') (peer_read a') j part (peer_conn ?b) \<and> heard ?b = take j (said a')"
        using pbc.taken_so_far_more [OF j(1), of ms] j(2) taken_le [OF j(1)] st ms by simp
      then show ?thesis using False st by (auto simp: direction_ok_def)
    qed
    moreover have "direction_ok pb ?b a'" using direction_ok_receiver [OF dir(2)] st by simp
    moreover have "side_ok a'" using side [of s] st by (auto simp: side_ok_def)
    ultimately show ?thesis using duplex_okI side [of "\<not> s"] st by blast
  qed
qed

lemma end_of_stream_ok:
  assumes ok: "duplex_ok pb P"
  shows "\<exists>b'. end_of_stream pb (P s) (P (\<not> s)) = Inr (P s, b') \<and> duplex_ok pb (P(\<not> s := b')) \<and>
    (send_shut (peer_conn (P s)) \<and> in_flight (towards (P s) (P (\<not> s))) = [] \<or> told_down (P (\<not> s)) \<longrightarrow> told_down b')"
proof -
  note side = duplex_okD(1) [OF ok] and dir = duplex_okD(2,3) [OF ok, of s]
  obtain b' where b': "end_of_stream pb (P s) (P (\<not> s)) = Inr (P s, b')" "direction_ok pb (P s) b'" "side_ok b'"
      "said b' = said (P (\<not> s))" "peer_read b' = peer_read (P (\<not> s))" "sending_ok pb (P (\<not> s)) \<longrightarrow> sending_ok pb b'"
      "send_shut (peer_conn b') = send_shut (peer_conn (P (\<not> s)))"
      "send_shut (peer_conn (P s)) \<and> in_flight (towards (P s) (P (\<not> s))) = [] \<or> told_down (P (\<not> s)) \<longrightarrow> told_down b'"
    using end_of_stream_direction [OF dir(1) side] by blast
  have "sending_ok pb b'" using b'(6) dir(2) by (simp add: direction_ok_def)
  then have "direction_ok pb b' (P s)" using direction_ok_sender [OF dir(2) _ b'(4,5)] b'(7) by simp
  then have "duplex_ok pb (P(s := P s, \<not> s := b'))" using duplex_okI b'(2,3) side by blast
  then show ?thesis using b'(1,8) by simp
qed

lemma duplex_event_ok:
  assumes ok: "duplex_ok pb P" and r: "duplex_event pb ev P = Inr P'"
    and reg: "\<forall>s m. ev = Does s (SendMessage m) \<longrightarrow> registered pb m" and nt: "\<forall>s. \<not> torn (peer_conn (P' s))"
  shows "duplex_ok pb P'"
proof (cases ev)
  case (Does s e)
  then obtain a b where ab: "direction_event pb e (P s) (P (\<not> s)) = Inr (a, b)" "P' = P(s := a, \<not> s := b)"
    using r by (auto simp: duplex_event_def and_then_eq_Inr)
  have "P' s = a" using ab(2) by (cases s) simp_all
  then have "\<not> torn (peer_conn a)" using nt by metis
  then show ?thesis using direction_event_ok [OF ok ab(1)] reg Does ab(2) by simp
next
  case (EndOfStream s)
  then show ?thesis using end_of_stream_ok [OF ok, of s] r by (auto simp: duplex_event_def)
qed

lemma duplex_events_ok:
  assumes "duplex_ok pb P" and "fold_result (duplex_event pb) evs P = Inr P'" and "\<forall>s m. Does s (SendMessage m) \<in> set evs \<longrightarrow> registered pb m"
    and "\<forall>s. \<not> torn (peer_conn (P' s))"
  shows "duplex_ok pb P'"
  using assms
proof (induction evs arbitrary: P)
  case (Cons ev evs)
  then obtain P1 where P1: "duplex_event pb ev P = Inr P1" "fold_result (duplex_event pb) evs P1 = Inr P'"
    by (auto simp: and_then_eq_Inr)
  have nt: "\<forall>s. \<not> torn (peer_conn (P1 s))" using duplex_events_torn [OF P1(2)] Cons.prems(3,4) by auto
  have "duplex_ok pb P1"
    by (rule duplex_event_ok [OF Cons.prems(1) P1(1)]) (use Cons.prems(3) nt in auto)
  then show ?case using Cons.IH [OF _ P1(2)] Cons.prems(3,4) by auto
qed simp

lemma peer_open_ok:
  assumes "peer_open pb tid = Inr a"
  shows "side_ok a \<and> sending_ok pb a \<and> said a = [] \<and> heard a = [] \<and> \<not> told_down a \<and> peer_read a = 0 \<and> awaiting_header (peer_conn a)"
proof -
  obtain c0 where c0: "TcpConnection_new tid (sound_socket 0) = Inr c0" using assms by (auto simp: peer_open_def and_then_eq_Inr)
  have "\<not> send_shut c0" using c0 by (auto simp: TcpConnection_new_def and_then_eq_Inr split: if_splits)
  note new = TcpConnection_new_ok [OF c0] this
  have a: "a = \<lparr>peer_conn = readHeader (c0\<lparr>state := kConnected, upDowns := upDowns c0 @ [kConnected]\<rparr>), said = [], peer_read = 0,
      heard = [], told_down = False\<rparr>"
    using assms c0 new by (auto simp: peer_open_def conn_event_def connectEstablished_def conn_assertInLoopThread_def
      call_connection_if_set_def call_connection_def setState_def)
  show ?thesis using new established_receiving [OF c0] unfolding a
    by (simp add: side_ok_def sending_ok_def readHeader_def receiving_def Let_def)
qed

lemma duplex_open_ok:
  assumes "duplex_open pb tid tid' = Inr P"
  shows "duplex_ok pb P"
proof -
  obtain a b where ab: "peer_open pb tid = Inr a" "peer_open pb tid' = Inr b" "P = (\<lambda>s. if s then a else b)"
    using assms by (auto simp: duplex_open_def and_then_eq_Inr)
  have peer: "side_ok (P s) \<and> sending_ok pb (P s) \<and> said (P s) = [] \<and> heard (P s) = [] \<and> \<not> told_down (P s) \<and> peer_read (P s) = 0 \<and>
      awaiting_header (peer_conn (P s))" for s
    using peer_open_ok [OF ab(1)] peer_open_ok [OF ab(2)] ab(3) by (cases s) simp_all
  have "taken_pb pb [] 0 0 [] (peer_conn (P s))" for s using peer [of s] by (simp add: pbc.taken_so_far_def)
  then have "direction_ok pb (P s) (P (\<not> s))" for s using peer [of s] peer [of "\<not> s"] unfolding direction_ok_def by fastforce
  then show ?thesis using peer by (simp add: duplex_ok_def)
qed

lemma transfer_ok_duplex:
  assumes ok: "duplex_ok pb P"
  shows "\<exists>P'. duplex_event pb (Does s (Transfer n)) P = Inr P' \<and> duplex_ok pb P' \<and> said (P' s) = said (P s) \<and>
    peer_conn (P' s) = peer_conn (P s) \<and> told_down (P' (\<not> s)) = told_down (P (\<not> s)) \<and>
    (0 < n \<and> \<not> told_down (P (\<not> s)) \<longrightarrow>
      length (in_flight (towards (P' s) (P' (\<not> s)))) \<le> length (in_flight (towards (P s) (P (\<not> s)))) - 1)"
proof -
  obtain a b where step: "direction_event pb (Transfer n) (P s) (P (\<not> s)) = Inr (a, b)"
      "a = (P s)\<lparr>peer_read := peer_read a\<rparr>" "b = (P (\<not> s))\<lparr>peer_conn := peer_conn b, heard := heard b\<rparr>"
      "0 < n \<and> \<not> told_down (P (\<not> s)) \<longrightarrow> length (in_flight (towards a b)) \<le> length (in_flight (towards (P s) (P (\<not> s)))) - 1"
    using transfer_direction [OF duplex_okD(2) [OF ok, of s], of n] by blast
  have a: "said a = said (P s)" "peer_conn a = peer_conn (P s)" by (subst step(2), simp)+
  have b: "told_down b = told_down (P (\<not> s))" by (subst step(3), simp)
  have "\<not> torn (peer_conn a)" using duplex_okD(2) [OF ok, of s] a(2) by (simp add: direction_ok_def sending_ok_def)
  then have "duplex_ok pb (P(s := a, \<not> s := b))" using direction_event_ok [OF ok step(1)] by simp
  then show ?thesis using step(1,4) a b by (intro exI [of _ "P(s := a, \<not> s := b)"]) (simp add: duplex_event_def)
qed

lemma transfers_duplex:
  assumes "duplex_ok pb P" and "\<forall>n\<in>set ns. 0 < n" and "told_down (P (\<not> s)) \<or> length (in_flight (towards (P s) (P (\<not> s)))) \<le> length ns"
  shows "\<exists>P'. fold_result (duplex_event pb) (map (Does s \<circ> Transfer) ns) P = Inr P' \<and> duplex_ok pb P' \<and>
    said (P' s) = said (P s) \<and> peer_conn (P' s) = peer_conn (P s) \<and>
    (told_down (P' (\<not> s)) \<or> in_flight (towards (P' s) (P' (\<not> s))) = [])"
  using assms
proof (induction ns arbitrary: P)
  case (Cons n ns)
  obtain P1 where P1: "duplex_event pb (Does s (Transfer n)) P = Inr P1" "duplex_ok pb P1" "said (P1 s) = said (P s)"
      "peer_conn (P1 s) = peer_conn (P s)"
      "told_down (P1 (\<not> s)) \<or> length (in_flight (towards (P1 s) (P1 (\<not> s)))) \<le> length ns"
    using transfer_ok_duplex [OF Cons.prems(1), of s n] Cons.prems(2,3) by fastforce
  then show ?case using Cons.IH [OF P1(2) _ P1(5)] Cons.prems(2) by auto
qed auto

section \<open>Properties\<close>

text \<open>
  C6: both users hear what the other said.  Two sides are open and joined; both send messages, their
  writes complete or fail, they shut down, the streams arrive in pieces of any size, and a stream that
  has been shut down and read to its end closes the connection that reads it, all in any order.
  Unless a write was torn, each side has heard a prefix of what the other said, in order and none
  twice; a side that was told its connection is down has heard all of it; and neither a read nor the
  end of a stream can fail next.
\<close>

theorem duplex_hears:
  assumes "duplex_open pb tid tid' = Inr P0" and "\<forall>s m. Does s (SendMessage m) \<in> set evs \<longrightarrow> registered pb m"
    and "fold_result (duplex_event pb) evs P0 = Inr P" and "\<forall>s. \<not> torn (peer_conn (P s))"
  shows "(\<exists>j. heard (P (\<not> s)) = take j (said (P s))) \<and> (told_down (P (\<not> s)) \<longrightarrow> heard (P (\<not> s)) = said (P s)) \<and>
    (\<exists>P'. duplex_event pb (Does s (Transfer n)) P = Inr P') \<and> (\<exists>P'. duplex_event pb (EndOfStream s) P = Inr P')"
proof -
  have ok: "duplex_ok pb P" by (rule duplex_events_ok [OF duplex_open_ok [OF assms(1)] assms(3,2,4)])
  have "(\<exists>j. heard (P (\<not> s)) = take j (said (P s))) \<and> (told_down (P (\<not> s)) \<longrightarrow> heard (P (\<not> s)) = said (P s))"
    using duplex_okD(2) [OF ok, of s] by (auto simp: direction_ok_def split: if_splits intro: exI [of _ "length (said (P s))"])
  then show ?thesis using transfer_ok_duplex [OF ok, of s n] end_of_stream_ok [OF ok, of s] by (auto simp: duplex_event_def)
qed

text \<open>
  C3: a shutdown loses nothing.  When, in any such state, one side has shut its socket down, then as
  many reads of at least one byte as it has bytes in flight, followed by the end of the stream, all
  succeed, and the other side has then heard everything said, and was told that its connection is
  down.
\<close>

theorem shutdown_delivers:
  assumes "duplex_open pb tid tid' = Inr P0" and "\<forall>s m. Does s (SendMessage m) \<in> set evs \<longrightarrow> registered pb m"
    and "fold_result (duplex_event pb) evs P0 = Inr P" and "\<forall>s. \<not> torn (peer_conn (P s))"
    and "send_shut (peer_conn (P s))" and "\<forall>n\<in>set ns. 0 < n" and "length (in_flight (towards (P s) (P (\<not> s)))) \<le> length ns"
  shows "\<exists>P'. fold_result (duplex_event pb) (map (Does s \<circ> Transfer) ns @ [EndOfStream s]) P = Inr P' \<and>
    heard (P' (\<not> s)) = said (P s) \<and> told_down (P' (\<not> s))"
proof -
  have ok: "duplex_ok pb P" by (rule duplex_events_ok [OF duplex_open_ok [OF assms(1)] assms(3,2,4)])
  obtain P1 where P1: "fold_result (duplex_event pb) (map (Does s \<circ> Transfer) ns) P = Inr P1" "duplex_ok pb P1"
      "said (P1 s) = said (P s)" "peer_conn (P1 s) = peer_conn (P s)"
      "told_down (P1 (\<not> s)) \<or> in_flight (towards (P1 s) (P1 (\<not> s))) = []"
    using transfers_duplex [OF ok assms(6)] assms(7) by blast
  obtain b where b: "end_of_stream pb (P1 s) (P1 (\<not> s)) = Inr (P1 s, b)" "duplex_ok pb (P1(\<not> s := b))" "told_down b"
    using end_of_stream_ok [OF P1(2), of s] P1(4,5) assms(5) by auto
  have "heard b = said (P1 s)" using duplex_okD(2) [OF b(2), of s] b(3) by (simp add: direction_ok_def)
  then show ?thesis using P1(1,3) b(1,3)
    by (intro exI [of _ "P1(\<not> s := b)"]) (simp add: fold_result_append duplex_event_def)
qed

text \<open>Two sides: each says a message, one writes it and shuts down.\<close>

definition sample_conn :: tcp_connection where
  "sample_conn = readHeader (fresh_connection\<lparr>state := kConnected, upDowns := [kConnected]\<rparr>)"

definition sample_peer :: "byte list peer" where
  "sample_peer = \<lparr>peer_conn = sample_conn, said = [], peer_read = 0, heard = [], told_down = False\<rparr>"

definition sample_events :: "byte list duplex_event list" where
  "sample_events = [Does True (SendMessage [5]), Does True (SenderWrote 0), Does False (SendMessage [5]), Does True SenderShutsDown]"

definition sample_duplex :: "byte list duplex" where
  "sample_duplex s = (if s then
     sample_peer\<lparr>peer_conn := sample_conn\<lparr>state := kDisconnecting, outputBuffer := \<lparr>vec = overwrite 8 sample_frame (replicate 1032 0),
       readerIndex = 8, writerIndex = 8\<rparr>, send_shut := True, accepted_bytes := sample_frame, wire := sample_frame\<rparr>, said := [[5]]\<rparr>
   else
     sample_peer\<lparr>peer_conn := sample_conn\<lparr>outputBuffer := \<lparr>vec = overwrite 8 sample_frame (replicate 1032 0), readerIndex = 8,
       writerIndex = 23\<rparr>, accepted_bytes := sample_frame, writes := [\<lparr>source = 8, count_bytes = 15, storage = 1032\<rparr>]\<rparr>, said := [[5]]\<rparr>)"

lemma sample_open: "duplex_open sample_protobuf 0 0 = Inr (\<lambda>s. sample_peer)"
  using fresh_connection_new
  by (simp add: duplex_open_def peer_open_def conn_event_def connectEstablished_def conn_assertInLoopThread_def
    call_connection_if_set_def call_connection_def setState_def sample_peer_def sample_conn_def) (simp add: fresh_connection_def)

lemma sample_conn_fields:
  "connected sample_conn" "outputBuffer sample_conn = outputBuffer fresh_connection" "accepted_bytes sample_conn = []"
  "writes sample_conn = []" "\<not> odd_sent sample_conn" "\<not> torn sample_conn" "wire sample_conn = []" "state sample_conn = kConnected"
  "loopTid sample_conn = 0"
  by (simp_all add: sample_conn_def readHeader_def fresh_connection_def connected_def)

lemma sample_run: "fold_result (duplex_event sample_protobuf) sample_events (\<lambda>s. sample_peer) = Inr sample_duplex"
  by (simp add: sample_events_def duplex_event_def direction_event_def ends_event_def towards_def hears_def Let_def sample_peer_def
      sample_conn_fields send_sample write_sample conn_shutdown_def setState_def shutdownInThisThread_def conn_assertInLoopThread_def
      readableBytes_def size_simps fun_eq_iff sample_duplex_def)

lemma sample_torn: "\<forall>s. \<not> torn (peer_conn (sample_duplex s))"
  by (simp add: sample_duplex_def sample_conn_fields)

lemma sample_up: "\<not> told_down (sample_duplex s)"
  by (simp add: sample_duplex_def sample_peer_def)

lemma sample_registered: "\<forall>s m. Does s (SendMessage m) \<in> set sample_events \<longrightarrow> registered sample_protobuf m"
  by (simp add: sample_events_def registered_sample)

theorem duplex_hears_witness:
  "(\<exists>j. heard (sample_duplex False) = take j (said (sample_duplex True))) \<and> \<not> told_down (sample_duplex False) \<and>
    (\<exists>P'. duplex_event sample_protobuf (Does True (Transfer 3)) sample_duplex = Inr P') \<and>
    (\<exists>P'. duplex_event sample_protobuf (EndOfStream True) sample_duplex = Inr P')"
  using duplex_hears [OF sample_open sample_registered sample_run sample_torn, of True 3] sample_up by simp

theorem shutdown_delivers_witness:
  "\<exists>P'. fold_result (duplex_event sample_protobuf) (map (Does True \<circ> Transfer) (replicate 15 3) @ [EndOfStream True]) sample_duplex =
      Inr P' \<and> heard (P' False) = [[5]] \<and> told_down (P' False)"
proof -
  have "\<exists>P'. fold_result (duplex_event sample_protobuf) (map (Does True \<circ> Transfer) (replicate 15 3) @ [EndOfStream True]) sample_duplex =
      Inr P' \<and> heard (P' (\<not> True)) = said (sample_duplex True) \<and> told_down (P' (\<not> True))"
    by (rule shutdown_delivers [OF sample_open sample_registered sample_run sample_torn])
      (simp_all add: sample_duplex_def sample_peer_def in_flight_def towards_def)
  then show ?thesis by (simp only: sample_duplex_def if_True peer.simps not_True_eq_False sample_peer_def)
qed

end
