(* ===== verification/Http_Message.thy ===== *)
theory Http_Message
  imports Http_Router
begin

text \<open>
  \<open>Http/Regex.h/.cpp\<close>, \<open>RequestProcessor\<close> with its regular expressions, and
  \<open>Http/HttpResponse.hpp\<close>.  Parameters: \<open>std_match\<close> and \<open>std_search\<close> are \<open>std::regex_match\<close> with the
  flags of the expression, without and with a result; \<open>prepare_payload\<close> is the member of a
  beast message that sets the fields describing its body.
\<close>

section \<open>Regex\<close>

record regex =
  flag :: nat

definition Regex_new :: "nat \<Rightarrow> regex" where
  "Regex_new f = \<lparr>flag = f\<rparr>"

definition Regex_match :: "(nat \<Rightarrow> string \<Rightarrow> string \<Rightarrow> bool) \<Rightarrow> regex \<Rightarrow> string \<Rightarrow> string \<Rightarrow> bool" where
  "Regex_match std_match r expression str = std_match (flag r) expression str"

definition Regex_match_result ::
  "(nat \<Rightarrow> string \<Rightarrow> string \<Rightarrow> bool \<times> 'result) \<Rightarrow> regex \<Rightarrow> string \<Rightarrow> string \<Rightarrow> bool \<times> 'result" where
  "Regex_match_result std_search r expression str = std_search (flag r) expression str"

text \<open>The processor of a session refers to the maps of the router, and has its own \<open>Regex\<close>.\<close>

record 'e request_processor =
  processor_maps :: "'e router"
  processor_regex :: regex

definition RequestProcessor_new :: "'e router \<Rightarrow> nat \<Rightarrow> 'e request_processor" where
  "RequestProcessor_new rt flags = \<lparr>processor_maps = rt, processor_regex = Regex_new flags\<rparr>"

definition processor_provide ::
  "(nat \<Rightarrow> string \<Rightarrow> string \<Rightarrow> bool) \<Rightarrow> ('e resources \<Rightarrow> string list) \<Rightarrow> nat \<Rightarrow> 'e request_processor \<Rightarrow> verb \<Rightarrow> string \<Rightarrow>
    ('e list \<times> request) result" where
  "processor_provide std_match keys depth p method target =
     provide (Regex_match std_match (processor_regex p)) keys depth (processor_maps p) method target"

section \<open>HttpResponse\<close>

datatype field = Server | Content_type

record message =
  version :: nat
  keep_alive :: bool
  header_fields :: "(field \<times> string) list"
  body_text :: string

record response = message +
  status :: nat

definition set_field :: "field \<Rightarrow> string \<Rightarrow> 'a message_scheme \<Rightarrow> 'a message_scheme" where
  "set_field f v m = m\<lparr>header_fields := filter (\<lambda>(g, _). g \<noteq> f) (header_fields m) @ [(f, v)]\<rparr>"

definition make_200 :: "string \<Rightarrow> (response \<Rightarrow> response) \<Rightarrow> message \<Rightarrow> string \<Rightarrow> response" where
  "make_200 beast_version prepare_payload request body =
     (let response = \<lparr>version = version request, keep_alive = False, header_fields = [], body_text = [], status = 200\<rparr>;
          response = set_field Server beast_version response;
          response = set_field Content_type ''text/html'' response;
          response = response\<lparr>keep_alive := keep_alive request\<rparr>;
          response = response\<lparr>body_text := body\<rparr>
      in prepare_payload response)"

text \<open>Every field is there once, and the answer agrees with the request on its version and the connection.\<close>

lemma make_200_fields:
  "let r = make_200 v id q b in status r = 200 \<and> version r = version q \<and> keep_alive r = keep_alive q \<and> body_text r = b \<and>
     header_fields r = [(Server, v), (Content_type, ''text/html'')]"
  by (simp add: make_200_def set_field_def)

end
