(* ===== verification/Spec2Isabelle.thy ===== *)
theory Spec2Isabelle
  imports Codec Thread_Pool Tcp_Client Http_Service Dispatcher Framed_Connection Query_Server Threads File_IO String_Piece
    Shared_Memory IO_Timer Signals Unix_Socket Live_Server Live_Client Main_Program Duplex Http_Message
begin

text \<open>
  A verification development of the IOEvent library: event loops over asio, TCP servers and clients
  with codecs, timers, thread pools, and an HTTP server with its routers.

  \<^bold>\<open>The program.\<close>  An \<open>IOLoop\<close> (\<open>Net/IOLoop.cpp\<close>) runs the handlers of one thread: the
  completions of asio and the tasks other threads post.  A \<open>TimerQueue\<close> belongs to each loop.  An
  \<open>IOLoopThread\<close> starts a thread with a loop in it, an \<open>IOLoopThreadPool\<close> several of them.  A
  \<open>TcpServer\<close> accepts sockets in its base loop, gives each to a loop of the pool as a
  \<open>TcpConnection\<close>, and keeps a map of them; a \<open>TcpClient\<close> gets one from a \<open>Connector\<close> that retries.
  A connection reads the length and the body of one frame at a time into a \<open>Buffer\<close> and calls the
  message callback, usually a codec: \<open>LengthHeaderCodec\<close> for plain messages, \<open>ProtobufCodec\<close> with a
  \<open>Dispatcher\<close> for protobuf ones.  \<open>HttpServer\<close> gives each socket an \<open>HttpSession\<close>, which reads
  requests and runs the handlers a router finds for the path (as written it cannot answer: what sends
  a response does not compile).
  \<open>main.cpp\<close> starts an \<open>HttpServer\<close> with a few routes, and has a \<open>QueryServer\<close> on top of
  \<open>TcpServer\<close>, \<open>ProtobufCodec\<close> and \<open>Dispatcher\<close>.

  \<^bold>\<open>Theories and sources.\<close>  Definitions keep the names of the source, with the class in front where
  two would clash (\<open>Thread_start\<close>, \<open>Dispatcher_onMessage\<close>).

  \<^item> \<open>Prelude\<close>: faults, fallible operations, \<open>size_t\<close> and \<open>int32_t\<close> at their widths, network byte
    order, list segments.
  \<^item> \<open>Byte_Queue\<close>: the interface of a byte buffer, a locale; \<open>Buffer\<close> (\<open>Net/Buffer\<close>) interprets it.
    \<open>String_Piece\<close> (\<open>Net/StringPiece.h\<close>).
  \<^item> \<open>Codec\<close> (\<open>Net/Codec\<close>), \<open>Protobuf_Codec\<close> (\<open>Net/ProtobufCodec\<close>), \<open>Dispatcher\<close>
    (\<open>Net/Dispatcher.h\<close>).
  \<^item> \<open>Ordered_Set\<close>: the interface of \<open>std::set\<close>, a locale with its list model.  \<open>Timer\<close>
    (\<open>Net/Timestamp\<close>, \<open>Net/Timer\<close>), \<open>Timer_Queue\<close> (\<open>Net/TimerQueue\<close>), \<open>IO_Timer\<close>
    (\<open>Net/IOTimer.h\<close>).
  \<^item> \<open>Event_Loop\<close> (\<open>Net/IOLoop\<close>), \<open>Threads\<close> (\<open>Net/Thread\<close>, \<open>Net/CountDownLatch.h\<close>,
    \<open>Net/CurrentThread\<close>, \<open>Net/IOLoopThread\<close>), \<open>Loop_Pool\<close> (\<open>Net/IOLoopThreadPool\<close>), \<open>Thread_Pool\<close>
    (\<open>Net/ThreadPool\<close>).
  \<^item> \<open>Tcp_Connection\<close> (\<open>Net/TcpConnection\<close>), \<open>Tcp_Server\<close> (\<open>Net/TcpServer\<close>, \<open>Net/Accept\<close>),
    \<open>Tcp_Client\<close> (\<open>Net/TcpClient\<close>, \<open>Net/Connector\<close>).
  \<^item> The compositions.  \<open>Hosted_Connection\<close>: a connection with the callbacks its owner sets.
    \<open>Live_Server\<close>: a server with its real connections, a refinement of \<open>Tcp_Server\<close>, which knows
    only their states; \<open>Live_Client\<close>: a client with its own, a refinement of \<open>Tcp_Client\<close>, which
    knows only its name.  \<open>Framed_Connection\<close>: a connection, its buffer and a
    codec, through the locale \<open>frame_codec\<close> with both codecs as interpretations.  \<open>Two_Ends\<close>: a
    sending and a receiving connection joined by a socket; \<open>Duplex\<close>: two that both send, until one
    shuts down.  \<open>Query_Server\<close> (\<open>main.cpp\<close>,
    \<open>QueryServer\<close>): all of them under one user.
  \<^item> \<open>Url\<close> (\<open>Http/Url\<close>), \<open>Http_Router\<close> (\<open>Http/Router.hpp\<close>, \<open>BasicRouter.hpp\<close>,
    \<open>RequestProcessor.hpp\<close>, \<open>Cb.hpp\<close>), \<open>Http_Session\<close> (\<open>Http/HttpSession.hpp\<close>, \<open>Queue.hpp\<close>,
    \<open>Connection.hpp\<close>, \<open>HttpServer.hpp\<close>);
    \<open>Http_Service\<close>: a session with a router behind it, through the locale \<open>request_app\<close>;
    \<open>Main_Program\<close> (\<open>main.cpp\<close>): the routes and the server of the program; \<open>Http_Message\<close>
    (\<open>Http/Regex\<close>, \<open>Http/HttpResponse.hpp\<close>).
  \<^item> \<open>File_IO\<close> (\<open>File/File\<close>), \<open>Shared_Memory\<close> (\<open>Memory/SharedMemory\<close>), \<open>Signals\<close>
    (\<open>Signal/Signal\<close>), \<open>Unix_Socket\<close> (\<open>UnixSocket/UnixSocket\<close>).

  \<^bold>\<open>How code becomes definitions.\<close>  A class is a record of its data members, an operation a function on
  it.  What ends an operation other than its return (a failed assertion, an access outside an object
  or to a deleted one, an exception nobody catches) is a value of \<open>fault\<close>; an operation that may end
  so has a result \<open>fault + 'a\<close>.  Deleted objects are missing from an explicit heap (timers), or named
  by a field that says what storage a pending operation was started on (the output buffer of a
  connection).  Calls of the user's callbacks are parameters that return the
  operations they make.  What asio and other threads do is a list of events, run by \<open>fold_result\<close> or
  by an inductive step relation (\<open>Thread_Pool\<close>, \<open>Threads\<close>), and a property holds for every list or
  run; an event says what the library answered, the bytes a failed write has sent and the calls on a
  socket that throw included, and no order is assumed of tasks that several threads run.  The
  libraries (asio, beast, protobuf, zlib, the system calls) are parameters, \<open>io_context::run\<close> among them.

  \<^bold>\<open>What the lemmas show.\<close>  Each component theory has an invariant that its operations keep
  (\<open>buf_ok\<close>, \<open>queue_ok\<close>, \<open>wire_ok\<close>, \<open>server_ok\<close>, \<open>tasks_ok\<close>, \<open>lt_ok\<close>, \<open>http_ok\<close>,
  \<open>shm_ok\<close>), and safety follows from it, under the hypotheses the theorems state: the one fault in a
  run of a timer queue is \<open>addTimer\<close> from another thread reading its timer after the loop has freed it,
  the one fault of a server or an HTTP server is the exception of a socket that its peer has reset;
  none in the start, stop and destruction of a thread that nobody else quits.  Refinements of abstract specifications: the buffer is a
  list of bytes, the codecs are decoders of a byte stream, a connection with a codec delivers the
  messages sent whatever pieces arrive, a server with its connections is the server that knows their
  states, a client that connects once is the client that knows its connection's name and never faults,
  deleted or not, a router is a map, a session behind it reads on until a route closes it, a query is
  answered once through all the layers, a periodic timer follows a schedule, string pieces compare as
  lists.  End to end: what the user of one connection sends, the user of
  the other is given, once each and in order, in both directions at once, and a shutdown loses none of it.  Round trips:
  frames, protobuf messages, integers in a buffer, URLs, files.  Liveness and termination: \<open>start\<close> and
  \<open>stop\<close> return, retries back off, the file loops end.  The other theorems show where the code goes wrong, on the
  inputs they name: those are the errors listed as findings of the development.

  \<^bold>\<open>Recursion, bounds and fuel.\<close>  \<open>LengthHeader_onMessage\<close> ends because the readable bytes shrink.
  \<open>Protobuf_onMessage\<close> may run for ever, so it is a partial function whose \<open>None\<close> is not returning;
  where it is a message callback that is the fault \<open>Never_Returns\<close>.  \<open>writeAll\<close>, \<open>readAll\<close> and the
  \<open>fcntl\<close> loops of \<open>Unix_Socket\<close> take the answers of the system calls from a list and are \<open>None\<close>
  while they need more: \<open>writeAll_terminates\<close> says how many are enough.  A handler of an HTTP chain
  calls the next through its iterator: \<open>depth\<close> is the room on the stack, and the theorems ask for as
  much as the chain is long.  \<open>signal_kill\<close> has the same parameter and uses up any.

  \<^bold>\<open>Not modelled.\<close>  What does not compile when it is used: sending a response (\<open>Context::send\<close>,
  \<open>doWrite\<close>, the responses of \<open>Queue\<close>), \<open>Context::advance\<close>, the overloads of \<open>HttpSession\<close> with a time
  point, its \<open>push\<close> and its weak context, and \<open>Http/ChainRouter.hpp\<close>.  (Two files are modelled with
  the one repair their theories name: \<open>IO_Timer\<close> and \<open>Unix_Socket\<close>.)  Further logging
  and its set-up (\<open>InitGlog\<close>), names of threads, type traits and wrappers of one library call; the
  memory model below a mutex or an atomic: a data race is shown only where the interleaving of whole
  steps shows it.
\<close>

end
